theory Spec2Isabelle
  imports Main "HOL-Library.Sublist"
begin

section \<open>JavaScript values used by the program\<close>

text \<open>
  The inputs of \<open>diff\<close> are JavaScript values: the program tests them against
  \<open>undefined\<close> and for truthiness (\<open>text && text.length\<close>).
\<close>

datatype jsval = JUndefined | JNull | JString string

text \<open>
  What ends a call of \<open>diff\<close> without a result: the two errors that the program
  throws itself, the \<open>SyntaxError\<close> of \<open>new RegExp\<close> for a pattern that does not
  compile, and the \<open>TypeError\<close> of a method call on \<open>undefined\<close>.
\<close>

datatype error = IllegalArgument string | UnexpectedState | SyntaxError | TypeError

text \<open>
  A number read from a sparse array may be \<open>undefined\<close>; arithmetic on it gives
  \<open>NaN\<close>, and every comparison with \<open>undefined\<close> or \<open>NaN\<close> is false. Both are
  \<open>None\<close> here.
\<close>

type_synonym jsnum = "int option"

definition js_lt :: "jsnum \<Rightarrow> jsnum \<Rightarrow> bool" where
  "js_lt a b = (case (a, b) of (Some x, Some y) \<Rightarrow> x < y | _ \<Rightarrow> False)"

definition js_le :: "jsnum \<Rightarrow> jsnum \<Rightarrow> bool" where
  "js_le a b = (case (a, b) of (Some x, Some y) \<Rightarrow> x \<le> y | _ \<Rightarrow> False)"

definition js_add :: "jsnum \<Rightarrow> int \<Rightarrow> jsnum" where
  "js_add a n = map_option (\<lambda>x. x + n) a"

text \<open>
  A plain object \<open>{}\<close> inherits the members of \<open>Object.prototype\<close>: a property read
  finds them whenever the object has no own property of that name.
\<close>

definition Object_prototype :: "string list" where
  "Object_prototype =
    [''constructor'', ''__defineGetter__'', ''__defineSetter__'', ''hasOwnProperty'',
     ''__lookupGetter__'', ''__lookupSetter__'', ''isPrototypeOf'',
     ''propertyIsEnumerable'', ''toString'', ''valueOf'', ''__proto__'',
     ''toLocaleString'']"

section \<open>Encoder\<close>

text \<open>
  What \<open>_codes[i]\<close> can hold: a number allocated by \<open>newCode\<close>, or the inherited
  member that \<open>diff_codes[line]\<close> returned for a line named like one.
\<close>

datatype code = Num int | Inherited string

text \<open>
  \<open>diff_codes\<close> is a plain object used as a dictionary; its own properties are kept
  in insertion order.
\<close>

record encoder =
  code :: int
  diff_codes :: "(string \<times> int) list"

definition new_Encoder :: encoder where
  "new_Encoder = \<lparr>code = 0, diff_codes = []\<rparr>"

definition getCode :: "encoder \<Rightarrow> string \<Rightarrow> code option" where
  "getCode enc line =
    (case map_of (diff_codes enc) line of
       Some c \<Rightarrow> Some (Num c)
     | None \<Rightarrow> if line \<in> set Object_prototype then Some (Inherited line) else None)"

definition getCodes :: "encoder \<Rightarrow> (string \<times> int) list" where
  "getCodes enc = diff_codes enc"

text \<open>
  \<open>obj[key] = v\<close>: an own property keeps its place, a new one is added last; an
  assignment of a number to \<open>__proto__\<close> changes nothing.
\<close>

fun set_prop :: "(string \<times> int) list \<Rightarrow> string \<Rightarrow> int \<Rightarrow> (string \<times> int) list" where
  "set_prop [] key v = [(key, v)]"
| "set_prop ((k, w) # rest) key v =
    (if k = key then (key, v) # rest else (k, w) # set_prop rest key v)"

definition newCode :: "encoder \<Rightarrow> string \<Rightarrow> int \<times> encoder" where
  "newCode enc line =
    (let c = code enc + 1
     in (c, enc\<lparr>code := c,
                diff_codes := (if line = ''__proto__'' then diff_codes enc
                               else set_prop (diff_codes enc) line c)\<rparr>))"

section \<open>EncodeContext\<close>

type_synonym marks = "int \<Rightarrow> bool option"

text \<open>
  \<open>_codes\<close> is a plain object filled at the keys \<open>0 .. n-1\<close>: a list. \<open>_modified\<close>
  is a plain object keyed by position whose entries are unset until written.
  The \<open>encoder\<close> field is the one Encoder shared by both sides of a call.
\<close>

record encode_context =
  ctx_encoder :: encoder
  ctx_codes :: "code list"
  ctx_modified :: marks

text \<open>\<open>obj[i]\<close> on \<open>_codes\<close>: \<open>undefined\<close> outside \<open>0 .. n-1\<close>.\<close>

definition at_index :: "'c list \<Rightarrow> int \<Rightarrow> 'c option" where
  "at_index cs i = (if 0 \<le> i \<and> i < int (length cs) then Some (cs ! nat i) else None)"

definition ctx_length :: "encode_context \<Rightarrow> int" where
  "ctx_length ctx = int (length (ctx_codes ctx))"

text \<open>\<open>line.replace(/\s+/g, '')\<close>: every white space character is removed.\<close>

definition js_space :: "char \<Rightarrow> bool" where
  "js_space c = (c \<in> {CHR 0x09, CHR 0x0A, CHR 0x0B, CHR 0x0C, CHR 0x0D, CHR 0x20, CHR 0xA0})"

definition strip_whitespace :: "string \<Rightarrow> string" where
  "strip_whitespace line = filter (\<lambda>c. \<not> js_space c) line"

record settings =
  compare :: string
  ignoreWhitespace :: bool
  splitLinesRegex :: string
  splitWordsRegex :: string
  splitCharsRegex :: string

text \<open>
  The token as it is looked up and interned. A piece of a split is \<open>undefined\<close> where
  a capture group of the pattern took no part in the match. With \<open>ignoreWhitespace\<close>
  the call \<open>line.replace\<close> on such a piece throws a \<open>TypeError\<close>; without it the piece
  is used as a property name, which is the string \<open>undefined\<close>.
\<close>

definition interned_form :: "settings \<Rightarrow> string option \<Rightarrow> error + string" where
  "interned_form s l =
    (if ignoreWhitespace s then
       (case l of None \<Rightarrow> Inl TypeError | Some t \<Rightarrow> Inr (strip_whitespace t))
     else Inr (case l of None \<Rightarrow> ''undefined'' | Some t \<Rightarrow> t))"

text \<open>The loop of \<open>_init\<close>: the codes are appended in order of position.\<close>

fun init_loop ::
  "settings \<Rightarrow> encoder \<Rightarrow> code list \<Rightarrow> string option list \<Rightarrow> error + encoder \<times> code list" where
  "init_loop s enc cs [] = Inr (enc, cs)"
| "init_loop s enc cs (l # ls) =
    (case interned_form s l of
       Inl e \<Rightarrow> Inl e
     | Inr line \<Rightarrow>
         (case getCode enc line of
            Some aCode \<Rightarrow> init_loop s enc (cs @ [aCode]) ls
          | None \<Rightarrow> (let (c, enc') = newCode enc line
                     in init_loop s enc' (cs @ [Num c]) ls)))"

definition init ::
  "encoder \<Rightarrow> string option list \<Rightarrow> settings \<Rightarrow> error + encoder \<times> encode_context" where
  "init enc lines s =
    (case init_loop s enc [] lines of
       Inl e \<Rightarrow> Inl e
     | Inr (enc', cs) \<Rightarrow>
         Inr (enc', \<lparr>ctx_encoder = enc', ctx_codes = cs, ctx_modified = (\<lambda>_. None)\<rparr>))"

text \<open>
  The constructor. \<open>new RegExp(pattern, "g")\<close> and \<open>text.split(re)\<close> belong to the
  JavaScript runtime: \<open>split_re pattern text\<close> stands for them. It is \<open>None\<close> when the
  pattern does not compile, where \<open>new RegExp\<close> throws a \<open>SyntaxError\<close>, and the list
  of the pieces otherwise, of which some may be \<open>undefined\<close>. \<open>split_text\<close> is the
  value of \<open>lines\<close> that the constructor hands to \<open>_init\<close>: \<open>null\<close> and the empty
  string are falsy and give no line, and no pattern is compiled for them.
\<close>

type_synonym regexp_split = "string \<Rightarrow> string \<Rightarrow> string option list option"

definition split_text :: "regexp_split \<Rightarrow> jsval \<Rightarrow> settings \<Rightarrow> error + string option list" where
  "split_text split_re text s =
    (case text of
       JString t \<Rightarrow>
         if t \<noteq> [] then
           (case (if compare s = ''chars'' then split_re (splitCharsRegex s) t
                  else if compare s = ''words'' then split_re (splitWordsRegex s) t
                  else split_re (splitLinesRegex s) t) of
              None \<Rightarrow> Inl SyntaxError
            | Some lines \<Rightarrow> Inr lines)
         else Inr []
     | _ \<Rightarrow> Inr [])"

definition new_EncodeContext ::
  "regexp_split \<Rightarrow> encoder \<Rightarrow> jsval \<Rightarrow> settings \<Rightarrow> error + encoder \<times> encode_context" where
  "new_EncodeContext split_re enc text s =
    (case split_text split_re text s of
       Inl e \<Rightarrow> Inl e
     | Inr lines \<Rightarrow> init enc lines s)"

definition encode ::
  "regexp_split \<Rightarrow> encoder \<Rightarrow> jsval \<Rightarrow> settings \<Rightarrow> error + encoder \<times> encode_context" where
  "encode split_re enc text s = new_EncodeContext split_re enc text s"

text \<open>
  \<open>getLine\<close>: the first own key of the encoder's table whose value is the code at
  position \<open>n\<close>; \<open>undefined\<close> when there is none.
\<close>

definition getLine :: "encode_context \<Rightarrow> int \<Rightarrow> string option" where
  "getLine ctx n =
    (case at_index (ctx_codes ctx) n of
       None \<Rightarrow> None
     | Some ckey \<Rightarrow>
         map_option fst (find (\<lambda>(key, c). Num c = ckey) (getCodes (ctx_encoder ctx))))"

section \<open>Myers.compare_lcs\<close>

record change =
  lhs_at :: int
  lhs_del :: int
  rhs_at :: int
  rhs_add :: int

text \<open>\<open>modified[i]\<close> as a condition: unset and \<open>false\<close> are falsy.\<close>

definition truthy :: "bool option \<Rightarrow> bool" where
  "truthy m = (m = Some True)"

function skip_lhs :: "marks \<Rightarrow> int \<Rightarrow> int \<Rightarrow> int \<Rightarrow> int \<Rightarrow> int" where
  "skip_lhs lhs_modified lhs_codes_length rhs_codes_length rhs_line lhs_line =
    (if lhs_line < lhs_codes_length \<and>
        (rhs_line \<ge> rhs_codes_length \<or> truthy (lhs_modified lhs_line))
     then skip_lhs lhs_modified lhs_codes_length rhs_codes_length rhs_line (lhs_line + 1)
     else lhs_line)"
  by pat_completeness auto
termination
  by (relation "measure (\<lambda>(m, ll, rl, r, l). nat (ll - l))") auto

declare skip_lhs.simps [simp del]

function skip_rhs :: "marks \<Rightarrow> int \<Rightarrow> int \<Rightarrow> int \<Rightarrow> int \<Rightarrow> int" where
  "skip_rhs rhs_modified lhs_codes_length rhs_codes_length lhs_line rhs_line =
    (if rhs_line < rhs_codes_length \<and>
        (lhs_line \<ge> lhs_codes_length \<or> truthy (rhs_modified rhs_line))
     then skip_rhs rhs_modified lhs_codes_length rhs_codes_length lhs_line (rhs_line + 1)
     else rhs_line)"
  by pat_completeness auto
termination
  by (relation "measure (\<lambda>(m, ll, rl, l, r). nat (rl - r))") auto

declare skip_rhs.simps [simp del]

definition make_item :: "int \<Rightarrow> int \<Rightarrow> int \<Rightarrow> int \<Rightarrow> int \<Rightarrow> int \<Rightarrow> change" where
  "make_item lhs_codes_length rhs_codes_length lhs_start rhs_start lhs_line rhs_line =
    \<lparr>lhs_at = min lhs_start (if lhs_codes_length \<noteq> 0 then lhs_codes_length - 1 else 0),
     lhs_del = lhs_line - lhs_start,
     rhs_at = min rhs_start (if rhs_codes_length \<noteq> 0 then rhs_codes_length - 1 else 0),
     rhs_add = rhs_line - rhs_start\<rparr>"

lemma skip_lhs_ge: "lhs_line \<le> skip_lhs m ll rl r lhs_line"
  by (induction m ll rl r lhs_line rule: skip_lhs.induct)
     (subst skip_lhs.simps, auto)

lemma skip_rhs_ge: "rhs_line \<le> skip_rhs m ll rl l rhs_line"
  by (induction m ll rl l rhs_line rule: skip_rhs.induct)
     (subst skip_rhs.simps, auto)

lemma skip_lhs_le: "skip_lhs m ll rl r lhs_line \<le> max lhs_line ll"
  by (induction m ll rl r lhs_line rule: skip_lhs.induct)
     (subst skip_lhs.simps, auto)

lemma skip_rhs_le: "skip_rhs m ll rl l rhs_line \<le> max rhs_line rl"
  by (induction m ll rl l rhs_line rule: skip_rhs.induct)
     (subst skip_rhs.simps, auto)

text \<open>
  The outer loop, from the current \<open>lhs_line\<close> and \<open>rhs_line\<close>; the result is the list
  of the items handed to the callback, in order. The code arrays are passed to
  \<open>compare_lcs\<close> and never read by it. When neither inner loop advances, the source
  goes round the outer loop again in the same state; \<open>compare_loop_progress\<close> below
  shows that one of them always advances, so that last branch is never taken.
\<close>

function compare_loop :: "marks \<Rightarrow> int \<Rightarrow> marks \<Rightarrow> int \<Rightarrow> int \<Rightarrow> int \<Rightarrow> change list" where
  "compare_loop lhs_modified lhs_codes_length rhs_modified rhs_codes_length lhs_line rhs_line =
    (if lhs_line < lhs_codes_length \<or> rhs_line < rhs_codes_length then
       (if lhs_line < lhs_codes_length \<and> \<not> truthy (lhs_modified lhs_line) \<and>
           rhs_line < rhs_codes_length \<and> \<not> truthy (rhs_modified rhs_line)
        then compare_loop lhs_modified lhs_codes_length rhs_modified rhs_codes_length
               (lhs_line + 1) (rhs_line + 1)
        else
          (let lhs_start = lhs_line;
               rhs_start = rhs_line;
               lhs_line' = skip_lhs lhs_modified lhs_codes_length rhs_codes_length rhs_line lhs_line;
               rhs_line' = skip_rhs rhs_modified lhs_codes_length rhs_codes_length lhs_line' rhs_line
           in if lhs_start < lhs_line' \<or> rhs_start < rhs_line'
              then make_item lhs_codes_length rhs_codes_length lhs_start rhs_start lhs_line' rhs_line'
                   # compare_loop lhs_modified lhs_codes_length rhs_modified rhs_codes_length
                       lhs_line' rhs_line'
              else []))
     else [])"
  by pat_completeness auto
termination
proof (relation "measure (\<lambda>(lm, ll, rm, rl, l, r). nat (ll - l) + nat (rl - r))", goal_cases)
  case 1
  show ?case by simp
next
  case (2 lm ll rm rl l r)
  then show ?case by auto
next
  case (3 lm ll rm rl l r l0 r0 l' r')
  have "l \<le> l'" "r \<le> r'" "l' \<le> max l ll" "r' \<le> max r rl"
    using 3 skip_lhs_ge skip_rhs_ge skip_lhs_le skip_rhs_le by auto
  moreover have "l < l' \<or> r < r'"
    using 3 by auto
  ultimately show ?case by auto
qed

declare compare_loop.simps [simp del]

definition compare_lcs :: "marks \<Rightarrow> int \<Rightarrow> marks \<Rightarrow> int \<Rightarrow> change list" where
  "compare_lcs lhs_modified lhs_codes_length rhs_modified rhs_codes_length =
    compare_loop lhs_modified lhs_codes_length rhs_modified rhs_codes_length 0 0"

section \<open>Myers.getShortestMiddleSnake\<close>

text \<open>
  \<open>vector_d\<close> and \<open>vector_u\<close> are JavaScript arrays written at computed indices:
  a slot never written reads as \<open>undefined\<close>.
\<close>

type_synonym vec = "int \<Rightarrow> jsnum"

text \<open>The arguments of one call, with the values computed from them before the loops.\<close>

record 'c sms_env =
  lhs_codes :: "'c list"
  rhs_codes :: "'c list"
  lhs_lower :: int
  lhs_upper :: int
  rhs_lower :: int
  rhs_upper :: int
  kdown :: int
  kup :: int
  is_odd :: bool
  offset_down :: int
  offset_up :: int

definition sms_env ::
  "'c list \<Rightarrow> int \<Rightarrow> int \<Rightarrow> int \<Rightarrow> 'c list \<Rightarrow> int \<Rightarrow> int \<Rightarrow> int \<Rightarrow> 'c sms_env" where
  "sms_env a lhs_codes_length ll lu b rhs_codes_length rl ru =
    (let mx = lhs_codes_length + rhs_codes_length + 1;
         delta = (lu - ll) - (ru - rl)
     in \<lparr>lhs_codes = a, rhs_codes = b,
         lhs_lower = ll, lhs_upper = lu, rhs_lower = rl, rhs_upper = ru,
         kdown = ll - rl, kup = lu - ru,
         is_odd = (delta mod 2 \<noteq> 0),
         offset_down = mx - (ll - rl), offset_up = mx - (lu - ru)\<rparr>)"

text \<open>The forward snake: \<open>while (x < lhs_upper && y < rhs_upper && lhs_codes[x] === rhs_codes[y])\<close>.\<close>

function snake_down :: "'c sms_env \<Rightarrow> int \<Rightarrow> int \<Rightarrow> int" where
  "snake_down E x y =
    (if x < lhs_upper E \<and> y < rhs_upper E \<and> at_index (lhs_codes E) x = at_index (rhs_codes E) y
     then snake_down E (x + 1) (y + 1) else x)"
  by pat_completeness auto
termination
  by (relation "measure (\<lambda>(E, x, y). nat (lhs_upper E - x))") auto

declare snake_down.simps [simp del]

text \<open>The backward snake: \<open>while (x > lhs_lower && y > rhs_lower && lhs_codes[x-1] === rhs_codes[y-1])\<close>.\<close>

function snake_up :: "'c sms_env \<Rightarrow> int \<Rightarrow> int \<Rightarrow> int" where
  "snake_up E x y =
    (if x > lhs_lower E \<and> y > rhs_lower E \<and>
        at_index (lhs_codes E) (x - 1) = at_index (rhs_codes E) (y - 1)
     then snake_up E (x - 1) (y - 1) else x)"
  by pat_completeness auto
termination
  by (relation "measure (\<lambda>(E, x, y). nat (x - lhs_lower E))") auto

declare snake_up.simps [simp del]

text \<open>
  One round of the forward loop up to the assignment \<open>vector_d[offset_down + k] = x\<close>.
  With \<open>x\<close> undefined or \<open>NaN\<close> the snake's test is false and \<open>x\<close> is stored as it is.
\<close>

definition down_start :: "'c sms_env \<Rightarrow> vec \<Rightarrow> int \<Rightarrow> int \<Rightarrow> jsnum" where
  "down_start E vector_d d k =
    (if k = kdown E - d then vector_d (offset_down E + k + 1)
     else (let x = js_add (vector_d (offset_down E + k - 1)) 1
           in if k < kdown E + d \<and> js_le x (vector_d (offset_down E + k + 1))
              then vector_d (offset_down E + k + 1) else x))"

definition down_point :: "'c sms_env \<Rightarrow> vec \<Rightarrow> int \<Rightarrow> int \<Rightarrow> jsnum" where
  "down_point E vector_d d k =
    map_option (\<lambda>x. snake_down E x (x - k)) (down_start E vector_d d k)"

text \<open>
  The overlap test \<open>vector_u[offset_up + k] <= vector_d[offset_down + k]\<close>: the
  value of \<open>vector_d\<close> it returns when it holds.
\<close>

definition overlap :: "'c sms_env \<Rightarrow> vec \<Rightarrow> vec \<Rightarrow> int \<Rightarrow> int option" where
  "overlap E vector_u vector_d k =
    (if js_le (vector_u (offset_up E + k)) (vector_d (offset_down E + k))
     then vector_d (offset_down E + k) else None)"

text \<open>
  The forward loop over \<open>k\<close> at distance \<open>d\<close>: the point returned, if any, and
  \<open>vector_d\<close> as it is left.
\<close>

function down_loop :: "'c sms_env \<Rightarrow> vec \<Rightarrow> int \<Rightarrow> int \<Rightarrow> vec \<Rightarrow> (int \<times> int) option \<times> vec" where
  "down_loop E vector_u d k vector_d =
    (if k \<le> kdown E + d then
       (let vector_d' = vector_d(offset_down E + k := down_point E vector_d d k)
        in case (if is_odd E \<and> kup E - d < k \<and> k < kup E + d
                 then overlap E vector_u vector_d' k else None) of
             Some x \<Rightarrow> (Some (x, x - k), vector_d')
           | None \<Rightarrow> down_loop E vector_u d (k + 2) vector_d')
     else (None, vector_d))"
  by pat_completeness auto
termination
  by (relation "measure (\<lambda>(E, vu, d, k, vd). nat (kdown E + d + 2 - k))") auto

declare down_loop.simps [simp del]

definition up_start :: "'c sms_env \<Rightarrow> vec \<Rightarrow> int \<Rightarrow> int \<Rightarrow> jsnum" where
  "up_start E vector_u d k =
    (if k = kup E + d then vector_u (offset_up E + k - 1)
     else (let x = js_add (vector_u (offset_up E + k + 1)) (- 1)
           in if k > kup E - d \<and> js_lt (vector_u (offset_up E + k - 1)) x
              then vector_u (offset_up E + k - 1) else x))"

definition up_point :: "'c sms_env \<Rightarrow> vec \<Rightarrow> int \<Rightarrow> int \<Rightarrow> jsnum" where
  "up_point E vector_u d k =
    map_option (\<lambda>x. snake_up E x (x - k)) (up_start E vector_u d k)"

function up_loop :: "'c sms_env \<Rightarrow> vec \<Rightarrow> int \<Rightarrow> int \<Rightarrow> vec \<Rightarrow> (int \<times> int) option \<times> vec" where
  "up_loop E vector_d d k vector_u =
    (if k \<le> kup E + d then
       (let vector_u' = vector_u(offset_up E + k := up_point E vector_u d k)
        in case (if \<not> is_odd E \<and> kdown E - d \<le> k \<and> k \<le> kdown E + d
                 then overlap E vector_u' vector_d k else None) of
             Some x \<Rightarrow> (Some (x, x - k), vector_u')
           | None \<Rightarrow> up_loop E vector_d d (k + 2) vector_u')
     else (None, vector_u))"
  by pat_completeness auto
termination
  by (relation "measure (\<lambda>(E, vd, d, k, vu). nat (kup E + d + 2 - k))") auto

declare up_loop.simps [simp del]

text \<open>
  The loop over \<open>d\<close>. \<open>maxd\<close> is \<open>(lhs_upper - lhs_lower + rhs_upper - rhs_lower) / 2 + 1\<close>
  in floating point, so \<open>d <= maxd\<close> is \<open>2 * d \<le> span + 2\<close> for the whole number \<open>d\<close>.
  The result is the point and both vectors, or the final \<open>throw\<close>.
\<close>

function sms_loop :: "'c sms_env \<Rightarrow> int \<Rightarrow> vec \<Rightarrow> vec \<Rightarrow> error + ((int \<times> int) \<times> vec \<times> vec)" where
  "sms_loop E d vector_u vector_d =
    (if 2 * d \<le> (lhs_upper E - lhs_lower E + rhs_upper E - rhs_lower E) + 2 then
       (case down_loop E vector_u d (kdown E - d) vector_d of
          (Some ret, vector_d') \<Rightarrow> Inr (ret, vector_u, vector_d')
        | (None, vector_d') \<Rightarrow>
            (case up_loop E vector_d' d (kup E - d) vector_u of
               (Some ret, vector_u') \<Rightarrow> Inr (ret, vector_u', vector_d')
             | (None, vector_u') \<Rightarrow> sms_loop E (d + 1) vector_u' vector_d'))
     else Inl UnexpectedState)"
  by pat_completeness auto
termination
  by (relation "measure (\<lambda>(E, d, vu, vd).
        nat ((lhs_upper E - lhs_lower E + rhs_upper E - rhs_lower E) + 3 - 2 * d))") auto

declare sms_loop.simps [simp del]

text \<open>
  \<open>max\<close> is a sum of two numbers and is never \<open>undefined\<close>, so the first \<open>throw\<close> has no
  branch here.
\<close>

definition getShortestMiddleSnake ::
  "'c list \<Rightarrow> int \<Rightarrow> int \<Rightarrow> int \<Rightarrow> 'c list \<Rightarrow> int \<Rightarrow> int \<Rightarrow> int \<Rightarrow> vec \<Rightarrow> vec
    \<Rightarrow> error + ((int \<times> int) \<times> vec \<times> vec)" where
  "getShortestMiddleSnake a lhs_codes_length ll lu b rhs_codes_length rl ru vector_u vector_d =
    (let E = sms_env a lhs_codes_length ll lu b rhs_codes_length rl ru;
         vector_d1 = vector_d(offset_down E + kdown E + 1 := Some ll);
         vector_u1 = vector_u(offset_up E + kup E - 1 := Some lu)
     in sms_loop E 0 vector_u1 vector_d1)"

section \<open>Myers.getLongestCommonSubsequence\<close>

record lcs_state =
  lhs_modified :: marks
  rhs_modified :: marks
  vector_u :: vec
  vector_d :: vec

function trim_start :: "'c list \<Rightarrow> 'c list \<Rightarrow> int \<Rightarrow> int \<Rightarrow> int \<Rightarrow> int \<Rightarrow> int \<times> int" where
  "trim_start a b lu ru ll rl =
    (if ll < lu \<and> rl < ru \<and> at_index a ll = at_index b rl
     then trim_start a b lu ru (ll + 1) (rl + 1) else (ll, rl))"
  by pat_completeness auto
termination
  by (relation "measure (\<lambda>(a, b, lu, ru, ll, rl). nat (lu - ll))") auto

declare trim_start.simps [simp del]

function trim_end :: "'c list \<Rightarrow> 'c list \<Rightarrow> int \<Rightarrow> int \<Rightarrow> int \<Rightarrow> int \<Rightarrow> int \<times> int" where
  "trim_end a b ll rl lu ru =
    (if ll < lu \<and> rl < ru \<and> at_index a (lu - 1) = at_index b (ru - 1)
     then trim_end a b ll rl (lu - 1) (ru - 1) else (lu, ru))"
  by pat_completeness auto
termination
  by (relation "measure (\<lambda>(a, b, ll, rl, lu, ru). nat (lu - ll))") auto

declare trim_end.simps [simp del]

text \<open>\<open>while (lower < upper) modified[lower++] = true\<close>.\<close>

function mark_range :: "marks \<Rightarrow> int \<Rightarrow> int \<Rightarrow> marks" where
  "mark_range m lower upper =
    (if lower < upper then mark_range (m(lower := Some True)) (lower + 1) upper else m)"
  by pat_completeness auto
termination
  by (relation "measure (\<lambda>(m, lower, upper). nat (upper - lower))") auto

declare mark_range.simps [simp del]

text \<open>
  The recursion has no bound of its own: a call that does not return is \<open>None\<close>.
  An exception of the middle snake search ends the whole computation.
\<close>

partial_function (option) getLongestCommonSubsequence ::
  "lcs_state \<Rightarrow> 'c list \<Rightarrow> int \<Rightarrow> int \<Rightarrow> int \<Rightarrow> 'c list \<Rightarrow> int \<Rightarrow> int \<Rightarrow> int
    \<Rightarrow> (error + lcs_state) option" where
  "getLongestCommonSubsequence st a lhs_codes_length ll0 lu0 b rhs_codes_length rl0 ru0 =
    (case trim_start a b lu0 ru0 ll0 rl0 of (ll, rl) \<Rightarrow>
     case trim_end a b ll rl lu0 ru0 of (lu, ru) \<Rightarrow>
       if ll = lu then Some (Inr (st\<lparr>rhs_modified := mark_range (rhs_modified st) rl ru\<rparr>))
       else if rl = ru then Some (Inr (st\<lparr>lhs_modified := mark_range (lhs_modified st) ll lu\<rparr>))
       else
         (case getShortestMiddleSnake a lhs_codes_length ll lu b rhs_codes_length rl ru
                 (vector_u st) (vector_d st) of
            Inl e \<Rightarrow> Some (Inl e)
          | Inr ((x, y), vu, vd) \<Rightarrow>
              Option.bind
                (getLongestCommonSubsequence (st\<lparr>vector_u := vu, vector_d := vd\<rparr>)
                   a lhs_codes_length ll x b rhs_codes_length rl y)
                (\<lambda>r. case r of
                        Inl e \<Rightarrow> Some (Inl e)
                      | Inr st1 \<Rightarrow>
                          getLongestCommonSubsequence st1
                            a lhs_codes_length x lu b rhs_codes_length y ru)))"

declare getLongestCommonSubsequence.simps [code]

definition LCS ::
  "marks \<Rightarrow> 'c list \<Rightarrow> int \<Rightarrow> marks \<Rightarrow> 'c list \<Rightarrow> int \<Rightarrow> (error + lcs_state) option" where
  "LCS lhsModified lhsCodes lhsLength rhsModified rhsCodes rhsLength =
    getLongestCommonSubsequence
      \<lparr>lhs_modified = lhsModified, rhs_modified = rhsModified,
       vector_u = (\<lambda>_. None), vector_d = (\<lambda>_. None)\<rparr>
      lhsCodes lhsLength 0 lhsLength rhsCodes rhsLength 0 rhsLength"

section \<open>Myers.optimize\<close>

text \<open>
  \<open>ctx._codes\<close> is the plain object that \<open>_init\<close> creates as \<open>{}\<close> and writes at the
  positions only. It has no property \<open>length\<close> (the context's getter \<open>length\<close> counts
  its keys instead) and \<open>Object.prototype\<close> has none: \<open>ctx._codes.length\<close> is
  \<open>undefined\<close>.
\<close>

definition codes_length_property :: "'c list \<Rightarrow> jsnum" where
  "codes_length_property cs = None"

function skip_unmodified :: "jsnum \<Rightarrow> marks \<Rightarrow> int \<Rightarrow> int" where
  "skip_unmodified len m start =
    (if js_lt (Some start) len \<and> (m start = None \<or> m start = Some False)
     then skip_unmodified len m (start + 1) else start)"
  by pat_completeness auto
termination
  by (relation "measure (\<lambda>(len, m, start). case len of None \<Rightarrow> 0 | Some n \<Rightarrow> nat (n - start))")
     (auto simp: js_lt_def split: option.splits)

declare skip_unmodified.simps [simp del]

function skip_modified :: "jsnum \<Rightarrow> marks \<Rightarrow> int \<Rightarrow> int" where
  "skip_modified len m end =
    (if js_lt (Some end) len \<and> m end = Some True
     then skip_modified len m (end + 1) else end)"
  by pat_completeness auto
termination
  by (relation "measure (\<lambda>(len, m, e). case len of None \<Rightarrow> 0 | Some n \<Rightarrow> nat (n - e))")
     (auto simp: js_lt_def split: option.splits)

declare skip_modified.simps [simp del]

lemma skip_unmodified_ge: "start \<le> skip_unmodified len m start"
  by (induction len m start rule: skip_unmodified.induct)
     (subst skip_unmodified.simps, auto)

lemma skip_unmodified_stop:
  "js_lt (Some (skip_unmodified len m start)) len \<Longrightarrow>
   m (skip_unmodified len m start) = Some True"
proof (induction len m start rule: skip_unmodified.induct)
  case (1 len m start)
  show ?case
  proof (cases "js_lt (Some start) len \<and> (m start = None \<or> m start = Some False)")
    case True
    then have eq: "skip_unmodified len m start = skip_unmodified len m (start + 1)"
      by (subst skip_unmodified.simps) auto
    show ?thesis
      using 1 True unfolding eq by blast
  next
    case False
    then have eq: "skip_unmodified len m start = start"
      by (subst skip_unmodified.simps) auto
    from 1(2) have "js_lt (Some start) len" unfolding eq .
    with False have "m start \<noteq> None" "m start \<noteq> Some False" by auto
    then show ?thesis unfolding eq by (cases "m start") auto
  qed
qed

lemma skip_modified_ge: "e \<le> skip_modified len m e"
  by (induction len m e rule: skip_modified.induct)
     (subst skip_modified.simps, auto)

lemma skip_modified_gt:
  "js_lt (Some e) len \<Longrightarrow> m e = Some True \<Longrightarrow> e < skip_modified len m e"
  using skip_modified_ge [of "e + 1" len m]
  by (subst skip_modified.simps) auto

function optimize_loop :: "jsnum \<Rightarrow> 'c list \<Rightarrow> marks \<Rightarrow> int \<Rightarrow> marks" where
  "optimize_loop len cs m start =
    (if js_lt (Some start) len then
       (let start' = skip_unmodified len m start;
            end = skip_modified len m start'
        in if js_lt (Some end) len \<and> at_index cs start' = at_index cs end
           then optimize_loop len cs (m(start' := Some False, end := Some True)) start'
           else optimize_loop len cs m end)
     else m)"
  by pat_completeness auto
termination
proof (relation "measures
    [\<lambda>(len, cs, m, start). case len of None \<Rightarrow> 0 | Some n \<Rightarrow> nat (n - start),
     \<lambda>(len, cs, m, start). if m start = Some True then 1 else 0]", goal_cases)
  case 1
  show ?case by simp
next
  case (2 len cs m start s e)
  obtain n where n: "len = Some n" "start < n"
    using 2(1) by (auto simp: js_lt_def split: option.splits)
  have ge: "start \<le> s" using 2(2) skip_unmodified_ge by simp
  have "e < n" using 2(4) n by (auto simp: js_lt_def)
  have "s \<le> e" using 2(3) skip_modified_ge by simp
  have "s < n" using \<open>s \<le> e\<close> \<open>e < n\<close> by simp
  then have ms: "m s = Some True"
    using skip_unmodified_stop [of len m start] 2(2) n by (simp add: js_lt_def)
  then have "s < e"
    using skip_modified_gt [of s len m] 2(3) n \<open>s < n\<close> by (simp add: js_lt_def)
  show ?case
  proof (cases "start = s")
    case True
    with ms \<open>s < e\<close> n show ?thesis by simp
  next
    case False
    with ge n \<open>s < n\<close> show ?thesis by simp
  qed
next
  case (3 len cs m start s e)
  obtain n where n: "len = Some n" "start < n"
    using 3(1) by (auto simp: js_lt_def split: option.splits)
  have ge: "start \<le> s" using 3(2) skip_unmodified_ge by simp
  have se: "s \<le> e" using 3(3) skip_modified_ge by simp
  have "start < e"
  proof (cases "start = s")
    case True
    then have "m s = Some True"
      using skip_unmodified_stop [of len m start] 3(2) n by (simp add: js_lt_def)
    then show ?thesis
      using skip_modified_gt [of s len m] 3(3) n True by (simp add: js_lt_def)
  next
    case False
    with ge se show ?thesis by simp
  qed
  with n show ?case by simp
qed

declare optimize_loop.simps [simp del]

definition optimize :: "encode_context \<Rightarrow> encode_context" where
  "optimize ctx =
    ctx\<lparr>ctx_modified :=
          optimize_loop (codes_length_property (ctx_codes ctx)) (ctx_codes ctx) (ctx_modified ctx) 0\<rparr>"

section \<open>Myers.diff\<close>

text \<open>
  The options object: a property that is absent is \<open>None\<close>. \<open>Object.assign\<close> copies the
  properties that are present over the default settings and ignores a missing or
  \<open>null\<close> options object.
\<close>

record options =
  opt_compare :: "string option"
  opt_ignoreWhitespace :: "bool option"
  opt_splitLinesRegex :: "string option"
  opt_splitWordsRegex :: "string option"
  opt_splitCharsRegex :: "string option"

definition getDefaultSettings :: settings where
  "getDefaultSettings =
    \<lparr>compare = ''lines'', ignoreWhitespace = False,
     splitLinesRegex = [CHR 0x0A], splitWordsRegex = ''[ ]{1}'', splitCharsRegex = []\<rparr>"

definition assign :: "settings \<Rightarrow> options option \<Rightarrow> settings" where
  "assign s opts =
    (case opts of
       None \<Rightarrow> s
     | Some o' \<Rightarrow>
         \<lparr>compare = (case opt_compare o' of Some v \<Rightarrow> v | None \<Rightarrow> compare s),
          ignoreWhitespace =
            (case opt_ignoreWhitespace o' of Some v \<Rightarrow> v | None \<Rightarrow> ignoreWhitespace s),
          splitLinesRegex =
            (case opt_splitLinesRegex o' of Some v \<Rightarrow> v | None \<Rightarrow> splitLinesRegex s),
          splitWordsRegex =
            (case opt_splitWordsRegex o' of Some v \<Rightarrow> v | None \<Rightarrow> splitWordsRegex s),
          splitCharsRegex =
            (case opt_splitCharsRegex o' of Some v \<Rightarrow> v | None \<Rightarrow> splitCharsRegex s)\<rparr>)"

text \<open>An item as \<open>diff\<close> returns it: the callback adds both contexts to the change.\<close>

record item = change +
  lhs_ctx :: encode_context
  rhs_ctx :: encode_context

definition add_context :: "encode_context \<Rightarrow> encode_context \<Rightarrow> change \<Rightarrow> item" where
  "add_context lhsCtx rhsCtx c =
    \<lparr>lhs_at = lhs_at c, lhs_del = lhs_del c, rhs_at = rhs_at c, rhs_add = rhs_add c,
     lhs_ctx = lhsCtx, rhs_ctx = rhsCtx\<rparr>"

text \<open>
  Both contexts hold the same Encoder object, so the left context sees the table as
  the right side's encoding left it; the items hold the contexts as \<open>LCS\<close> and
  \<open>optimize\<close> left them. An exception of either constructor ends the call.
\<close>

definition diff ::
  "regexp_split \<Rightarrow> jsval \<Rightarrow> jsval \<Rightarrow> options option \<Rightarrow> (error + item list) option" where
  "diff split_re lhs rhs opts =
    (if lhs = JUndefined then Some (Inl (IllegalArgument (''illegal argument '' @ [CHR 0x27] @ ''lhs'' @ [CHR 0x27])))
     else if rhs = JUndefined then Some (Inl (IllegalArgument (''illegal argument '' @ [CHR 0x27] @ ''rhs'' @ [CHR 0x27])))
     else
       (let settings = assign getDefaultSettings opts
        in case encode split_re new_Encoder lhs settings of
             Inl e \<Rightarrow> Some (Inl e)
           | Inr (enc1, lhsCtx0) \<Rightarrow>
        (case encode split_re enc1 rhs settings of
             Inl e \<Rightarrow> Some (Inl e)
           | Inr (enc2, rhsCtx0) \<Rightarrow>
        (case LCS (ctx_modified lhsCtx0) (ctx_codes lhsCtx0) (ctx_length lhsCtx0)
                  (ctx_modified rhsCtx0) (ctx_codes rhsCtx0) (ctx_length rhsCtx0) of
             None \<Rightarrow> None
           | Some (Inl e) \<Rightarrow> Some (Inl e)
           | Some (Inr st) \<Rightarrow>
               (let lhsCtx = optimize (lhsCtx0\<lparr>ctx_encoder := enc2, ctx_modified := lhs_modified st\<rparr>);
                    rhsCtx = optimize (rhsCtx0\<lparr>ctx_modified := rhs_modified st\<rparr>)
                in Some (Inr (map (add_context lhsCtx rhsCtx)
                     (compare_lcs (ctx_modified lhsCtx) (ctx_length lhsCtx)
                                  (ctx_modified rhsCtx) (ctx_length rhsCtx)))))))))"

section \<open>The default split patterns\<close>

text \<open>
  \<open>text.split(re)\<close> for a pattern that matches exactly one given character: the
  pieces between the matches, empty pieces included.
\<close>

fun split_at :: "char \<Rightarrow> string \<Rightarrow> string list" where
  "split_at c [] = [[]]"
| "split_at c (x # xs) =
    (if x = c then [] # split_at c xs
     else (case split_at c xs of t # ts \<Rightarrow> (x # t) # ts | [] \<Rightarrow> [[x]]))"

text \<open>
  The split for the three default patterns of \<open>_getDefaultSettings\<close>: a line feed, one
  space, and the empty pattern, which cuts a non-empty text into its characters; none
  of them has a capture group, so every piece is a string. The pattern \<open>(\<close>, a group
  that is not closed, does not compile. Other patterns are not interpreted: the text
  stays in one piece.
\<close>

definition split_default :: regexp_split where
  "split_default pattern text =
    (if pattern = ''('' then None
     else Some (map Some
       (if pattern = [CHR 0x0A] then split_at (CHR 0x0A) text
        else if pattern = ''[ ]{1}'' then split_at (CHR '' '') text
        else if pattern = [] then map (\<lambda>c. [c]) text
        else [text])))"

section \<open>Properties of the encoder\<close>

text \<open>
  The loop of \<open>_init\<close> where no line makes it throw, that is, on lines that are
  strings or, without \<open>ignoreWhitespace\<close>, stand for the string \<open>undefined\<close>
  (\<open>init_loop_intern\<close> below): \<open>interned_key\<close> is the property name of such a line,
  \<open>intern_loop\<close> the loop and \<open>intern_init\<close> the context it leaves.
\<close>

definition interned_key :: "settings \<Rightarrow> string \<Rightarrow> string" where
  "interned_key s l = (if ignoreWhitespace s then strip_whitespace l else l)"

fun intern_loop :: "settings \<Rightarrow> encoder \<Rightarrow> code list \<Rightarrow> string list \<Rightarrow> encoder \<times> code list" where
  "intern_loop s enc cs [] = (enc, cs)"
| "intern_loop s enc cs (l # ls) =
    (let line = interned_key s l
     in case getCode enc line of
          Some aCode \<Rightarrow> intern_loop s enc (cs @ [aCode]) ls
        | None \<Rightarrow> (let (c, enc') = newCode enc line
                   in intern_loop s enc' (cs @ [Num c]) ls))"

definition intern_init :: "encoder \<Rightarrow> string list \<Rightarrow> settings \<Rightarrow> encoder \<times> encode_context" where
  "intern_init enc lines s =
    (let (enc', cs) = intern_loop s enc [] lines
     in (enc', \<lparr>ctx_encoder = enc', ctx_codes = cs, ctx_modified = (\<lambda>_. None)\<rparr>))"

text \<open>The text of a piece as a property name, and the lists of pieces on which \<open>_init\<close> does not throw.\<close>

definition line_text :: "string option \<Rightarrow> string" where
  "line_text l = (case l of None \<Rightarrow> ''undefined'' | Some t \<Rightarrow> t)"

definition lines_ok :: "settings \<Rightarrow> string option list \<Rightarrow> bool" where
  "lines_ok s ls = (\<not> ignoreWhitespace s \<or> None \<notin> set ls)"

text \<open>
  The table of an Encoder in use: keys are distinct, none is the name of an inherited
  member, and the values are \<open>1 .. code\<close> in the order of insertion.
\<close>

definition enc_ok :: "encoder \<Rightarrow> bool" where
  "enc_ok enc =
    (distinct (map fst (diff_codes enc)) \<and>
     set (map fst (diff_codes enc)) \<inter> set Object_prototype = {} \<and>
     map snd (diff_codes enc) = [1 .. code enc] \<and> 0 \<le> code enc)"

lemma enc_ok_new: "enc_ok new_Encoder"
  by (simp add: enc_ok_def new_Encoder_def)

lemma set_prop_fresh: "key \<notin> fst ` set al \<Longrightarrow> set_prop al key v = al @ [(key, v)]"
  by (induction al) auto

lemma getCode_None_iff:
  "getCode enc line = None \<longleftrightarrow>
   line \<notin> fst ` set (diff_codes enc) \<and> line \<notin> set Object_prototype"
proof (cases "map_of (diff_codes enc) line")
  case None
  then have "line \<notin> fst ` set (diff_codes enc)"
    by (simp add: map_of_eq_None_iff)
  with None show ?thesis by (simp add: getCode_def)
next
  case (Some c)
  then have "line \<in> fst ` set (diff_codes enc)"
    by (metis map_of_eq_None_iff option.distinct(1))
  with Some show ?thesis by (simp add: getCode_def)
qed

lemma proto_in: "''__proto__'' \<in> set Object_prototype"
  by (simp add: Object_prototype_def)

lemma newCode_fresh:
  assumes "getCode enc line = None"
  shows "newCode enc line =
    (code enc + 1, enc\<lparr>code := code enc + 1, diff_codes := diff_codes enc @ [(line, code enc + 1)]\<rparr>)"
proof -
  from assms have a: "line \<notin> fst ` set (diff_codes enc)" and b: "line \<notin> set Object_prototype"
    by (simp_all add: getCode_None_iff)
  from b proto_in have "line \<noteq> ''__proto__''" by metis
  with a show ?thesis
    by (simp add: newCode_def Let_def set_prop_fresh)
qed

lemma upto_snoc: "(0::int) \<le> n \<Longrightarrow> [1 .. n + 1] = [1 .. n] @ [n + 1]"
  using upto_rec2 [of 1 "n + 1"] by simp

lemma enc_ok_newCode:
  assumes "enc_ok enc" "getCode enc line = None"
  shows "enc_ok (snd (newCode enc line))"
proof -
  from assms(2) have a: "line \<notin> fst ` set (diff_codes enc)" and b: "line \<notin> set Object_prototype"
    by (simp_all add: getCode_None_iff)
  with assms(1) show ?thesis
    by (simp add: newCode_fresh [OF assms(2)] enc_ok_def upto_snoc)
qed

lemma getCode_extend:
  assumes "enc_ok enc'" "diff_codes enc' = diff_codes enc @ ext" "getCode enc k = Some c"
  shows "getCode enc' k = Some c"
proof (cases "map_of (diff_codes enc) k")
  case None
  with assms(3) have k: "k \<in> set Object_prototype" "c = Inherited k"
    by (auto simp: getCode_def split: if_splits)
  with assms(1) have "k \<notin> fst ` set (diff_codes enc')"
    by (auto simp: enc_ok_def)
  then have "map_of (diff_codes enc') k = None"
    by (simp add: map_of_eq_None_iff)
  with k show ?thesis by (simp add: getCode_def)
next
  case (Some v)
  then have "map_of (diff_codes enc') k = Some v"
    by (simp add: assms(2) map_add_def)
  with Some assms(3) show ?thesis by (simp add: getCode_def)
qed

lemma intern_loop_Cons:
  "intern_loop s enc cs (l # ls) =
    (case getCode enc (interned_key s l) of
       Some a \<Rightarrow> intern_loop s enc (cs @ [a]) ls
     | None \<Rightarrow> intern_loop s (snd (newCode enc (interned_key s l)))
                 (cs @ [Num (fst (newCode enc (interned_key s l)))]) ls)"
  by (simp add: Let_def case_prod_beta split: option.splits)

declare intern_loop.simps(2) [simp del]

lemma intern_loop_acc:
  "intern_loop s enc acc ls = (fst (intern_loop s enc [] ls), acc @ snd (intern_loop s enc [] ls))"
proof (induction ls arbitrary: enc acc)
  case Nil
  show ?case by simp
next
  case (Cons l ls)
  show ?case
  proof (cases "getCode enc (interned_key s l)")
    case None
    then show ?thesis
      using Cons [of "snd (newCode enc (interned_key s l))" "acc @ [Num (fst (newCode enc (interned_key s l)))]"]
            Cons [of "snd (newCode enc (interned_key s l))" "[Num (fst (newCode enc (interned_key s l)))]"]
      by (simp add: intern_loop_Cons)
  next
    case (Some a)
    then show ?thesis
      using Cons [of enc "acc @ [a]"] Cons [of enc "[a]"] by (simp add: intern_loop_Cons)
  qed
qed

text \<open>The code that a table gives a token.\<close>

definition code_of :: "encoder \<Rightarrow> settings \<Rightarrow> string \<Rightarrow> code" where
  "code_of enc s l = the (getCode enc (interned_key s l))"

lemma intern_loop_spec:
  assumes "enc_ok enc" "intern_loop s enc [] ls = (enc', cs)"
  shows "enc_ok enc' \<and> (\<exists>ext. diff_codes enc' = diff_codes enc @ ext) \<and>
         cs = map (code_of enc' s) ls \<and> (\<forall>l \<in> set ls. getCode enc' (interned_key s l) \<noteq> None)"
  using assms
proof (induction ls arbitrary: enc enc' cs)
  case Nil
  then show ?case by simp
next
  case (Cons l ls)
  let ?t = "interned_key s l"
  show ?case
  proof (cases "getCode enc ?t")
    case None
    let ?e1 = "snd (newCode enc ?t)"
    let ?c = "code enc + 1"
    have e1: "newCode enc ?t = (?c, ?e1)" "diff_codes ?e1 = diff_codes enc @ [(?t, ?c)]"
      by (simp_all add: newCode_fresh [OF None])
    have ok1: "enc_ok ?e1" using Cons.prems(1) None by (rule enc_ok_newCode)
    obtain cs' where r: "intern_loop s ?e1 [] ls = (enc', cs')" and cs: "cs = Num ?c # cs'"
      using Cons.prems(2) None e1(1) intern_loop_acc [of s ?e1 "[Num ?c]" ls]
      by (cases "intern_loop s ?e1 [] ls") (simp add: intern_loop_Cons newCode_fresh [OF None])
    from Cons.IH [OF ok1 r] obtain ext where
      ih: "enc_ok enc'" "diff_codes enc' = diff_codes ?e1 @ ext" "cs' = map (code_of enc' s) ls"
          "\<forall>l \<in> set ls. getCode enc' (interned_key s l) \<noteq> None"
      by blast
    have t_own: "?t \<notin> set Object_prototype" "map_of (diff_codes enc) ?t = None"
      using None by (auto simp: getCode_def split: option.splits if_splits)
    have "getCode ?e1 ?t = Some (Num ?c)"
      using t_own by (simp add: getCode_def e1(2) map_add_def)
    then have g: "getCode enc' ?t = Some (Num ?c)"
      using getCode_extend [OF ih(1) ih(2)] by simp
    have "diff_codes enc' = diff_codes enc @ ((?t, ?c) # ext)"
      using ih(2) e1(2) by simp
    with ih g cs show ?thesis
      by (auto simp: code_of_def)
  next
    case (Some a)
    obtain cs' where r: "intern_loop s enc [] ls = (enc', cs')" and cs: "cs = a # cs'"
      using Cons.prems(2) Some intern_loop_acc [of s enc "[a]" ls]
      by (cases "intern_loop s enc [] ls") (simp add: intern_loop_Cons)
    from Cons.IH [OF Cons.prems(1) r] obtain ext where
      ih: "enc_ok enc'" "diff_codes enc' = diff_codes enc @ ext" "cs' = map (code_of enc' s) ls"
          "\<forall>l \<in> set ls. getCode enc' (interned_key s l) \<noteq> None"
      by blast
    have g: "getCode enc' ?t = Some a"
      using getCode_extend [OF ih(1) ih(2) Some] .
    with ih cs show ?thesis
      by (auto simp: code_of_def)
  qed
qed

lemma intern_loop_known:
  "\<forall>l \<in> set ls. getCode enc (interned_key s l) \<noteq> None \<Longrightarrow>
   intern_loop s enc acc ls = (enc, acc @ map (code_of enc s) ls)"
  by (induction ls arbitrary: acc) (auto simp: code_of_def intern_loop_Cons)

lemma interned_form_ok:
  "lines_ok s (l # ls) \<Longrightarrow> interned_form s l = Inr (interned_key s (line_text l))"
  by (auto simp: lines_ok_def interned_form_def interned_key_def line_text_def split: option.splits)

lemma init_loop_intern:
  "lines_ok s ls \<Longrightarrow> init_loop s enc cs ls = Inr (intern_loop s enc cs (map line_text ls))"
proof (induction ls arbitrary: enc cs)
  case Nil
  show ?case by simp
next
  case (Cons l ls)
  from Cons.prems have ok: "lines_ok s ls" by (auto simp: lines_ok_def)
  note ih = Cons.IH [OF ok]
  show ?case
    by (cases "getCode enc (interned_key s (line_text l))")
       (simp_all add: interned_form_ok [OF Cons.prems] intern_loop_Cons ih case_prod_beta Let_def)
qed

lemma init_loop_TypeError:
  "\<not> lines_ok s ls \<Longrightarrow> init_loop s enc cs ls = Inl TypeError"
proof (induction ls arbitrary: enc cs)
  case Nil
  then show ?case by (simp add: lines_ok_def)
next
  case (Cons l ls)
  from Cons.prems have w: "ignoreWhitespace s" by (simp add: lines_ok_def)
  show ?case
  proof (cases l)
    case None
    with w show ?thesis by (simp add: interned_form_def)
  next
    case (Some t)
    with Cons.prems have "\<not> lines_ok s ls" by (simp add: lines_ok_def)
    note ih = Cons.IH [OF this]
    show ?thesis
      by (cases "getCode enc (strip_whitespace t)")
         (simp_all add: Some w interned_form_def ih case_prod_beta Let_def)
  qed
qed

lemma init_intern:
  "lines_ok s ls \<Longrightarrow> init enc ls s = Inr (intern_init enc (map line_text ls) s)"
  by (simp add: init_def intern_init_def init_loop_intern case_prod_beta Let_def)

lemma init_TypeError: "\<not> lines_ok s ls \<Longrightarrow> init enc ls s = Inl TypeError"
  by (simp add: init_def init_loop_TypeError)

lemma split_text_error: "split_text split_re text s = Inl e \<Longrightarrow> e = SyntaxError"
  by (auto simp: split_text_def split: jsval.splits if_splits option.splits)

lemma encode_split:
  "encode split_re enc text s =
    (case split_text split_re text s of
       Inl e \<Rightarrow> Inl SyntaxError
     | Inr ls \<Rightarrow> if lines_ok s ls then Inr (intern_init enc (map line_text ls) s)
                 else Inl TypeError)"
  by (auto simp: encode_def new_EncodeContext_def init_intern init_TypeError
      split: sum.splits dest: split_text_error)

lemma encode_error:
  "encode split_re enc text s = Inl e \<Longrightarrow> e = SyntaxError \<or> e = TypeError"
  by (auto simp: encode_split split: sum.splits if_splits)

lemma encode_InrD:
  assumes "encode split_re enc text s = Inr (enc', ctx)"
  shows "\<exists>ls. split_text split_re text s = Inr ls \<and> lines_ok s ls \<and>
    intern_init enc (map line_text ls) s = (enc', ctx)"
  using assms by (auto simp: encode_split split: sum.splits if_splits)

lemma find_by_value:
  "distinct (map snd al) \<Longrightarrow> (k, v) \<in> set al \<Longrightarrow> find (\<lambda>(k', v'). f v' = f v) al = Some (k, v) \<or> \<not> inj f"
  by (induction al) (auto simp: inj_def rev_image_eqI)

section \<open>Simple runs of the engine\<close>

lemma optimize_loop_undefined: "optimize_loop None cs m start = m"
  by (subst optimize_loop.simps) (simp add: js_lt_def)

lemma optimize_id: "optimize ctx = ctx"
  by (simp add: optimize_def codes_length_property_def optimize_loop_undefined)

lemma at_index_nth: "i < length cs \<Longrightarrow> at_index cs (int i) = Some (cs ! i)"
  by (simp add: at_index_def)

lemma trim_start_same:
  "i \<le> length a \<Longrightarrow> trim_start a a (int (length a)) (int (length a)) (int i) (int i)
     = (int (length a), int (length a))"
proof (induction "length a - i" arbitrary: i)
  case 0
  then show ?case by (subst trim_start.simps) simp
next
  case (Suc n)
  then have "Suc i \<le> length a" "n = length a - Suc i" by simp_all
  from Suc(1) [OF this(2) this(1)] Suc(2) show ?case
    by (subst trim_start.simps) (auto simp: add.commute)
qed

lemma trim_end_empty: "trim_end a b ll rl ll ru = (ll, ru)"
  by (subst trim_end.simps) simp

lemma mark_range_empty: "upper \<le> lower \<Longrightarrow> mark_range m lower upper = m"
  by (subst mark_range.simps) simp

lemma LCS_same:
  "LCS lm a (int (length a)) rm a (int (length a)) =
    Some (Inr \<lparr>lhs_modified = lm, rhs_modified = rm, vector_u = (\<lambda>_. None), vector_d = (\<lambda>_. None)\<rparr>)"
  using trim_start_same [of 0 a]
  by (simp add: LCS_def getLongestCommonSubsequence.simps trim_end_empty mark_range_empty)

lemma compare_loop_unmodified:
  "i \<le> n \<Longrightarrow> \<forall>j. \<not> truthy (lm j) \<Longrightarrow> \<forall>j. \<not> truthy (rm j) \<Longrightarrow>
   compare_loop lm (int n) rm (int n) (int i) (int i) = []"
proof (induction "n - i" arbitrary: i)
  case 0
  then show ?case by (subst compare_loop.simps) simp
next
  case (Suc k)
  then have "Suc i \<le> n" "k = n - Suc i" by simp_all
  from Suc(1) [OF this(2) this(1) Suc(4) Suc(5)] Suc(2) Suc(4) Suc(5) show ?case
    by (subst compare_loop.simps) (auto simp: add.commute)
qed

lemma intern_init_twice:
  assumes "enc_ok enc" "intern_init enc ls s = (enc', ctx)"
  shows "intern_init enc' ls s = (enc', ctx)"
proof -
  obtain cs where r: "intern_loop s enc [] ls = (enc', cs)"
    and ctx: "ctx = \<lparr>ctx_encoder = enc', ctx_codes = cs, ctx_modified = (\<lambda>_. None)\<rparr>"
    using assms(2) by (auto simp: intern_init_def split: prod.splits)
  from intern_loop_spec [OF assms(1) r]
  have "cs = map (code_of enc' s) ls" "\<forall>l \<in> set ls. getCode enc' (interned_key s l) \<noteq> None"
    by simp_all
  with intern_loop_known [of ls enc' s "[]"] ctx show ?thesis
    by (simp add: intern_init_def)
qed

text \<open>
  C6 as the claim states it, at the options \<open>{splitLinesRegex: "("}\<close>: the pattern
  does not compile, and \<open>diff("a", "a", options)\<close> ends with the \<open>SyntaxError\<close> of
  \<open>new RegExp\<close> instead of the empty list.
\<close>

definition unclosed_group :: options where
  "unclosed_group =
    \<lparr>opt_compare = None, opt_ignoreWhitespace = None, opt_splitLinesRegex = Some ''('',
     opt_splitWordsRegex = None, opt_splitCharsRegex = None\<rparr>"

theorem diff_same_syntax_error_counterexample:
  "diff split_default (JString ''a'') (JString ''a'') (Some unclosed_group) = Some (Inl SyntaxError)"
proof -
  have "split_text split_default (JString ''a'') (assign getDefaultSettings (Some unclosed_group))
      = Inl SyntaxError"
    by (simp add: split_text_def split_default_def assign_def getDefaultSettings_def
        unclosed_group_def)
  then show ?thesis by (simp add: diff_def Let_def encode_split)
qed

text \<open>
  C6, as the code has it. When the split pattern that the options select compiles
  and, with \<open>ignoreWhitespace\<close>, no piece of the split is \<open>undefined\<close>, comparing a
  string with itself gives the empty list of changes.
\<close>

theorem diff_same_is_empty:
  assumes "split_text split_re (JString x) (assign getDefaultSettings opts) = Inr ls"
    and "lines_ok (assign getDefaultSettings opts) ls"
  shows "diff split_re (JString x) (JString x) opts = Some (Inr [])"
proof -
  let ?s = "assign getDefaultSettings opts"
  let ?ks = "map line_text ls"
  obtain enc1 ctx where e1: "intern_init new_Encoder ?ks ?s = (enc1, ctx)"
    by (cases "intern_init new_Encoder ?ks ?s")
  have e2: "intern_init enc1 ?ks ?s = (enc1, ctx)"
    using intern_init_twice [OF enc_ok_new e1] .
  have c1: "encode split_re new_Encoder (JString x) ?s = Inr (enc1, ctx)"
    using assms e1 by (simp add: encode_split)
  have c2: "encode split_re enc1 (JString x) ?s = Inr (enc1, ctx)"
    using assms e2 by (simp add: encode_split)
  have m: "ctx_modified ctx = (\<lambda>_. None)"
    using e1 by (auto simp: intern_init_def split: prod.splits)
  have "compare_lcs (ctx_modified ctx) (ctx_length ctx) (ctx_modified ctx) (ctx_length ctx) = []"
    using compare_loop_unmodified [of 0 "length (ctx_codes ctx)" "ctx_modified ctx" "ctx_modified ctx"]
    by (simp add: compare_lcs_def ctx_length_def m truthy_def)
  then show ?thesis
    by (simp add: diff_def c1 c2 Let_def ctx_length_def LCS_same optimize_id m)
qed

theorem diff_same_is_empty_witness:
  "split_text split_default (JString [CHR ''a'', CHR 0x0A, CHR ''b'']) (assign getDefaultSettings None)
     = Inr [Some ''a'', Some ''b''] \<and>
   None \<notin> set [Some ''a'', Some ''b''] \<and>
   diff split_default (JString [CHR ''a'', CHR 0x0A, CHR ''b''])
     (JString [CHR ''a'', CHR 0x0A, CHR ''b'']) None = Some (Inr [])"
proof -
  have t: "split_text split_default (JString [CHR ''a'', CHR 0x0A, CHR ''b''])
      (assign getDefaultSettings None) = Inr [Some ''a'', Some ''b'']"
    by code_simp
  have n: "None \<notin> set [Some ''a'', Some ''b'']" by simp
  then have k: "lines_ok (assign getDefaultSettings None) [Some ''a'', Some ''b'']"
    by (simp add: lines_ok_def)
  from t n diff_same_is_empty [OF t k] show ?thesis by (intro conjI)
qed

section \<open>Errors\<close>

lemma sms_loop_error: "sms_loop E d vu vd = Inl e \<Longrightarrow> e = UnexpectedState"
proof (induction E d vu vd rule: sms_loop.induct)
  case (1 E d vu vd)
  from 1(2) show ?case
    by (subst (asm) sms_loop.simps) (auto split: if_splits prod.splits option.splits intro: 1(1))
qed

lemma getShortestMiddleSnake_error:
  "getShortestMiddleSnake a la ll lu b lb rl ru vu vd = Inl e \<Longrightarrow> e = UnexpectedState"
  by (auto simp: getShortestMiddleSnake_def Let_def dest: sms_loop_error)

lemma getLongestCommonSubsequence_error:
  assumes "getLongestCommonSubsequence st a la ll lu b lb rl ru = Some r"
  shows "\<forall>e. r = Inl e \<longrightarrow> e = UnexpectedState"
proof (rule getLongestCommonSubsequence.raw_induct
    [where P = "\<lambda>st a la ll lu b lb rl ru r. \<forall>e. r = Inl e \<longrightarrow> e = UnexpectedState",
     OF _ assms], goal_cases)
  case (1 rec st a la ll0 lu0 b lb rl0 ru0 r)
  from 1(2) show ?case
    apply (auto split: prod.splits if_splits sum.splits simp: bind_eq_Some_conv
        dest: getShortestMiddleSnake_error)
    subgoal for x1 x2 x1a x2a x1c x2d x1d x2e y e
      using 1(1) by (cases y) blast+
    done
qed

text \<open>The four numbers of every item of a result.\<close>

definition spans :: "(error + item list) option \<Rightarrow> (error + (int \<times> int \<times> int \<times> int) list) option" where
  "spans r = map_option (map_sum id (map (\<lambda>i. (lhs_at i, lhs_del i, rhs_at i, rhs_add i)))) r"

text \<open>
  C8. \<open>diff\<close> ends with the illegal-argument error exactly when the left or the right
  input is \<open>undefined\<close>.
\<close>

theorem diff_illegal_argument_iff:
  "(\<exists>msg. diff split_re lhs rhs opts = Some (Inl (IllegalArgument msg))) =
   (lhs = JUndefined \<or> rhs = JUndefined)"
proof (cases "lhs = JUndefined \<or> rhs = JUndefined")
  case True
  then show ?thesis by (auto simp: diff_def)
next
  case False
  have "diff split_re lhs rhs opts \<noteq> Some (Inl (IllegalArgument msg))" for msg
    using False
    by (auto simp: diff_def Let_def LCS_def split: prod.splits option.splits sum.splits
        dest: getLongestCommonSubsequence_error encode_error)
  with False show ?thesis by simp
qed

section \<open>One side without tokens\<close>

lemma mark_range_eq:
  "mark_range m lower upper = (\<lambda>i. if lower \<le> i \<and> i < upper then Some True else m i)"
proof (induction m lower upper rule: mark_range.induct)
  case (1 m lower upper)
  show ?case
  proof (cases "lower < upper")
    case True
    then show ?thesis
      by (subst mark_range.simps) (auto simp: 1 fun_eq_iff)
  next
    case False
    then show ?thesis
      by (subst mark_range.simps) (auto simp: fun_eq_iff)
  qed
qed

lemma trim_start_stop: "\<not> (ll < lu \<and> rl < ru) \<Longrightarrow> trim_start a b lu ru ll rl = (ll, rl)"
  by (subst trim_start.simps) auto

lemma trim_end_stop: "\<not> (ll < lu \<and> rl < ru) \<Longrightarrow> trim_end a b ll rl lu ru = (lu, ru)"
  by (subst trim_end.simps) auto

lemma skip_rhs_exhausted:
  "ll \<le> l \<Longrightarrow> r \<le> rl \<Longrightarrow> skip_rhs m ll rl l r = rl"
proof (induction m ll rl l r rule: skip_rhs.induct)
  case (1 m ll rl l r)
  then show ?case by (subst skip_rhs.simps) auto
qed

lemma skip_lhs_exhausted:
  "rl \<le> r \<Longrightarrow> l \<le> ll \<Longrightarrow> skip_lhs m ll rl r l = ll"
proof (induction m ll rl r l rule: skip_lhs.induct)
  case (1 m ll rl r l)
  then show ?case by (subst skip_lhs.simps) auto
qed

lemma compare_loop_done: "ll \<le> l \<Longrightarrow> rl \<le> r \<Longrightarrow> compare_loop lm ll rm rl l r = []"
  by (subst compare_loop.simps) simp

lemma compare_lcs_left_empty:
  "0 < n \<Longrightarrow> compare_lcs lm 0 rm n = [\<lparr>lhs_at = 0, lhs_del = 0, rhs_at = 0, rhs_add = n\<rparr>]"
  unfolding compare_lcs_def
  by (subst compare_loop.simps)
     (simp add: skip_rhs_exhausted compare_loop_done make_item_def Let_def
        skip_lhs.simps [of lm 0 n 0 0])

lemma compare_lcs_right_empty:
  "0 < n \<Longrightarrow> compare_lcs lm n rm 0 = [\<lparr>lhs_at = 0, lhs_del = n, rhs_at = 0, rhs_add = 0\<rparr>]"
  unfolding compare_lcs_def
  by (subst compare_loop.simps)
     (simp add: skip_lhs_exhausted compare_loop_done make_item_def Let_def
        skip_rhs.simps [of rm n 0 n 0])

lemma LCS_left_empty:
  "0 \<le> n \<Longrightarrow> LCS lm [] 0 rm b n =
    Some (Inr \<lparr>lhs_modified = lm, rhs_modified = mark_range rm 0 n,
               vector_u = (\<lambda>_. None), vector_d = (\<lambda>_. None)\<rparr>)"
  by (simp add: LCS_def getLongestCommonSubsequence.simps trim_start_stop trim_end_stop)

lemma LCS_right_empty:
  "0 < n \<Longrightarrow> LCS lm a n rm [] 0 =
    Some (Inr \<lparr>lhs_modified = mark_range lm 0 n, rhs_modified = rm,
               vector_u = (\<lambda>_. None), vector_d = (\<lambda>_. None)\<rparr>)"
  by (simp add: LCS_def getLongestCommonSubsequence.simps trim_start_stop trim_end_stop)

lemma intern_loop_length: "length (snd (intern_loop s enc acc ls)) = length acc + length ls"
  by (induction ls arbitrary: enc acc) (auto simp: intern_loop_Cons split: option.splits)

lemma intern_init_length:
  "intern_init enc ls s = (enc', ctx) \<Longrightarrow> ctx_length ctx = int (length ls)"
  using intern_loop_length [of s enc "[]" ls]
  by (auto simp: intern_init_def ctx_length_def split: prod.splits)

lemma intern_init_modified:
  "intern_init enc ls s = (enc', ctx) \<Longrightarrow> ctx_modified ctx = (\<lambda>_. None)"
  by (auto simp: intern_init_def split: prod.splits)

lemma intern_init_empty: "intern_init enc [] s = (enc, \<lparr>ctx_encoder = enc, ctx_codes = [], ctx_modified = (\<lambda>_. None)\<rparr>)"
  by (simp add: intern_init_def)

lemma split_text_falsy: "lhs = JNull \<or> lhs = JString [] \<Longrightarrow> split_text split_re lhs s = Inr []"
  by (auto simp: split_text_def)

lemma encode_falsy:
  "lhs = JNull \<or> lhs = JString [] \<Longrightarrow>
   encode split_re enc lhs s =
     Inr (enc, \<lparr>ctx_encoder = enc, ctx_codes = [], ctx_modified = (\<lambda>_. None)\<rparr>)"
  by (simp add: encode_split split_text_falsy lines_ok_def intern_init_empty)

text \<open>
  C10. \<open>null\<close> and the empty string are split into no token and raise no error: when
  the other side has tokens (and its encoding does not throw, see C6), the result is
  the one item that adds (or deletes) all of them at position 0.
\<close>

theorem diff_null_or_empty_side:
  "(lhs = JNull \<or> lhs = JString [] \<longrightarrow>
      split_text split_re rhs (assign getDefaultSettings opts) = Inr rs \<longrightarrow> rs \<noteq> [] \<longrightarrow>
      lines_ok (assign getDefaultSettings opts) rs \<longrightarrow>
      spans (diff split_re lhs rhs opts) = Some (Inr [(0, 0, 0, int (length rs))])) \<and>
   (rhs = JNull \<or> rhs = JString [] \<longrightarrow>
      split_text split_re lhs (assign getDefaultSettings opts) = Inr ls \<longrightarrow> ls \<noteq> [] \<longrightarrow>
      lines_ok (assign getDefaultSettings opts) ls \<longrightarrow>
      spans (diff split_re lhs rhs opts) = Some (Inr [(0, int (length ls), 0, 0)]))"
proof (intro conjI impI)
  let ?s = "assign getDefaultSettings opts"
  assume l: "lhs = JNull \<or> lhs = JString []" and r: "split_text split_re rhs ?s = Inr rs"
    and ne: "rs \<noteq> []" and ok: "lines_ok ?s rs"
  have ru: "rhs \<noteq> JUndefined" using r ne by (auto simp: split_text_def)
  have lu: "lhs \<noteq> JUndefined" using l by auto
  obtain enc2 ctx where e2: "intern_init new_Encoder (map line_text rs) ?s = (enc2, ctx)"
    by (cases "intern_init new_Encoder (map line_text rs) ?s")
  have c2: "encode split_re new_Encoder rhs ?s = Inr (enc2, ctx)"
    using r ok e2 by (simp add: encode_split)
  have n: "ctx_length ctx = int (length rs)" "0 < int (length rs)"
    using intern_init_length [OF e2] ne by simp_all
  have m: "ctx_modified ctx = (\<lambda>_. None)" using e2 by (rule intern_init_modified)
  show "spans (diff split_re lhs rhs opts) = Some (Inr [(0, 0, 0, int (length rs))])"
    using lu ru n
    by (simp add: diff_def spans_def Let_def encode_falsy [OF l] c2 ctx_length_def
        LCS_left_empty optimize_id compare_lcs_left_empty add_context_def)
next
  let ?s = "assign getDefaultSettings opts"
  assume r: "rhs = JNull \<or> rhs = JString []" and l: "split_text split_re lhs ?s = Inr ls"
    and ne: "ls \<noteq> []" and ok: "lines_ok ?s ls"
  have lu: "lhs \<noteq> JUndefined" using l ne by (auto simp: split_text_def)
  have ru: "rhs \<noteq> JUndefined" using r by auto
  obtain enc1 ctx where e1: "intern_init new_Encoder (map line_text ls) ?s = (enc1, ctx)"
    by (cases "intern_init new_Encoder (map line_text ls) ?s")
  have c1: "encode split_re new_Encoder lhs ?s = Inr (enc1, ctx)"
    using l ok e1 by (simp add: encode_split)
  have n: "ctx_length ctx = int (length ls)" "0 < int (length ls)"
    using intern_init_length [OF e1] ne by simp_all
  show "spans (diff split_re lhs rhs opts) = Some (Inr [(0, int (length ls), 0, 0)])"
    using lu ru n
    by (simp add: diff_def spans_def Let_def encode_falsy [OF r] c1 ctx_length_def
        LCS_right_empty optimize_id compare_lcs_right_empty add_context_def)
qed

lemma split_text_example:
  "split_text split_default (JString [CHR ''a'', CHR 0x0A, CHR ''x'']) (assign getDefaultSettings None)
     = Inr [Some ''a'', Some ''x'']"
  by (simp add: split_text_def split_default_def assign_def getDefaultSettings_def)

theorem diff_null_or_empty_side_witness:
  "spans (diff split_default JNull (JString [CHR ''a'', CHR 0x0A, CHR ''x'']) None) = Some (Inr [(0, 0, 0, 2)]) \<and>
   spans (diff split_default (JString [CHR ''a'', CHR 0x0A, CHR ''x'']) (JString []) None) = Some (Inr [(0, 2, 0, 0)])"
  using diff_null_or_empty_side [where lhs = JNull and split_re = split_default
          and rhs = "JString [CHR ''a'', CHR 0x0A, CHR ''x'']" and opts = None
          and rs = "[Some ''a'', Some ''x'']"]
        diff_null_or_empty_side [where lhs = "JString [CHR ''a'', CHR 0x0A, CHR ''x'']"
          and split_re = split_default and rhs = "JString []" and opts = None
          and ls = "[Some ''a'', Some ''x'']"]
  by (simp add: split_text_example lines_ok_def)

text \<open>
  C4. \<open>optimize\<close> compares \<open>start\<close> with \<open>ctx._codes.length\<close>, which is \<open>undefined\<close>, so
  its loop never runs and no boundary slides. For the lines a, a, b against a, b, b
  the result is the one replacement at position 1 on both sides that \<open>LCS\<close> marked;
  after a slide on the right it would be a deletion at 1 and an insertion at 2.
\<close>

theorem diff_repeated_token_not_slid:
  "(\<forall>ctx. optimize ctx = ctx) \<and>
   spans (diff split_default
      (JString [CHR ''a'', CHR 0x0A, CHR ''a'', CHR 0x0A, CHR ''b''])
      (JString [CHR ''a'', CHR 0x0A, CHR ''b'', CHR 0x0A, CHR ''b'']) None)
    = Some (Inr [(1, 1, 1, 1)])"
proof
  show "\<forall>ctx. optimize ctx = ctx" by (simp add: optimize_id)
  show "spans (diff split_default
      (JString [CHR ''a'', CHR 0x0A, CHR ''a'', CHR 0x0A, CHR ''b''])
      (JString [CHR ''a'', CHR 0x0A, CHR ''b'', CHR 0x0A, CHR ''b'']) None)
    = Some (Inr [(1, 1, 1, 1)])"
    by code_simp
qed

text \<open>
  With the number of codes as the bound, the loop of \<open>optimize\<close> does slide the right
  side's mark from 1 to 2, and the changes become a deletion and a later insertion.
\<close>

lemma optimize_loop_with_length_slides:
  "compare_lcs ((\<lambda>_. None)(1 := Some True)) 3
     (optimize_loop (Some 3) [Num 1, Num 2, Num 2] ((\<lambda>_. None)(1 := Some True)) 0) 3
   = [\<lparr>lhs_at = 1, lhs_del = 1, rhs_at = 1, rhs_add = 0\<rparr>,
      \<lparr>lhs_at = 2, lhs_del = 0, rhs_at = 2, rhs_add = 1\<rparr>]"
  by code_simp

section \<open>getLine\<close>

definition ignoring_whitespace :: options where
  "ignoring_whitespace =
    \<lparr>opt_compare = None, opt_ignoreWhitespace = Some True, opt_splitLinesRegex = None,
     opt_splitWordsRegex = None, opt_splitCharsRegex = None\<rparr>"

text \<open>The answers of \<open>getLine\<close> at position \<open>n\<close> of the left and the right context of every item.\<close>

definition lines_at :: "int \<Rightarrow> (error + item list) option \<Rightarrow> (error + (string option \<times> string option) list) option" where
  "lines_at n r = map_option (map_sum id (map (\<lambda>i. (getLine (lhs_ctx i) n, getLine (rhs_ctx i) n)))) r"

text \<open>
  C7. The line \<open>" a"\<close> compared with \<open>ignoreWhitespace\<close>: \<open>getLine(0)\<close> of the left
  context returns \<open>"a"\<close>, the stripped form, and not the line \<open>" a"\<close> of the input.
  \<open>_init\<close> overwrites \<open>line\<close> with the stripped form before it interns it, and the
  table of the encoder is the only place that keeps any text.
\<close>

theorem getLine_returns_stripped_token:
  "split_text split_default (JString '' a'') (assign getDefaultSettings (Some ignoring_whitespace))
     = Inr [Some '' a''] \<and>
   lines_at 0 (diff split_default (JString '' a'') (JString ''b'') (Some ignoring_whitespace))
     = Some (Inr [(Some ''a'', Some ''b'')])"
  by code_simp

text \<open>
  C5. A token is given the next integer, from 1 on, unless the table already answers
  for it. For a token named like a member of \<open>Object.prototype\<close> the empty table
  answers with that member: the token \<open>constructor\<close> is given no integer, and the next
  new token is given 1.
\<close>

theorem encode_inherited_name:
  "(case encode split_default new_Encoder (JString ''constructor'') getDefaultSettings of
      Inl e \<Rightarrow> False
    | Inr (enc1, c1) \<Rightarrow>
        (case encode split_default enc1 (JString ''b'') getDefaultSettings of
           Inl e \<Rightarrow> False
         | Inr (enc2, c2) \<Rightarrow>
             ctx_codes c1 = [Inherited ''constructor''] \<and> ctx_codes c2 = [Num 1]))"
  by code_simp

lemma find_code:
  "distinct (map snd al) \<Longrightarrow> (k, v) \<in> set al \<Longrightarrow>
   find (\<lambda>(key, c). Num c = Num v) al = Some (k, v)"
  by (induction al) (auto simp: rev_image_eqI)

lemma getLine_interned:
  assumes ok: "enc_ok (ctx_encoder ctx)"
    and n: "n < length (ctx_codes ctx)"
    and c: "getCode (ctx_encoder ctx) t = Some (ctx_codes ctx ! n)"
    and t: "t \<notin> set Object_prototype"
  shows "getLine ctx (int n) = Some t"
proof -
  obtain v where v: "map_of (diff_codes (ctx_encoder ctx)) t = Some v" "ctx_codes ctx ! n = Num v"
    using c t by (auto simp: getCode_def split: option.splits)
  have "(t, v) \<in> set (diff_codes (ctx_encoder ctx))"
    using v(1) by (rule map_of_SomeD)
  moreover have "distinct (map snd (diff_codes (ctx_encoder ctx)))"
    using ok by (simp add: enc_ok_def)
  ultimately have "find (\<lambda>(key, c). Num c = Num v) (diff_codes (ctx_encoder ctx)) = Some (t, v)"
    by (rule find_code [rotated])
  with n v(2) show ?thesis
    by (simp add: getLine_def at_index_def getCodes_def)
qed

text \<open>What \<open>diff\<close> builds before it compares: both token lists, both contexts.\<close>

lemma diff_contexts:
  assumes "diff split_re lhs rhs opts = Some (Inr its)" "it \<in> set its"
  shows "\<exists>ls rs enc1 enc2 c1 c2.
     split_text split_re lhs (assign getDefaultSettings opts) = Inr ls \<and>
     split_text split_re rhs (assign getDefaultSettings opts) = Inr rs \<and>
     intern_init new_Encoder (map line_text ls) (assign getDefaultSettings opts) = (enc1, c1) \<and>
     intern_init enc1 (map line_text rs) (assign getDefaultSettings opts) = (enc2, c2) \<and>
     ctx_encoder (lhs_ctx it) = enc2 \<and> ctx_codes (lhs_ctx it) = ctx_codes c1 \<and>
     ctx_encoder (rhs_ctx it) = enc2 \<and> ctx_codes (rhs_ctx it) = ctx_codes c2"
proof -
  let ?s = "assign getDefaultSettings opts"
  from assms(1) obtain enc1 c1 where e1: "encode split_re new_Encoder lhs ?s = Inr (enc1, c1)"
    by (cases "encode split_re new_Encoder lhs ?s")
       (auto simp: diff_def Let_def split: if_splits)
  from assms(1) e1 obtain enc2 c2 where e2: "encode split_re enc1 rhs ?s = Inr (enc2, c2)"
    by (cases "encode split_re enc1 rhs ?s")
       (auto simp: diff_def Let_def split: if_splits)
  from encode_InrD [OF e1] obtain ls where
    l: "split_text split_re lhs ?s = Inr ls" "intern_init new_Encoder (map line_text ls) ?s = (enc1, c1)"
    by blast
  from encode_InrD [OF e2] obtain rs where
    r: "split_text split_re rhs ?s = Inr rs" "intern_init enc1 (map line_text rs) ?s = (enc2, c2)"
    by blast
  have "ctx_encoder c2 = enc2"
    using r(2) by (auto simp: intern_init_def split: prod.splits)
  with assms e1 e2 l r show ?thesis
    by (auto simp: diff_def Let_def optimize_id add_context_def
        split: if_splits option.splits sum.splits)
qed

text \<open>
  The same for every run with \<open>ignoreWhitespace\<close> that returns: \<open>getLine\<close> answers
  with the stripped token (when that is not the name of an inherited member, which
  has no key).
\<close>

lemma getLine_stripped_text:
  assumes "diff split_re lhs rhs opts = Some (Inr its)" "it \<in> set its"
    and "ignoreWhitespace (assign getDefaultSettings opts)"
    and "split_text split_re lhs (assign getDefaultSettings opts) = Inr lines_l"
    and "split_text split_re rhs (assign getDefaultSettings opts) = Inr lines_r"
  shows
    "(\<forall>n < length lines_l.
        strip_whitespace (line_text (lines_l ! n)) \<notin> set Object_prototype \<longrightarrow>
        getLine (lhs_ctx it) (int n) = Some (strip_whitespace (line_text (lines_l ! n)))) \<and>
     (\<forall>n < length lines_r.
        strip_whitespace (line_text (lines_r ! n)) \<notin> set Object_prototype \<longrightarrow>
        getLine (rhs_ctx it) (int n) = Some (strip_whitespace (line_text (lines_r ! n))))"
proof -
  let ?s = "assign getDefaultSettings opts"
  let ?ls = "map line_text lines_l"
  let ?rs = "map line_text lines_r"
  from diff_contexts [OF assms(1,2)] assms(4,5) obtain enc1 enc2 c1 c2 where
    e1: "intern_init new_Encoder ?ls ?s = (enc1, c1)" and e2: "intern_init enc1 ?rs ?s = (enc2, c2)" and
    l: "ctx_encoder (lhs_ctx it) = enc2" "ctx_codes (lhs_ctx it) = ctx_codes c1" and
    r: "ctx_encoder (rhs_ctx it) = enc2" "ctx_codes (rhs_ctx it) = ctx_codes c2"
    by auto
  have i1: "intern_loop ?s new_Encoder [] ?ls = (enc1, ctx_codes c1)"
    using e1 by (auto simp: intern_init_def split: prod.splits)
  have i2: "intern_loop ?s enc1 [] ?rs = (enc2, ctx_codes c2)"
    using e2 by (auto simp: intern_init_def split: prod.splits)
  from intern_loop_spec [OF enc_ok_new i1] obtain ext1 where
    s1: "enc_ok enc1" "ctx_codes c1 = map (code_of enc1 ?s) ?ls"
        "\<forall>l \<in> set ?ls. getCode enc1 (interned_key ?s l) \<noteq> None"
    by blast
  from intern_loop_spec [OF s1(1) i2] obtain ext2 where
    s2: "enc_ok enc2" "diff_codes enc2 = diff_codes enc1 @ ext2"
        "ctx_codes c2 = map (code_of enc2 ?s) ?rs"
        "\<forall>l \<in> set ?rs. getCode enc2 (interned_key ?s l) \<noteq> None"
    by blast
  have form: "interned_key ?s t = strip_whitespace t" for t
    using assms(3) by (simp add: interned_key_def)
  have left: "getLine (lhs_ctx it) (int n) = Some (strip_whitespace (?ls ! n))"
    if n: "n < length ?ls" and t: "strip_whitespace (?ls ! n) \<notin> set Object_prototype" for n
  proof -
    have "?ls ! n \<in> set ?ls" using n by simp
    with s1(3) have "getCode enc1 (interned_key ?s (?ls ! n)) \<noteq> None" by blast
    then obtain c where c: "getCode enc1 (strip_whitespace (?ls ! n)) = Some c"
      by (auto simp: form)
    then have "ctx_codes c1 ! n = c"
      using s1(2) n by (simp add: code_of_def form)
    moreover have "getCode enc2 (strip_whitespace (?ls ! n)) = Some c"
      using getCode_extend [OF s2(1) s2(2) c] .
    ultimately show ?thesis
      using getLine_interned [of "lhs_ctx it" n "strip_whitespace (?ls ! n)"] s2(1) l n t s1(2)
      by simp
  qed
  have right: "getLine (rhs_ctx it) (int n) = Some (strip_whitespace (?rs ! n))"
    if n: "n < length ?rs" and t: "strip_whitespace (?rs ! n) \<notin> set Object_prototype" for n
  proof -
    have "?rs ! n \<in> set ?rs" using n by simp
    with s2(4) have "getCode enc2 (interned_key ?s (?rs ! n)) \<noteq> None" by blast
    then obtain c where c: "getCode enc2 (strip_whitespace (?rs ! n)) = Some c"
      by (auto simp: form)
    then have "ctx_codes c2 ! n = c"
      using s2(3) n by (simp add: code_of_def form)
    with c show ?thesis
      using getLine_interned [of "rhs_ctx it" n "strip_whitespace (?rs ! n)"] s2(1) r n t s2(3)
      by simp
  qed
  from left right show ?thesis by simp
qed

section \<open>Longest common subsequences of two lists\<close>

fun lcs_len :: "'a list \<Rightarrow> 'a list \<Rightarrow> nat" where
  "lcs_len [] ys = 0"
| "lcs_len (x # xs) [] = 0"
| "lcs_len (x # xs) (y # ys) =
    (if x = y then Suc (lcs_len xs ys) else max (lcs_len xs (y # ys)) (lcs_len (x # xs) ys))"

lemma lcs_len_Nil2 [simp]: "lcs_len xs [] = 0"
  by (cases xs) simp_all

lemma lcs_len_witness: "\<exists>c. subseq c xs \<and> subseq c ys \<and> length c = lcs_len xs ys"
proof (induction xs ys rule: lcs_len.induct)
  case (1 ys)
  show ?case by simp
next
  case (2 x xs)
  show ?case by simp
next
  case (3 x xs y ys)
  show ?case
  proof (cases "x = y")
    case True
    with 3(1) obtain c where "subseq c xs" "subseq c ys" "length c = lcs_len xs ys" by blast
    then have "subseq (x # c) (x # xs)" "subseq (x # c) (y # ys)" "length (x # c) = lcs_len (x # xs) (y # ys)"
      using True by simp_all
    then show ?thesis by blast
  next
    case False
    from 3(2) [OF False] obtain c1 where c1: "subseq c1 xs" "subseq c1 (y # ys)" "length c1 = lcs_len xs (y # ys)"
      by blast
    from 3(3) [OF False] obtain c2 where c2: "subseq c2 (x # xs)" "subseq c2 ys" "length c2 = lcs_len (x # xs) ys"
      by blast
    show ?thesis
    proof (cases "lcs_len xs (y # ys) \<le> lcs_len (x # xs) ys")
      case True
      with c2 False have "subseq c2 (x # xs)" "subseq c2 (y # ys)" "length c2 = lcs_len (x # xs) (y # ys)"
        by (simp_all add: max_def subseq_drop_many [of c2 ys "[y]", simplified])
      then show ?thesis by blast
    next
      case le: False
      with c1 False have "subseq c1 (x # xs)" "subseq c1 (y # ys)" "length c1 = lcs_len (x # xs) (y # ys)"
        by (simp_all add: max_def subseq_drop_many [of c1 xs "[x]", simplified])
      then show ?thesis by blast
    qed
  qed
qed

lemma lcs_len_max: "subseq c xs \<Longrightarrow> subseq c ys \<Longrightarrow> length c \<le> lcs_len xs ys"
proof (induction xs ys arbitrary: c rule: lcs_len.induct)
  case (1 ys)
  then show ?case by simp
next
  case (2 x xs)
  then show ?case by simp
next
  case (3 x xs y ys)
  show ?case
  proof (cases c)
    case Nil
    then show ?thesis by simp
  next
    case (Cons z c')
    show ?thesis
    proof (cases "x = y")
      case True
      have "subseq c' xs" "subseq c' ys"
        using "3.prems" Cons True by (auto split: if_splits dest: subseq_Cons')
      then have "length c' \<le> lcs_len xs ys" using 3(1) True by blast
      with True Cons show ?thesis by simp
    next
      case False
      show ?thesis
      proof (cases "z = x")
        case zx: True
        then have "subseq c ys" using "3.prems"(2) Cons False by simp
        then have "length c \<le> lcs_len (x # xs) ys" using 3(3) [OF False "3.prems"(1)] by simp
        with False show ?thesis by simp
      next
        case zx: False
        then have "subseq c xs" using "3.prems"(1) Cons by simp
        then have "length c \<le> lcs_len xs (y # ys)" using 3(2) [OF False _ "3.prems"(2)] by simp
        with False show ?thesis by simp
      qed
    qed
  qed
qed

lemma subseq_rev: "subseq xs ys \<Longrightarrow> subseq (rev xs) (rev ys)"
proof (induction rule: list_emb.induct)
  case (list_emb_Nil ys)
  show ?case by simp
next
  case (list_emb_Cons xs ys y)
  then show ?case by (simp add: subseq_rev_drop_many)
next
  case (list_emb_Cons2 x y xs ys)
  then show ?case by (simp add: list_emb_append_mono)
qed

lemma lcs_len_rev_le: "lcs_len xs ys \<le> lcs_len (rev xs) (rev ys)"
proof -
  obtain c where "subseq c xs" "subseq c ys" "length c = lcs_len xs ys"
    using lcs_len_witness by blast
  then show ?thesis
    using lcs_len_max [of "rev c" "rev xs" "rev ys"] subseq_rev by fastforce
qed

lemma lcs_len_rev: "lcs_len (rev xs) (rev ys) = lcs_len xs ys"
  using lcs_len_rev_le [of xs ys] lcs_len_rev_le [of "rev xs" "rev ys"] by simp

lemma lcs_len_snoc:
  "lcs_len (xs @ [x]) (ys @ [y]) =
    (if x = y then Suc (lcs_len xs ys) else max (lcs_len xs (ys @ [y])) (lcs_len (xs @ [x]) ys))"
proof -
  have "lcs_len (xs @ [x]) (ys @ [y]) = lcs_len (x # rev xs) (y # rev ys)"
    using lcs_len_rev [of "xs @ [x]" "ys @ [y]"] by simp
  also have "\<dots> = (if x = y then Suc (lcs_len (rev xs) (rev ys))
      else max (lcs_len (rev xs) (y # rev ys)) (lcs_len (x # rev xs) (rev ys)))"
    by simp
  also have "\<dots> = (if x = y then Suc (lcs_len xs ys) else max (lcs_len xs (ys @ [y])) (lcs_len (xs @ [x]) ys))"
    using lcs_len_rev [of xs ys] lcs_len_rev [of xs "ys @ [y]"] lcs_len_rev [of "xs @ [x]" ys] by simp
  finally show ?thesis .
qed

lemma lcs_len_append_ge:
  "lcs_len xs1 ys1 + lcs_len xs2 ys2 \<le> lcs_len (xs1 @ xs2) (ys1 @ ys2)"
proof -
  obtain c1 where c1: "subseq c1 xs1" "subseq c1 ys1" "length c1 = lcs_len xs1 ys1"
    using lcs_len_witness by blast
  obtain c2 where c2: "subseq c2 xs2" "subseq c2 ys2" "length c2 = lcs_len xs2 ys2"
    using lcs_len_witness by blast
  have "subseq (c1 @ c2) (xs1 @ xs2)" "subseq (c1 @ c2) (ys1 @ ys2)"
    using c1 c2 by (simp_all add: list_emb_append_mono)
  then have "length (c1 @ c2) \<le> lcs_len (xs1 @ xs2) (ys1 @ ys2)"
    by (rule lcs_len_max)
  with c1 c2 show ?thesis by simp
qed

lemma lcs_len_le_length: "lcs_len xs ys \<le> length xs" "lcs_len xs ys \<le> length ys"
proof -
  obtain c where c: "subseq c xs" "subseq c ys" "length c = lcs_len xs ys"
    using lcs_len_witness by blast
  show "lcs_len xs ys \<le> length xs" using list_emb_length [OF c(1)] c(3) by simp
  show "lcs_len xs ys \<le> length ys" using list_emb_length [OF c(2)] c(3) by simp
qed

lemma lcs_len_common_prefix: "lcs_len (p @ xs) (p @ ys) = length p + lcs_len xs ys"
  by (induction p) simp_all

lemma lcs_len_common_suffix: "lcs_len (xs @ p) (ys @ p) = length p + lcs_len xs ys"
  using lcs_len_common_prefix [of "rev p" "rev xs" "rev ys"] lcs_len_rev [of "xs @ p" "ys @ p"]
    lcs_len_rev [of xs ys]
  by simp

text \<open>The edit distance with insertions and deletions only.\<close>

definition dist :: "'a list \<Rightarrow> 'a list \<Rightarrow> int" where
  "dist xs ys = int (length xs) + int (length ys) - 2 * int (lcs_len xs ys)"

lemma dist_Nil [simp]: "dist [] ys = int (length ys)" "dist xs [] = int (length xs)"
  by (simp_all add: dist_def)

lemma dist_nonneg: "0 \<le> dist xs ys"
  using lcs_len_le_length [of xs ys] by (simp add: dist_def)

lemma dist_append_le: "dist (xs1 @ xs2) (ys1 @ ys2) \<le> dist xs1 ys1 + dist xs2 ys2"
  using lcs_len_append_ge [of xs1 ys1 xs2 ys2] by (simp add: dist_def)

lemma dist_Cons:
  "dist (x # xs) (y # ys) =
    (if x = y then dist xs ys else 1 + min (dist xs (y # ys)) (dist (x # xs) ys))"
  by (simp add: dist_def max_def min_def)

lemma dist_snoc:
  "dist (xs @ [x]) (ys @ [y]) =
    (if x = y then dist xs ys else 1 + min (dist xs (ys @ [y])) (dist (xs @ [x]) ys))"
  by (simp add: dist_def lcs_len_snoc max_def min_def)

lemma dist_Cons_le: "dist (x # xs) ys \<le> 1 + dist xs ys" "dist xs (y # ys) \<le> 1 + dist xs ys"
  using dist_append_le [of "[x]" xs "[]" ys] dist_append_le [of "[]" xs "[y]" ys] by simp_all

text \<open>
  A shortest edit script can be cut after any number \<open>d\<close> of its edits: some cut of
  both lists has a front part at distance at most \<open>d\<close> and a rest at distance at most
  what remains.
\<close>

lemma dist_split:
  "0 \<le> d \<Longrightarrow> d \<le> dist xs ys \<Longrightarrow>
   \<exists>i j. i \<le> length xs \<and> j \<le> length ys \<and>
     dist (take i xs) (take j ys) \<le> d \<and> dist (drop i xs) (drop j ys) \<le> dist xs ys - d"
proof (induction xs ys arbitrary: d rule: lcs_len.induct)
  case (1 ys)
  then have "nat d \<le> length ys" by simp
  with 1 show ?case
    by (intro exI [of _ 0] exI [of _ "nat d"]) simp
next
  case (2 x xs)
  then have "nat d \<le> length (x # xs)" by simp
  with 2 show ?case
    by (intro exI [of _ "nat d"] exI [of _ 0]) (simp add: min_def)
next
  case (3 x xs y ys)
  show ?case
  proof (cases "x = y")
    case True
    then have "dist (x # xs) (y # ys) = dist xs ys" by (simp add: dist_Cons)
    with 3(1) [OF True "3.prems"(1)] "3.prems"(2) obtain i j where
      "i \<le> length xs" "j \<le> length ys" "dist (take i xs) (take j ys) \<le> d"
      "dist (drop i xs) (drop j ys) \<le> dist xs ys - d"
      by auto
    with True show ?thesis
      by (intro exI [of _ "Suc i"] exI [of _ "Suc j"]) (simp add: dist_Cons)
  next
    case False
    show ?thesis
    proof (cases "d = 0")
      case True
      then show ?thesis
        by (intro exI [of _ 0] exI [of _ 0]) simp
    next
      case d: False
      with "3.prems" have d1: "0 \<le> d - 1" by simp
      have eq: "dist (x # xs) (y # ys) = 1 + min (dist xs (y # ys)) (dist (x # xs) ys)"
        using False by (simp add: dist_Cons)
      show ?thesis
      proof (cases "dist xs (y # ys) \<le> dist (x # xs) ys")
        case True
        with eq have e: "dist (x # xs) (y # ys) = 1 + dist xs (y # ys)" by simp
        with "3.prems" have "d - 1 \<le> dist xs (y # ys)" by simp
        from 3(2) [OF False d1 this] obtain i j where ij:
          "i \<le> length xs" "j \<le> length (y # ys)" "dist (take i xs) (take j (y # ys)) \<le> d - 1"
          "dist (drop i xs) (drop j (y # ys)) \<le> dist xs (y # ys) - (d - 1)"
          by blast
        have "dist (take (Suc i) (x # xs)) (take j (y # ys)) \<le> d"
          using ij(3) dist_Cons_le(1) [of x "take i xs" "take j (y # ys)"] by simp
        moreover have "dist (drop (Suc i) (x # xs)) (drop j (y # ys)) \<le> dist (x # xs) (y # ys) - d"
          using ij(4) e by simp
        ultimately show ?thesis
          using ij(1,2) by (intro exI [of _ "Suc i"] exI [of _ j]) simp
      next
        case le: False
        with eq have e: "dist (x # xs) (y # ys) = 1 + dist (x # xs) ys" by simp
        with "3.prems" have "d - 1 \<le> dist (x # xs) ys" by simp
        from 3(3) [OF False d1 this] obtain i j where ij:
          "i \<le> length (x # xs)" "j \<le> length ys" "dist (take i (x # xs)) (take j ys) \<le> d - 1"
          "dist (drop i (x # xs)) (drop j ys) \<le> dist (x # xs) ys - (d - 1)"
          by blast
        have "dist (take i (x # xs)) (take (Suc j) (y # ys)) \<le> d"
          using ij(3) dist_Cons_le(2) [of "take i (x # xs)" y "take j ys"] by simp
        moreover have "dist (drop i (x # xs)) (drop (Suc j) (y # ys)) \<le> dist (x # xs) (y # ys) - d"
          using ij(4) e by simp
        ultimately show ?thesis
          using ij(1,2) by (intro exI [of _ i] exI [of _ "Suc j"]) simp
      qed
    qed
  qed
qed

section \<open>Edit distance on a grid of matches\<close>

text \<open>
  \<open>mt i j\<close> says that the edge from \<open>(i, j)\<close> to \<open>(i + 1, j + 1)\<close> of the edit graph is a
  diagonal. \<open>ed mt i j\<close> is the least number of horizontal and vertical edges on a
  path from the origin to \<open>(i, j)\<close>.
\<close>

function ed :: "(int \<Rightarrow> int \<Rightarrow> bool) \<Rightarrow> int \<Rightarrow> int \<Rightarrow> int" where
  "ed mt i j =
    (if i \<le> 0 then max j 0
     else if j \<le> 0 then i
     else if mt (i - 1) (j - 1) then ed mt (i - 1) (j - 1)
     else 1 + min (ed mt (i - 1) j) (ed mt i (j - 1)))"
  by pat_completeness auto
termination
  by (relation "measure (\<lambda>(mt, i, j). nat i + nat j)") auto

declare ed.simps [simp del]

lemma ed_left [simp]: "0 \<le> j \<Longrightarrow> ed mt 0 j = j"
  by (subst ed.simps) simp

lemma ed_top [simp]: "0 \<le> i \<Longrightarrow> ed mt i 0 = i"
  by (subst ed.simps) auto

lemma ed_step:
  "0 \<le> i \<Longrightarrow> 0 \<le> j \<Longrightarrow>
   ed mt (i + 1) (j + 1) =
     (if mt i j then ed mt i j else 1 + min (ed mt i (j + 1)) (ed mt (i + 1) j))"
  by (subst ed.simps) simp

lemma ed_lipschitz_nat:
  "\<bar>ed mt (int n + 1) (int m) - ed mt (int n) (int m)\<bar> \<le> 1 \<and>
   \<bar>ed mt (int n) (int m + 1) - ed mt (int n) (int m)\<bar> \<le> 1"
proof (induction "n + m" arbitrary: n m rule: less_induct)
  case less
  have h: "\<bar>ed mt (int n + 1) (int m) - ed mt (int n) (int m)\<bar> \<le> 1"
  proof (cases m)
    case 0
    then show ?thesis by simp
  next
    case (Suc m')
    have a: "\<bar>ed mt (int n) (int m' + 1) - ed mt (int n) (int m')\<bar> \<le> 1"
         "\<bar>ed mt (int n + 1) (int m') - ed mt (int n) (int m')\<bar> \<le> 1"
      using less [of n m'] Suc by simp_all
    have "ed mt (int n + 1) (int m' + 1) =
      (if mt (int n) (int m') then ed mt (int n) (int m')
       else 1 + min (ed mt (int n) (int m' + 1)) (ed mt (int n + 1) (int m')))"
      by (rule ed_step) simp_all
    with a show ?thesis
      unfolding Suc by (auto simp: min_def add.commute)
  qed
  have v: "\<bar>ed mt (int n) (int m + 1) - ed mt (int n) (int m)\<bar> \<le> 1"
  proof (cases n)
    case 0
    then show ?thesis by simp
  next
    case (Suc n')
    have a: "\<bar>ed mt (int n') (int m + 1) - ed mt (int n') (int m)\<bar> \<le> 1"
         "\<bar>ed mt (int n' + 1) (int m) - ed mt (int n') (int m)\<bar> \<le> 1"
      using less [of n' m] Suc by simp_all
    have "ed mt (int n' + 1) (int m + 1) =
      (if mt (int n') (int m) then ed mt (int n') (int m)
       else 1 + min (ed mt (int n') (int m + 1)) (ed mt (int n' + 1) (int m)))"
      by (rule ed_step) simp_all
    with a show ?thesis
      unfolding Suc by (auto simp: min_def add.commute)
  qed
  from h v show ?case ..
qed

lemma ed_lipschitz:
  assumes "0 \<le> i" "0 \<le> j"
  shows "\<bar>ed mt (i + 1) j - ed mt i j\<bar> \<le> 1" "\<bar>ed mt i (j + 1) - ed mt i j\<bar> \<le> 1"
  using ed_lipschitz_nat [of mt "nat i" "nat j"] assms by simp_all

lemma ed_diag_mono: "0 \<le> i \<Longrightarrow> 0 \<le> j \<Longrightarrow> ed mt i j \<le> ed mt (i + 1) (j + 1)"
  using ed_lipschitz [of i j mt] by (auto simp: ed_step min_def)

lemma ed_diag_mono_many:
  "0 \<le> i \<Longrightarrow> 0 \<le> j \<Longrightarrow> ed mt i j \<le> ed mt (i + int n) (j + int n)"
proof (induction n)
  case 0
  show ?case by simp
next
  case (Suc n)
  have "ed mt (i + int n) (j + int n) \<le> ed mt (i + int n + 1) (j + int n + 1)"
    using Suc.prems by (intro ed_diag_mono) simp_all
  moreover have "i + int (Suc n) = i + int n + 1" "j + int (Suc n) = j + int n + 1"
    by simp_all
  ultimately show ?case using Suc by (simp only:) simp
qed

lemma ed_diag_le:
  assumes "0 \<le> i" "0 \<le> j" "i \<le> i'"
  shows "ed mt i j \<le> ed mt i' (j + (i' - i))"
  using ed_diag_mono_many [OF assms(1,2), of mt "nat (i' - i)"] assms(3) by simp

lemma parity_step:
  fixes a e i j :: int
  shows "2 dvd (a - (i - 1 - j)) \<Longrightarrow> e = 1 + a \<Longrightarrow> 2 dvd (e - (i - j))"
    and "2 dvd (a - (i - (j - 1))) \<Longrightarrow> e = 1 + a \<Longrightarrow> 2 dvd (e - (i - j))"
  by presburger+

lemma ed_parity: "0 \<le> i \<Longrightarrow> 0 \<le> j \<Longrightarrow> 2 dvd (ed mt i j - (i - j))"
proof (induction mt i j rule: ed.induct)
  case (1 mt i j)
  show ?case
  proof (cases "i \<le> 0 \<or> j \<le> 0")
    case True
    with 1(4,5) show ?thesis by (subst ed.simps) auto
  next
    case False
    then have pos: "\<not> i \<le> 0" "\<not> j \<le> 0" by simp_all
    show ?thesis
    proof (cases "mt (i - 1) (j - 1)")
      case True
      have "2 dvd (ed mt (i - 1) (j - 1) - (i - 1 - (j - 1)))"
        using 1(1) [OF pos True] pos by simp
      moreover have "ed mt i j = ed mt (i - 1) (j - 1)"
        using pos True by (subst ed.simps) simp
      ultimately show ?thesis by simp
    next
      case False
      have "2 dvd (ed mt (i - 1) j - (i - 1 - j))" "2 dvd (ed mt i (j - 1) - (i - (j - 1)))"
        using 1(2) [OF pos False] 1(3) [OF pos False] pos by simp_all
      moreover have "ed mt i j = 1 + min (ed mt (i - 1) j) (ed mt i (j - 1))"
        using pos False by (subst ed.simps) simp
      ultimately show ?thesis
        using parity_step(1) [of "ed mt (i - 1) j" i j "ed mt i j"]
              parity_step(2) [of "ed mt i (j - 1)" i j "ed mt i j"]
        by (cases "ed mt (i - 1) j \<le> ed mt i (j - 1)") (simp_all add: min_def)
    qed
  qed
qed

lemma ed_ge_diff_nat: "\<bar>int n - int m\<bar> \<le> ed mt (int n) (int m)"
proof (induction "n + m" arbitrary: n m rule: less_induct)
  case less
  show ?case
  proof (cases n)
    case 0
    then show ?thesis by simp
  next
    case n: (Suc n')
    show ?thesis
    proof (cases m)
      case 0
      then show ?thesis by simp
    next
      case m: (Suc m')
      have a: "\<bar>int n' - int m'\<bar> \<le> ed mt (int n') (int m')"
        "\<bar>int n' - (int m' + 1)\<bar> \<le> ed mt (int n') (int m' + 1)"
        "\<bar>(int n' + 1) - int m'\<bar> \<le> ed mt (int n' + 1) (int m')"
        using less [of n' m'] less [of n' m] less [of n m'] n m by (simp_all add: add.commute)
      have "ed mt (int n' + 1) (int m' + 1) =
        (if mt (int n') (int m') then ed mt (int n') (int m')
         else 1 + min (ed mt (int n') (int m' + 1)) (ed mt (int n' + 1) (int m')))"
        by (rule ed_step) simp_all
      with a show ?thesis
        unfolding n m by (auto simp: min_def add.commute)
    qed
  qed
qed

lemma ed_ge_diff: "0 \<le> i \<Longrightarrow> 0 \<le> j \<Longrightarrow> \<bar>i - j\<bar> \<le> ed mt i j"
  using ed_ge_diff_nat [of "nat i" "nat j" mt] by simp

lemma ed_nonneg: "0 \<le> i \<Longrightarrow> 0 \<le> j \<Longrightarrow> 0 \<le> ed mt i j"
  using ed_ge_diff [of i j mt] by simp

text \<open>At distance zero every edge from the origin on is a diagonal.\<close>

lemma ed_zero_nat: "ed mt (int n) (int m) = 0 \<Longrightarrow> 0 < n \<Longrightarrow> mt 0 0"
proof (induction n arbitrary: m)
  case 0
  then show ?case by simp
next
  case (Suc n)
  have "\<bar>int (Suc n) - int m\<bar> \<le> 0"
    using ed_ge_diff_nat [of "Suc n" m mt] Suc.prems(1) by simp
  then have m: "m = Suc n" by simp
  have st: "ed mt (int n + 1) (int n + 1) =
    (if mt (int n) (int n) then ed mt (int n) (int n)
     else 1 + min (ed mt (int n) (int n + 1)) (ed mt (int n + 1) (int n)))"
    by (rule ed_step) simp_all
  have nn: "0 \<le> ed mt (int n) (int n + 1)" "0 \<le> ed mt (int n + 1) (int n)"
    by (simp_all add: ed_nonneg)
  from Suc.prems(1) st nn have mt: "mt (int n) (int n)" and z: "ed mt (int n) (int n) = 0"
    unfolding m by (auto simp: add.commute split: if_splits)
  show ?case
  proof (cases n)
    case 0
    with mt show ?thesis by simp
  next
    case (Suc n')
    with Suc.IH [OF z] show ?thesis by simp
  qed
qed

lemma ed_zero: "ed mt i j = 0 \<Longrightarrow> 0 < i \<Longrightarrow> 0 \<le> j \<Longrightarrow> mt 0 0"
  using ed_zero_nat [of mt "nat i" "nat j"] by simp

text \<open>The matches lie in a rectangle: \<open>mt i j\<close> only for \<open>i < N\<close> and \<open>j < M\<close>.\<close>

definition bounded :: "(int \<Rightarrow> int \<Rightarrow> bool) \<Rightarrow> int \<Rightarrow> int \<Rightarrow> bool" where
  "bounded mt N M = (\<forall>i j. mt i j \<longrightarrow> i < N \<and> j < M)"

lemma ed_row_nat:
  assumes "bounded mt N M" "N \<le> i" "0 \<le> i"
  shows "ed mt (i + 1) (int m) = ed mt i (int m) + 1"
proof (induction m)
  case 0
  with assms show ?case by simp
next
  case (Suc m)
  have "\<not> mt i (int m)" using assms(1,2) by (fastforce simp: bounded_def)
  then have "ed mt (i + 1) (int m + 1) = 1 + min (ed mt i (int m + 1)) (ed mt (i + 1) (int m))"
    using assms(3) by (simp add: ed_step)
  moreover have "\<bar>ed mt i (int m + 1) - ed mt i (int m)\<bar> \<le> 1"
    using assms(3) by (intro ed_lipschitz) simp_all
  ultimately show ?case using Suc by (simp add: add.commute min_def)
qed

lemma ed_row:
  "bounded mt N M \<Longrightarrow> N \<le> i \<Longrightarrow> 0 \<le> i \<Longrightarrow> 0 \<le> j \<Longrightarrow> ed mt (i + 1) j = ed mt i j + 1"
  using ed_row_nat [of mt N M i "nat j"] by simp

lemma ed_col_nat:
  assumes "bounded mt N M" "M \<le> j" "0 \<le> j"
  shows "ed mt (int n) (j + 1) = ed mt (int n) j + 1"
proof (induction n)
  case 0
  with assms show ?case by simp
next
  case (Suc n)
  have "\<not> mt (int n) j" using assms(1,2) by (fastforce simp: bounded_def)
  then have "ed mt (int n + 1) (j + 1) = 1 + min (ed mt (int n) (j + 1)) (ed mt (int n + 1) j)"
    using assms(3) by (simp add: ed_step)
  moreover have "\<bar>ed mt (int n + 1) j - ed mt (int n) j\<bar> \<le> 1"
    using assms(3) by (intro ed_lipschitz) simp_all
  ultimately show ?case using Suc by (auto simp: add.commute min_def)
qed

lemma ed_col:
  "bounded mt N M \<Longrightarrow> M \<le> j \<Longrightarrow> 0 \<le> j \<Longrightarrow> 0 \<le> i \<Longrightarrow> ed mt i (j + 1) = ed mt i j + 1"
  using ed_col_nat [of mt N M j "nat i"] by simp

section \<open>Furthest reaching paths\<close>

text \<open>A snake: from \<open>(i, j)\<close> along the diagonal edges.\<close>

function slide :: "(int \<Rightarrow> int \<Rightarrow> bool) \<Rightarrow> int \<Rightarrow> int \<Rightarrow> int \<Rightarrow> int" where
  "slide mt N i j = (if i < N \<and> mt i j then slide mt N (i + 1) (j + 1) else i)"
  by pat_completeness auto
termination
  by (relation "measure (\<lambda>(mt, N, i, j). nat (N - i))") auto

declare slide.simps [simp del]

lemma slide_ge: "i \<le> slide mt N i j"
  by (induction mt N i j rule: slide.induct) (subst slide.simps, auto)

lemma slide_ed:
  "0 \<le> i \<Longrightarrow> 0 \<le> j \<Longrightarrow> ed mt (slide mt N i j) (slide mt N i j - (i - j)) = ed mt i j"
proof (induction mt N i j rule: slide.induct)
  case (1 mt N i j)
  show ?case
  proof (cases "i < N \<and> mt i j")
    case True
    then have s: "slide mt N i j = slide mt N (i + 1) (j + 1)"
      by (subst slide.simps) simp
    have "ed mt (slide mt N (i + 1) (j + 1)) (slide mt N (i + 1) (j + 1) - (i + 1 - (j + 1))) =
      ed mt (i + 1) (j + 1)"
      using 1 True by simp
    also have "\<dots> = ed mt i j"
      using 1(2,3) True by (simp add: ed_step)
    finally show ?thesis unfolding s by simp
  next
    case False
    then have "slide mt N i j = i"
      by (subst slide.simps) auto
    then show ?thesis by simp
  qed
qed

lemma slide_stop:
  "bounded mt N M \<Longrightarrow> \<not> mt (slide mt N i j) (slide mt N i j - (i - j))"
proof (induction mt N i j rule: slide.induct)
  case (1 mt N i j)
  show ?case
  proof (cases "i < N \<and> mt i j")
    case True
    then have s: "slide mt N i j = slide mt N (i + 1) (j + 1)"
      by (subst slide.simps) simp
    show ?thesis
      using 1 True unfolding s by simp
  next
    case False
    then have s: "slide mt N i j = i"
      by (subst slide.simps) auto
    from False 1(2) have "\<not> mt i j" by (fastforce simp: bounded_def)
    then show ?thesis unfolding s by simp
  qed
qed

text \<open>
  \<open>fr mt N d k\<close>: the largest \<open>i\<close> such that the point of diagonal \<open>k\<close> (where
  \<open>i - j = k\<close>) is reached with \<open>d\<close> edges that are not diagonal, computed as the
  greedy algorithm does.
\<close>

fun fr :: "(int \<Rightarrow> int \<Rightarrow> bool) \<Rightarrow> int \<Rightarrow> nat \<Rightarrow> int \<Rightarrow> int" where
  "fr mt N 0 k = slide mt N 0 (0 - k)"
| "fr mt N (Suc d) k =
    (let x = (if k = - int (Suc d) then fr mt N d (k + 1)
              else if k = int (Suc d) then fr mt N d (k - 1) + 1
              else max (fr mt N d (k - 1) + 1) (fr mt N d (k + 1)))
     in slide mt N x (x - k))"

declare fr.simps [simp del]

text \<open>The diagonals that \<open>d\<close> edges can reach.\<close>

definition diag :: "nat \<Rightarrow> int \<Rightarrow> bool" where
  "diag d k = (\<bar>k\<bar> \<le> int d \<and> 2 dvd (int d - k))"

lemma diagD: "diag d k \<Longrightarrow> \<bar>k\<bar> \<le> int d"
  unfolding diag_def by blast

lemma diagE: "diag d k \<Longrightarrow> \<exists>t. int d - k = 2 * t"
  unfolding diag_def dvd_def by blast

lemma diagI: "\<bar>k\<bar> \<le> int d \<Longrightarrow> int d - k = 2 * t \<Longrightarrow> diag d k"
  unfolding diag_def dvd_def by blast

lemma diag_0: "diag 0 k \<longleftrightarrow> k = 0"
  by (auto simp: diag_def)

lemma diag_Suc_lower: "diag (Suc d) k \<Longrightarrow> k \<noteq> int (Suc d) \<Longrightarrow> diag d (k + 1)"
  unfolding diag_def by presburger

lemma diag_Suc_upper: "diag (Suc d) k \<Longrightarrow> k \<noteq> - int (Suc d) \<Longrightarrow> diag d (k - 1)"
  unfolding diag_def by presburger

lemma fr_bounds: "diag d k \<Longrightarrow> 0 \<le> fr mt N d k \<and> k \<le> fr mt N d k"
proof (induction d arbitrary: k)
  case 0
  then show ?case using slide_ge [of 0 mt N 0] by (simp add: diag_0 fr.simps)
next
  case (Suc d)
  let ?x = "(if k = - int (Suc d) then fr mt N d (k + 1)
              else if k = int (Suc d) then fr mt N d (k - 1) + 1
              else max (fr mt N d (k - 1) + 1) (fr mt N d (k + 1)))"
  have "0 \<le> ?x \<and> k \<le> ?x"
  proof (cases "k = - int (Suc d)")
    case True
    then have "diag d (k + 1)" using Suc.prems by (intro diag_Suc_lower) simp_all
    from Suc.IH [OF this] True show ?thesis by simp
  next
    case False
    then have "diag d (k - 1)" using Suc.prems by (intro diag_Suc_upper) simp_all
    from Suc.IH [OF this] False show ?thesis by (auto simp: max_def)
  qed
  moreover have "?x \<le> slide mt N ?x (?x - k)" by (rule slide_ge)
  ultimately show ?case by (simp add: fr.simps Let_def del: of_nat_Suc)
qed

lemma fr_stop: "bounded mt N M \<Longrightarrow> \<not> mt (fr mt N d k) (fr mt N d k - k)"
proof (cases d)
  case 0
  assume "bounded mt N M"
  from slide_stop [OF this, of 0 "0 - k"] 0 show ?thesis by (simp add: fr.simps)
next
  case (Suc d')
  assume b: "bounded mt N M"
  let ?x = "(if k = - int (Suc d') then fr mt N d' (k + 1)
              else if k = int (Suc d') then fr mt N d' (k - 1) + 1
              else max (fr mt N d' (k - 1) + 1) (fr mt N d' (k + 1)))"
  from slide_stop [OF b, of ?x "?x - k"] Suc show ?thesis
    by (simp add: fr.simps Let_def del: of_nat_Suc)
qed

lemma fr_sound: "diag d k \<Longrightarrow> ed mt (fr mt N d k) (fr mt N d k - k) \<le> int d"
proof (induction d arbitrary: k)
  case 0
  then show ?case using slide_ed [of 0 0 mt N] by (simp add: diag_0 fr.simps)
next
  case (Suc d)
  let ?x = "(if k = - int (Suc d) then fr mt N d (k + 1)
              else if k = int (Suc d) then fr mt N d (k - 1) + 1
              else max (fr mt N d (k - 1) + 1) (fr mt N d (k + 1)))"
  have up: "ed mt (fr mt N d (k + 1)) (fr mt N d (k + 1) - k) \<le> int (Suc d)" if "diag d (k + 1)"
  proof -
    let ?f = "fr mt N d (k + 1)"
    have b: "0 \<le> ?f" "0 \<le> ?f - (k + 1)" using fr_bounds [OF that, of mt N] by simp_all
    have "\<bar>ed mt ?f (?f - (k + 1) + 1) - ed mt ?f (?f - (k + 1))\<bar> \<le> 1"
      using b by (intro ed_lipschitz) simp_all
    moreover have "ed mt ?f (?f - (k + 1) + 1) = ed mt ?f (?f - k)" by (simp add: algebra_simps)
    ultimately show ?thesis using Suc.IH [OF that] by simp
  qed
  have left: "ed mt (fr mt N d (k - 1) + 1) (fr mt N d (k - 1) + 1 - k) \<le> int (Suc d)" if "diag d (k - 1)"
  proof -
    let ?f = "fr mt N d (k - 1)"
    have b: "0 \<le> ?f" "0 \<le> ?f - (k - 1)" using fr_bounds [OF that, of mt N] by simp_all
    have "\<bar>ed mt (?f + 1) (?f - (k - 1)) - ed mt ?f (?f - (k - 1))\<bar> \<le> 1"
      using b by (intro ed_lipschitz) simp_all
    moreover have "ed mt (?f + 1) (?f + 1 - k) = ed mt (?f + 1) (?f - (k - 1))" by (simp add: algebra_simps)
    ultimately show ?thesis using Suc.IH [OF that] by simp
  qed
  have x: "ed mt ?x (?x - k) \<le> int (Suc d) \<and> 0 \<le> ?x \<and> 0 \<le> ?x - k"
  proof (cases "k = - int (Suc d)")
    case True
    then have d: "diag d (k + 1)" using Suc.prems by (intro diag_Suc_lower) simp_all
    from up [OF d] fr_bounds [OF d, of mt N] True show ?thesis by simp
  next
    case False
    then have d1: "diag d (k - 1)" using Suc.prems by (intro diag_Suc_upper) simp_all
    show ?thesis
    proof (cases "k = int (Suc d)")
      case True
      from left [OF d1] fr_bounds [OF d1, of mt N] True False show ?thesis by simp
    next
      case k: False
      then have d2: "diag d (k + 1)" using Suc.prems by (intro diag_Suc_lower) simp_all
      from left [OF d1] up [OF d2] fr_bounds [OF d1, of mt N] fr_bounds [OF d2, of mt N] False k
      show ?thesis by (auto simp: max_def)
    qed
  qed
  then have "ed mt (slide mt N ?x (?x - k)) (slide mt N ?x (?x - k) - (?x - (?x - k))) = ed mt ?x (?x - k)"
    by (intro slide_ed) simp_all
  with x show ?case by (simp add: fr.simps Let_def del: of_nat_Suc)
qed

lemma fr_step_ge:
  "diag (Suc d) k \<Longrightarrow>
   (k \<noteq> - int (Suc d) \<longrightarrow> fr mt N d (k - 1) + 1 \<le> fr mt N (Suc d) k) \<and>
   (k \<noteq> int (Suc d) \<longrightarrow> fr mt N d (k + 1) \<le> fr mt N (Suc d) k)"
proof -
  let ?x = "(if k = - int (Suc d) then fr mt N d (k + 1)
              else if k = int (Suc d) then fr mt N d (k - 1) + 1
              else max (fr mt N d (k - 1) + 1) (fr mt N d (k + 1)))"
  have "?x \<le> slide mt N ?x (?x - k)" by (rule slide_ge)
  then have "?x \<le> fr mt N (Suc d) k" by (simp add: fr.simps Let_def del: of_nat_Suc)
  then show ?thesis by (auto simp: max_def split: if_splits)
qed

text \<open>No point of diagonal \<open>k\<close> at distance at most \<open>d\<close> lies further than \<open>fr mt N d k\<close>.\<close>

lemma fr_complete:
  assumes b: "bounded mt N M"
  shows "0 \<le> i \<Longrightarrow> 0 \<le> j \<Longrightarrow> ed mt i j \<le> int d \<Longrightarrow> 2 dvd (int d - (i - j)) \<Longrightarrow>
         i \<le> fr mt N d (i - j)"
proof (induction "nat i + nat j" arbitrary: i j d rule: less_induct)
  case less
  have dg: "diag d (i - j)"
    using ed_ge_diff [OF less.prems(1,2), of mt] less.prems(3,4) by (simp add: diag_def)
  show ?case
  proof (cases "i = 0 \<or> j = 0")
    case True
    with fr_bounds [OF dg, of mt N] show ?thesis by auto
  next
    case False
    with less.prems have pos: "0 < i" "0 < j" by simp_all
    have st: "ed mt i j = (if mt (i - 1) (j - 1) then ed mt (i - 1) (j - 1)
        else 1 + min (ed mt (i - 1) j) (ed mt i (j - 1)))"
      using pos by (subst ed.simps) simp
    show ?thesis
    proof (cases "mt (i - 1) (j - 1)")
      case True
      with st less.prems have "ed mt (i - 1) (j - 1) \<le> int d" by simp
      moreover have "nat (i - 1) + nat (j - 1) < nat i + nat j" using pos by simp
      ultimately have "i - 1 \<le> fr mt N d ((i - 1) - (j - 1))"
        using less.hyps [of "i - 1" "j - 1" d] pos less.prems(4) by simp
      then have le: "i - 1 \<le> fr mt N d (i - j)" by simp
      have "\<not> mt (fr mt N d (i - j)) (fr mt N d (i - j) - (i - j))"
        using b by (rule fr_stop)
      with True have "fr mt N d (i - j) \<noteq> i - 1" by auto
      with le show ?thesis by simp
    next
      case False
      with st have e: "ed mt i j = 1 + min (ed mt (i - 1) j) (ed mt i (j - 1))" by simp
      have nn: "0 \<le> ed mt (i - 1) j" "0 \<le> ed mt i (j - 1)"
        using pos by (simp_all add: ed_nonneg)
      with e less.prems(3) obtain d' where d: "d = Suc d'"
        by (cases d) (auto simp: min_def split: if_splits)
      show ?thesis
      proof (cases "ed mt (i - 1) j \<le> ed mt i (j - 1)")
        case True
        with e less.prems(3) d have le: "ed mt (i - 1) j \<le> int d'" by simp
        have par: "2 dvd (int d' - (i - 1 - j))" using less.prems(4) d by simp presburger
        have "nat (i - 1) + nat j < nat i + nat j" using pos by simp
        then have f: "i - 1 \<le> fr mt N d' (i - 1 - j)"
          using less.hyps [of "i - 1" j d'] pos le par by simp
        have "\<bar>i - 1 - j\<bar> \<le> int d'"
          using ed_ge_diff [of "i - 1" j mt] pos le by simp
        then have "i - j \<noteq> - int (Suc d')" by simp
        then have "fr mt N d' (i - j - 1) + 1 \<le> fr mt N (Suc d') (i - j)"
          using fr_step_ge [of d' "i - j" mt N] dg d by simp
        moreover have "fr mt N d' (i - 1 - j) = fr mt N d' (i - j - 1)" by (simp add: algebra_simps)
        ultimately show ?thesis using f d by simp
      next
        case c: False
        with e less.prems(3) d have le: "ed mt i (j - 1) \<le> int d'" by simp
        have par: "2 dvd (int d' - (i - (j - 1)))" using less.prems(4) d by simp presburger
        have "nat i + nat (j - 1) < nat i + nat j" using pos by simp
        then have f: "i \<le> fr mt N d' (i - (j - 1))"
          using less.hyps [of i "j - 1" d'] pos le par by simp
        have "\<bar>i - (j - 1)\<bar> \<le> int d'"
          using ed_ge_diff [of i "j - 1" mt] pos le by simp
        then have "i - j \<noteq> int (Suc d')" by simp
        then have "fr mt N d' (i - j + 1) \<le> fr mt N (Suc d') (i - j)"
          using fr_step_ge [of d' "i - j" mt N] dg d by simp
        moreover have "fr mt N d' (i - (j - 1)) = fr mt N d' (i - j + 1)" by (simp add: algebra_simps)
        ultimately show ?thesis using f d by simp
      qed
    qed
  qed
qed

text \<open>Where the snake of diagonal \<open>k\<close> starts, one edge after the paths of \<open>d\<close> edges.\<close>

definition fr_start :: "(int \<Rightarrow> int \<Rightarrow> bool) \<Rightarrow> int \<Rightarrow> nat \<Rightarrow> int \<Rightarrow> int" where
  "fr_start mt N d k =
    (if k = - int (Suc d) then fr mt N d (k + 1)
     else if k = int (Suc d) then fr mt N d (k - 1) + 1
     else max (fr mt N d (k - 1) + 1) (fr mt N d (k + 1)))"

lemma fr_Suc: "fr mt N (Suc d) k = slide mt N (fr_start mt N d k) (fr_start mt N d k - k)"
  by (simp add: fr.simps fr_start_def Let_def del: of_nat_Suc)

lemma fr_start_bounds:
  assumes "diag (Suc d) k"
  shows "0 \<le> fr_start mt N d k" "k \<le> fr_start mt N d k"
proof -
  have "0 \<le> fr_start mt N d k \<and> k \<le> fr_start mt N d k"
  proof (cases "k = - int (Suc d)")
    case True
    then have "diag d (k + 1)" using assms by (intro diag_Suc_lower) simp_all
    from fr_bounds [OF this, of mt N] True show ?thesis by (simp add: fr_start_def)
  next
    case False
    then have "diag d (k - 1)" using assms by (intro diag_Suc_upper) simp_all
    from fr_bounds [OF this, of mt N] False show ?thesis by (auto simp: fr_start_def max_def)
  qed
  then show "0 \<le> fr_start mt N d k" "k \<le> fr_start mt N d k" by simp_all
qed

section \<open>The edit graph of two lists\<close>

definition mt_of :: "'a list \<Rightarrow> 'a list \<Rightarrow> int \<Rightarrow> int \<Rightarrow> bool" where
  "mt_of A B i j =
    (0 \<le> i \<and> i < int (length A) \<and> 0 \<le> j \<and> j < int (length B) \<and> A ! nat i = B ! nat j)"

lemma bounded_mt_of: "bounded (mt_of A B) (int (length A)) (int (length B))"
  by (simp add: bounded_def mt_of_def)

lemma ed_mt_of_nat:
  "n \<le> length A \<Longrightarrow> m \<le> length B \<Longrightarrow>
   ed (mt_of A B) (int n) (int m) = dist (take n A) (take m B)"
proof (induction "n + m" arbitrary: n m rule: less_induct)
  case less
  show ?case
  proof (cases n)
    case 0
    with less.prems show ?thesis by simp
  next
    case n: (Suc n')
    show ?thesis
    proof (cases m)
      case 0
      with less.prems show ?thesis by simp
    next
      case m: (Suc m')
      have lt: "n' < length A" "m' < length B" using less.prems n m by simp_all
      have ih: "ed (mt_of A B) (int n') (int m') = dist (take n' A) (take m' B)"
        "ed (mt_of A B) (int n') (int m' + 1) = dist (take n' A) (take (Suc m') B)"
        "ed (mt_of A B) (int n' + 1) (int m') = dist (take (Suc n') A) (take m' B)"
        using less.hyps [of n' m'] less.hyps [of n' m] less.hyps [of n m'] less.prems n m
        by (simp_all add: add.commute)
      have st: "ed (mt_of A B) (int n' + 1) (int m' + 1) =
        (if mt_of A B (int n') (int m') then ed (mt_of A B) (int n') (int m')
         else 1 + min (ed (mt_of A B) (int n') (int m' + 1)) (ed (mt_of A B) (int n' + 1) (int m')))"
        by (rule ed_step) simp_all
      have mt: "mt_of A B (int n') (int m') \<longleftrightarrow> A ! n' = B ! m'"
        using lt by (simp add: mt_of_def)
      have "dist (take (Suc n') A) (take (Suc m') B) =
        (if A ! n' = B ! m' then dist (take n' A) (take m' B)
         else 1 + min (dist (take n' A) (take (Suc m') B)) (dist (take (Suc n') A) (take m' B)))"
        using lt dist_snoc [of "take n' A" "A ! n'" "take m' B" "B ! m'"]
        by (simp add: take_Suc_conv_app_nth)
      with st ih mt show ?thesis
        unfolding n m by (simp add: add.commute)
    qed
  qed
qed

lemma ed_mt_of:
  "0 \<le> i \<Longrightarrow> i \<le> int (length A) \<Longrightarrow> 0 \<le> j \<Longrightarrow> j \<le> int (length B) \<Longrightarrow>
   ed (mt_of A B) i j = dist (take (nat i) A) (take (nat j) B)"
  using ed_mt_of_nat [of "nat i" A "nat j" B] by simp

lemma dist_rev: "dist (rev xs) (rev ys) = dist xs ys"
  by (simp add: dist_def lcs_len_rev)

text \<open>The same graph read from the far corner: the graph of the reversed lists.\<close>

lemma ed_mt_of_rev:
  assumes "0 \<le> i" "i \<le> int (length A)" "0 \<le> j" "j \<le> int (length B)"
  shows "ed (mt_of (rev A) (rev B)) (int (length A) - i) (int (length B) - j) =
         dist (drop (nat i) A) (drop (nat j) B)"
proof -
  have "ed (mt_of (rev A) (rev B)) (int (length A) - i) (int (length B) - j) =
    dist (take (nat (int (length A) - i)) (rev A)) (take (nat (int (length B) - j)) (rev B))"
    using assms by (intro ed_mt_of) simp_all
  also have "\<dots> = dist (rev (drop (nat i) A)) (rev (drop (nat j) B))"
    using assms by (simp add: take_rev nat_diff_distrib')
  finally show ?thesis by (simp add: dist_rev)
qed

lemma dist_take_drop:
  "dist A B \<le> dist (take n A) (take m B) + dist (drop n A) (drop m B)"
  using dist_append_le [of "take n A" "drop n A" "take m B" "drop m B"] by simp

lemma dist_le_sum: "dist A B \<le> int (length A) + int (length B)"
  by (simp add: dist_def)

lemma dist_parity: "2 dvd (dist A B - (int (length A) - int (length B)))"
  by (simp add: dist_def)

section \<open>Where the forward and the backward search meet\<close>

text \<open>
  The forward search runs in the graph of \<open>A\<close> and \<open>B\<close>, the backward search in the
  graph of the reversed lists; a diagonal \<open>k\<close> of the first is the diagonal
  \<open>length A - length B - k\<close> of the second. They overlap on \<open>k\<close> when the backward
  point is not to the right of the forward point.
\<close>

definition cross :: "'a list \<Rightarrow> 'a list \<Rightarrow> nat \<Rightarrow> nat \<Rightarrow> int \<Rightarrow> bool" where
  "cross A B d e k =
    (diag d k \<and> diag e (int (length A) - int (length B) - k) \<and>
     int (length A) \<le>
       fr (mt_of A B) (int (length A)) d k +
       fr (mt_of (rev A) (rev B)) (int (length A)) e (int (length A) - int (length B) - k))"

lemma cross_exists:
  assumes "int d + int e = dist A B"
  shows "\<exists>k. cross A B d e k"
proof -
  let ?N = "int (length A)" and ?M = "int (length B)"
  let ?F = "mt_of A B" and ?R = "mt_of (rev A) (rev B)"
  have "0 \<le> int d" "int d \<le> dist A B" using assms by simp_all
  from dist_split [OF this] obtain i j where ij: "i \<le> length A" "j \<le> length B"
    "dist (take i A) (take j B) \<le> int d" "dist (drop i A) (drop j B) \<le> dist A B - int d"
    by blast
  have tri: "dist A B \<le> dist (take i A) (take j B) + dist (drop i A) (drop j B)"
    by (rule dist_take_drop)
  with ij assms have eq: "dist (take i A) (take j B) = int d" "dist (drop i A) (drop j B) = int e"
    by simp_all
  have f: "ed ?F (int i) (int j) = int d"
    using ed_mt_of [of "int i" A "int j" B] ij eq by simp
  have r: "ed ?R (?N - int i) (?M - int j) = int e"
    using ed_mt_of_rev [of "int i" A "int j" B] ij eq by simp
  let ?k = "int i - int j"
  have pf: "2 dvd (int d - ?k)" using ed_parity [of "int i" "int j" ?F] f by simp
  have pr: "2 dvd (int e - ((?N - int i) - (?M - int j)))"
    using ed_parity [of "?N - int i" "?M - int j" ?R] r ij by simp
  have df: "diag d ?k"
    using ed_ge_diff [of "int i" "int j" ?F] f pf by (simp add: diag_def)
  have dr: "diag e ((?N - int i) - (?M - int j))"
    using ed_ge_diff [of "?N - int i" "?M - int j" ?R] r pr ij by (simp add: diag_def)
  have cf: "int i \<le> fr ?F ?N d ?k"
    using fr_complete [OF bounded_mt_of, of "int i" "int j" A B d] f pf by simp
  have "bounded ?R ?N ?M" using bounded_mt_of [of "rev A" "rev B"] by simp
  from fr_complete [OF this, of "?N - int i" "?M - int j" e] r pr ij
  have cr: "?N - int i \<le> fr ?R ?N e ((?N - int i) - (?M - int j))" by simp
  have k: "(?N - int i) - (?M - int j) = ?N - ?M - ?k" by simp
  from df dr cf cr show ?thesis
    unfolding k by (intro exI [of _ ?k]) (simp add: cross_def)
qed

text \<open>The facts about both points that the lemmas below start from.\<close>

lemma cross_facts:
  assumes "cross A B d e k"
  shows "0 \<le> fr (mt_of A B) (int (length A)) d k"
    and "k \<le> fr (mt_of A B) (int (length A)) d k"
    and "ed (mt_of A B) (fr (mt_of A B) (int (length A)) d k)
           (fr (mt_of A B) (int (length A)) d k - k) \<le> int d"
    and "0 \<le> fr (mt_of (rev A) (rev B)) (int (length A)) e (int (length A) - int (length B) - k)"
    and "int (length A) - int (length B) - k
           \<le> fr (mt_of (rev A) (rev B)) (int (length A)) e (int (length A) - int (length B) - k)"
    and "ed (mt_of (rev A) (rev B))
           (fr (mt_of (rev A) (rev B)) (int (length A)) e (int (length A) - int (length B) - k))
           (fr (mt_of (rev A) (rev B)) (int (length A)) e (int (length A) - int (length B) - k)
              - (int (length A) - int (length B) - k)) \<le> int e"
    and "\<bar>k\<bar> \<le> int d" and "\<bar>int (length A) - int (length B) - k\<bar> \<le> int e"
  using assms fr_bounds [of d k "mt_of A B" "int (length A)"]
    fr_bounds [of e "int (length A) - int (length B) - k" "mt_of (rev A) (rev B)" "int (length A)"]
    fr_sound [of d k "mt_of A B" "int (length A)"]
    fr_sound [of e "int (length A) - int (length B) - k" "mt_of (rev A) (rev B)" "int (length A)"]
  by (simp_all add: cross_def diag_def)

text \<open>A point of the diagonal between both points, inside the rectangle, splits the lists.\<close>

lemma between_split:
  assumes c: "cross A B d e k"
    and t: "0 \<le> t" "t \<le> int (length A)" "0 \<le> t - k" "t - k \<le> int (length B)"
    and tp: "t \<le> fr (mt_of A B) (int (length A)) d k"
    and tq: "int (length A) - t \<le>
       fr (mt_of (rev A) (rev B)) (int (length A)) e (int (length A) - int (length B) - k)"
  shows "dist (take (nat t) A) (take (nat (t - k)) B) \<le> int d"
    and "dist (drop (nat t) A) (drop (nat (t - k)) B) \<le> int e"
proof -
  let ?N = "int (length A)" and ?M = "int (length B)"
  let ?F = "mt_of A B" and ?R = "mt_of (rev A) (rev B)"
  let ?l = "?N - ?M - k"
  let ?p = "fr ?F ?N d k" and ?q = "fr ?R ?N e ?l"
  note cf = cross_facts [OF c]
  have "ed ?F t (t - k) \<le> ed ?F ?p (t - k + (?p - t))"
    using t tp by (intro ed_diag_le) simp_all
  moreover have "t - k + (?p - t) = ?p - k" by simp
  ultimately have "ed ?F t (t - k) \<le> int d" using cf(3) by simp
  then show "dist (take (nat t) A) (take (nat (t - k)) B) \<le> int d"
    using ed_mt_of [of t A "t - k" B] t by simp
  have "ed ?R (?N - t) (?M - (t - k)) \<le> ed ?R ?q (?M - (t - k) + (?q - (?N - t)))"
    using t tq by (intro ed_diag_le) simp_all
  moreover have "?M - (t - k) + (?q - (?N - t)) = ?q - ?l" by simp
  ultimately have "ed ?R (?N - t) (?M - (t - k)) \<le> int e" using cf(6) by simp
  then show "dist (drop (nat t) A) (drop (nat (t - k)) B) \<le> int e"
    using ed_mt_of_rev [of t A "t - k" B] t by simp
qed

lemma cross_diag_in_range:
  assumes c: "cross A B d e k" and de: "int d + int e \<le> int (length A) + int (length B)"
  shows "- int (length B) \<le> k \<and> k \<le> int (length A)"
  using cross_facts(7,8) [OF c] de by linarith

lemma cross_sound:
  assumes c: "cross A B d e k"
  shows "dist A B \<le> int d + int e"
proof (cases "int d + int e \<le> int (length A) + int (length B)")
  case False
  with dist_le_sum [of A B] show ?thesis by simp
next
  case True
  let ?N = "int (length A)" and ?M = "int (length B)"
  let ?l = "?N - ?M - k"
  let ?p = "fr (mt_of A B) ?N d k" and ?q = "fr (mt_of (rev A) (rev B)) ?N e ?l"
  note cf = cross_facts [OF c]
  have ov: "?N \<le> ?p + ?q" using c by (simp add: cross_def)
  have kr: "- ?M \<le> k" "k \<le> ?N" using cross_diag_in_range [OF c True] by simp_all
  let ?t = "max (?N - ?q) (max 0 k)"
  have t: "0 \<le> ?t" "?t \<le> ?N" "0 \<le> ?t - k" "?t - k \<le> ?M" "?t \<le> ?p" "?N - ?t \<le> ?q"
    using cf ov kr by (simp_all add: max_def)
  from between_split [OF c t]
  have "dist (take (nat ?t) A) (take (nat (?t - k)) B) \<le> int d"
       "dist (drop (nat ?t) A) (drop (nat (?t - k)) B) \<le> int e" .
  with dist_take_drop [of A B "nat ?t" "nat (?t - k)"] show ?thesis by simp
qed

text \<open>
  When the two searches have used no more edits than a shortest script has, the
  forward point lies inside the rectangle and cuts a shortest script in two.
\<close>

lemma cross_point:
  assumes c: "cross A B d e k" and de: "int d + int e = dist A B"
  shows "0 \<le> fr (mt_of A B) (int (length A)) d k"
    and "fr (mt_of A B) (int (length A)) d k \<le> int (length A)"
    and "0 \<le> fr (mt_of A B) (int (length A)) d k - k"
    and "fr (mt_of A B) (int (length A)) d k - k \<le> int (length B)"
    and "dist (take (nat (fr (mt_of A B) (int (length A)) d k)) A)
              (take (nat (fr (mt_of A B) (int (length A)) d k - k)) B) = int d"
    and "dist (drop (nat (fr (mt_of A B) (int (length A)) d k)) A)
              (drop (nat (fr (mt_of A B) (int (length A)) d k - k)) B) = int e"
proof -
  let ?N = "int (length A)" and ?M = "int (length B)"
  let ?F = "mt_of A B" and ?R = "mt_of (rev A) (rev B)"
  let ?l = "?N - ?M - k"
  let ?p = "fr ?F ?N d k" and ?q = "fr ?R ?N e ?l"
  note cf = cross_facts [OF c]
  have ov: "?N \<le> ?p + ?q" using c by (simp add: cross_def)
  have D: "dist A B \<le> ?N + ?M" by (rule dist_le_sum)
  have kr: "- ?M \<le> k" "k \<le> ?N"
    using cross_diag_in_range [OF c] de D by simp_all
  let ?t = "min ?N (?M + k)"
  have t0: "0 \<le> ?t" "0 \<le> ?t - k" using kr by (simp_all add: min_def)
  have bF: "bounded ?F ?N ?M" by (rule bounded_mt_of)
  have in_range: "?p \<le> ?t"
  proof (rule ccontr)
    assume "\<not> ?p \<le> ?t"
    then have lt: "?t + 1 \<le> ?p" by linarith
    have "ed ?F (?t + 1) (?t + 1 - k) \<le> ed ?F ?p (?t + 1 - k + (?p - (?t + 1)))"
      using t0 lt by (intro ed_diag_le) simp_all
    moreover have "?t + 1 - k + (?p - (?t + 1)) = ?p - k" by simp
    ultimately have g: "ed ?F (?t + 1) (?t + 1 - k) \<le> int d" using cf(3) by simp
    show False
    proof (cases "?N \<le> ?M + k")
      case True
      then have tN: "?t = ?N" by simp
      have "ed ?F (?N + 1) (?N + 1 - k) = ed ?F ?N (?N + 1 - k) + 1"
        using ed_row [OF bF, of ?N "?N + 1 - k"] kr by simp
      with g tN have h: "ed ?F ?N (?N + 1 - k) \<le> int d - 1" by simp
      show False
      proof (cases "?N + 1 - k \<le> ?M")
        case inr: True
        have "dist (take (nat ?N) A) (take (nat (?N + 1 - k)) B) \<le> int d - 1"
          using ed_mt_of [of ?N A "?N + 1 - k" B] h kr inr by simp
        moreover have "dist (drop (nat ?N) A) (drop (nat (?N + 1 - k)) B) = ?M - (?N + 1 - k)"
          using kr inr by simp
        ultimately have "dist A B \<le> int d - 1 + (?M - (?N + 1 - k))"
          using dist_take_drop [of A B "nat ?N" "nat (?N + 1 - k)"] by simp
        with cf(8) de show False by simp
      next
        case False
        with True have k: "?N + 1 - k = ?M + 1" by simp
        have "ed ?F ?N (?M + 1) = ed ?F ?N ?M + 1"
          using ed_col [OF bF, of ?M ?N] by simp
        moreover have "ed ?F ?N ?M = dist A B"
          using ed_mt_of [of ?N A ?M B] by simp
        ultimately show False using h de unfolding k by simp
      qed
    next
      case False
      then have tM: "?t = ?M + k" "?M + k + 1 \<le> ?N" by simp_all
      have "ed ?F (?M + k + 1) (?M + 1) = ed ?F (?M + k + 1) ?M + 1"
        using ed_col [OF bF, of ?M "?M + k + 1"] kr by simp
      moreover have "?M + k + 1 - k = ?M + 1" by simp
      ultimately have h: "ed ?F (?M + k + 1) ?M \<le> int d - 1" using g tM(1) by simp
      have "dist (take (nat (?M + k + 1)) A) (take (nat ?M) B) \<le> int d - 1"
        using ed_mt_of [of "?M + k + 1" A ?M B] h kr tM(2) by simp
      moreover have "dist (drop (nat (?M + k + 1)) A) (drop (nat ?M) B) = ?N - (?M + k + 1)"
        using kr tM(2) by simp
      ultimately have "dist A B \<le> int d - 1 + (?N - (?M + k + 1))"
        using dist_take_drop [of A B "nat (?M + k + 1)" "nat ?M"] by simp
      with cf(8) de show False by simp
    qed
  qed
  show p: "0 \<le> ?p" "?p \<le> ?N" "0 \<le> ?p - k" "?p - k \<le> ?M"
    using cf(1,2) in_range by simp_all
  have "?N - ?p \<le> ?q" using ov by simp
  from between_split [OF c p _ this]
  have le: "dist (take (nat ?p) A) (take (nat (?p - k)) B) \<le> int d"
           "dist (drop (nat ?p) A) (drop (nat (?p - k)) B) \<le> int e"
    by simp_all
  with dist_take_drop [of A B "nat ?p" "nat (?p - k)"] de
  show "dist (take (nat ?p) A) (take (nat (?p - k)) B) = int d"
       "dist (drop (nat ?p) A) (drop (nat (?p - k)) B) = int e"
    by simp_all
qed

text \<open>Lists whose first elements differ and whose last elements differ are two edits apart at least.\<close>

lemma dist_ge_2:
  assumes "A \<noteq> []" "B \<noteq> []" "hd A \<noteq> hd B" "last A \<noteq> last B"
  shows "2 \<le> dist A B"
proof -
  let ?N = "int (length A)" and ?M = "int (length B)"
  let ?F = "mt_of A B"
  have pos: "0 < ?N" "0 < ?M" using assms by simp_all
  have e: "ed ?F ?N ?M = dist A B" using ed_mt_of [of ?N A ?M B] by simp
  have no0: "\<not> ?F 0 0" using assms by (simp add: mt_of_def hd_conv_nth)
  have nol: "\<not> ?F (?N - 1) (?M - 1)"
    using assms pos by (simp add: mt_of_def last_conv_nth nat_diff_distrib')
  have z: "ed ?F i j \<noteq> 0" if "0 < i" "0 \<le> j" for i j
    using ed_zero [of ?F i j] that no0 by auto
  have st: "ed ?F ?N ?M = 1 + min (ed ?F (?N - 1) ?M) (ed ?F ?N (?M - 1))"
    using pos nol by (subst ed.simps) simp
  have nn: "0 \<le> ed ?F (?N - 1) ?M" "0 \<le> ed ?F ?N (?M - 1)"
    using pos by (simp_all add: ed_nonneg)
  have a: "ed ?F (?N - 1) ?M \<noteq> 0"
  proof
    assume h: "ed ?F (?N - 1) ?M = 0"
    then have "\<bar>?N - 1 - ?M\<bar> \<le> 0" using ed_ge_diff [of "?N - 1" ?M ?F] pos by simp
    then have "0 < ?N - 1" using pos by simp
    with z [of "?N - 1" ?M] h show False by simp
  qed
  have b: "ed ?F ?N (?M - 1) \<noteq> 0"
    using z [of ?N "?M - 1"] pos by simp
  from st nn a b e show ?thesis by (simp add: min_def split: if_splits)
qed

section \<open>The middle snake search computes furthest reaching paths\<close>

text \<open>The part of a code array between two positions.\<close>

definition slice :: "'c list \<Rightarrow> int \<Rightarrow> int \<Rightarrow> 'c list" where
  "slice a l u = take (nat (u - l)) (drop (nat l) a)"

lemma length_slice: "0 \<le> l \<Longrightarrow> l \<le> u \<Longrightarrow> u \<le> int (length a) \<Longrightarrow> int (length (slice a l u)) = u - l"
  by (simp add: slice_def)

lemma slice_nth:
  "0 \<le> l \<Longrightarrow> u \<le> int (length a) \<Longrightarrow> 0 \<le> i \<Longrightarrow> l + i < u \<Longrightarrow>
   slice a l u ! nat i = a ! nat (l + i) \<and> at_index a (l + i) = Some (a ! nat (l + i))"
  by (simp add: slice_def at_index_def nat_add_distrib)

text \<open>An environment whose ranges lie inside the code arrays.\<close>

definition wf_env :: "'c sms_env \<Rightarrow> bool" where
  "wf_env E =
    (0 \<le> lhs_lower E \<and> lhs_lower E \<le> lhs_upper E \<and> lhs_upper E \<le> int (length (lhs_codes E)) \<and>
     0 \<le> rhs_lower E \<and> rhs_lower E \<le> rhs_upper E \<and> rhs_upper E \<le> int (length (rhs_codes E)) \<and>
     kdown E = lhs_lower E - rhs_lower E \<and> kup E = lhs_upper E - rhs_upper E \<and>
     is_odd E = (\<not> 2 dvd ((lhs_upper E - lhs_lower E) - (rhs_upper E - rhs_lower E))))"

definition lhs_part :: "'c sms_env \<Rightarrow> 'c list" where
  "lhs_part E = slice (lhs_codes E) (lhs_lower E) (lhs_upper E)"

definition rhs_part :: "'c sms_env \<Rightarrow> 'c list" where
  "rhs_part E = slice (rhs_codes E) (rhs_lower E) (rhs_upper E)"

lemma wf_lengths:
  assumes "wf_env E"
  shows "int (length (lhs_part E)) = lhs_upper E - lhs_lower E"
    and "int (length (rhs_part E)) = rhs_upper E - rhs_lower E"
  using assms by (simp_all add: wf_env_def lhs_part_def rhs_part_def length_slice)

lemma mt_of_parts:
  assumes wf: "wf_env E" and ij: "0 \<le> i" "0 \<le> j"
  shows "(lhs_lower E + i < lhs_upper E \<and> rhs_lower E + j < rhs_upper E \<and>
          at_index (lhs_codes E) (lhs_lower E + i) = at_index (rhs_codes E) (rhs_lower E + j))
         \<longleftrightarrow> (i < int (length (lhs_part E)) \<and> mt_of (lhs_part E) (rhs_part E) i j)"
proof (cases "lhs_lower E + i < lhs_upper E \<and> rhs_lower E + j < rhs_upper E")
  case True
  have a: "lhs_part E ! nat i = lhs_codes E ! nat (lhs_lower E + i)"
          "at_index (lhs_codes E) (lhs_lower E + i) = Some (lhs_codes E ! nat (lhs_lower E + i))"
    using slice_nth [of "lhs_lower E" "lhs_upper E" "lhs_codes E" i] wf ij True
    by (simp_all add: wf_env_def lhs_part_def)
  have b: "rhs_part E ! nat j = rhs_codes E ! nat (rhs_lower E + j)"
          "at_index (rhs_codes E) (rhs_lower E + j) = Some (rhs_codes E ! nat (rhs_lower E + j))"
    using slice_nth [of "rhs_lower E" "rhs_upper E" "rhs_codes E" j] wf ij True
    by (simp_all add: wf_env_def rhs_part_def)
  from True a b ij wf_lengths [OF wf] show ?thesis
    by (simp add: mt_of_def)
next
  case False
  with ij wf_lengths [OF wf] show ?thesis
    by (auto simp: mt_of_def)
qed

lemma snake_down_slide:
  assumes wf: "wf_env E"
  shows "0 \<le> i \<Longrightarrow> 0 \<le> j \<Longrightarrow>
    snake_down E (lhs_lower E + i) (rhs_lower E + j) =
    lhs_lower E + slide (mt_of (lhs_part E) (rhs_part E)) (int (length (lhs_part E))) i j"
proof (induction "mt_of (lhs_part E) (rhs_part E)" "int (length (lhs_part E))" i j rule: slide.induct)
  case (1 i j)
  let ?c = "i < int (length (lhs_part E)) \<and> mt_of (lhs_part E) (rhs_part E) i j"
  show ?case
  proof (cases ?c)
    case True
    then have "snake_down E (lhs_lower E + i) (rhs_lower E + j) =
      snake_down E (lhs_lower E + (i + 1)) (rhs_lower E + (j + 1))"
      using mt_of_parts [OF wf 1(2,3)] by (subst snake_down.simps) (simp add: add.assoc)
    also have "\<dots> = lhs_lower E +
      slide (mt_of (lhs_part E) (rhs_part E)) (int (length (lhs_part E))) (i + 1) (j + 1)"
      using 1 True by simp
    also have "\<dots> = lhs_lower E + slide (mt_of (lhs_part E) (rhs_part E)) (int (length (lhs_part E))) i j"
      using True by (subst (2) slide.simps) simp
    finally show ?thesis .
  next
    case False
    then have "snake_down E (lhs_lower E + i) (rhs_lower E + j) = lhs_lower E + i"
      using mt_of_parts [OF wf 1(2,3)] by (subst snake_down.simps) auto
    moreover have "slide (mt_of (lhs_part E) (rhs_part E)) (int (length (lhs_part E))) i j = i"
      using False by (subst slide.simps) auto
    ultimately show ?thesis by simp
  qed
qed

lemma rev_nth_int:
  assumes "0 \<le> i" "i < int (length xs)"
  shows "rev xs ! nat i = xs ! nat (int (length xs) - i - 1)"
proof -
  have "nat i < length xs" using assms by simp
  moreover have "nat (int (length xs) - i - 1) = length xs - Suc (nat i)"
    using assms by linarith
  ultimately show ?thesis by (simp add: rev_nth)
qed

lemma mt_of_rev_parts:
  assumes wf: "wf_env E" and ij: "0 \<le> i" "0 \<le> j"
  shows "(lhs_upper E - i > lhs_lower E \<and> rhs_upper E - j > rhs_lower E \<and>
          at_index (lhs_codes E) (lhs_upper E - i - 1) = at_index (rhs_codes E) (rhs_upper E - j - 1))
         \<longleftrightarrow> (i < int (length (lhs_part E)) \<and> mt_of (rev (lhs_part E)) (rev (rhs_part E)) i j)"
proof (cases "lhs_upper E - i > lhs_lower E \<and> rhs_upper E - j > rhs_lower E")
  case True
  let ?i' = "lhs_upper E - lhs_lower E - i - 1" and ?j' = "rhs_upper E - rhs_lower E - j - 1"
  have a: "lhs_part E ! nat ?i' = lhs_codes E ! nat (lhs_lower E + ?i')"
          "at_index (lhs_codes E) (lhs_lower E + ?i') = Some (lhs_codes E ! nat (lhs_lower E + ?i'))"
    using slice_nth [of "lhs_lower E" "lhs_upper E" "lhs_codes E" ?i'] wf ij True
    by (simp_all add: wf_env_def lhs_part_def)
  have b: "rhs_part E ! nat ?j' = rhs_codes E ! nat (rhs_lower E + ?j')"
          "at_index (rhs_codes E) (rhs_lower E + ?j') = Some (rhs_codes E ! nat (rhs_lower E + ?j'))"
    using slice_nth [of "rhs_lower E" "rhs_upper E" "rhs_codes E" ?j'] wf ij True
    by (simp_all add: wf_env_def rhs_part_def)
  have e: "lhs_lower E + ?i' = lhs_upper E - i - 1" "rhs_lower E + ?j' = rhs_upper E - j - 1"
    by simp_all
  have ra: "rev (lhs_part E) ! nat i = lhs_part E ! nat ?i'"
    using rev_nth_int [of i "lhs_part E"] True ij wf_lengths(1) [OF wf] by simp
  have rb: "rev (rhs_part E) ! nat j = rhs_part E ! nat ?j'"
    using rev_nth_int [of j "rhs_part E"] True ij wf_lengths(2) [OF wf] by simp
  from True a b ij wf_lengths [OF wf] ra rb show ?thesis
    unfolding e by (simp add: mt_of_def)
next
  case False
  with ij wf_lengths [OF wf] show ?thesis
    by (auto simp: mt_of_def)
qed

lemma snake_up_slide:
  assumes wf: "wf_env E"
  shows "0 \<le> i \<Longrightarrow> 0 \<le> j \<Longrightarrow>
    snake_up E (lhs_upper E - i) (rhs_upper E - j) =
    lhs_upper E - slide (mt_of (rev (lhs_part E)) (rev (rhs_part E))) (int (length (lhs_part E))) i j"
proof (induction "mt_of (rev (lhs_part E)) (rev (rhs_part E))" "int (length (lhs_part E))" i j rule: slide.induct)
  case (1 i j)
  let ?c = "i < int (length (lhs_part E)) \<and> mt_of (rev (lhs_part E)) (rev (rhs_part E)) i j"
  show ?case
  proof (cases ?c)
    case True
    then have "snake_up E (lhs_upper E - i) (rhs_upper E - j) =
      snake_up E (lhs_upper E - i - 1) (rhs_upper E - j - 1)"
      using mt_of_rev_parts [OF wf 1(2,3)] by (subst snake_up.simps) simp
    also have "\<dots> = snake_up E (lhs_upper E - (i + 1)) (rhs_upper E - (j + 1))"
      by (simp add: algebra_simps)
    also have "\<dots> = lhs_upper E -
      slide (mt_of (rev (lhs_part E)) (rev (rhs_part E))) (int (length (lhs_part E))) (i + 1) (j + 1)"
      using 1 True by simp
    also have "\<dots> = lhs_upper E -
      slide (mt_of (rev (lhs_part E)) (rev (rhs_part E))) (int (length (lhs_part E))) i j"
      using True by (subst (2) slide.simps) simp
    finally show ?thesis .
  next
    case False
    then have "snake_up E (lhs_upper E - i) (rhs_upper E - j) = lhs_upper E - i"
      using mt_of_rev_parts [OF wf 1(2,3)] by (subst snake_up.simps) auto
    moreover have "slide (mt_of (rev (lhs_part E)) (rev (rhs_part E))) (int (length (lhs_part E))) i j = i"
      using False by (subst slide.simps) auto
    ultimately show ?thesis by simp
  qed
qed

text \<open>The points of both searches after \<open>d\<close> rounds, in the positions of the arrays.\<close>

definition fwd_x :: "'c sms_env \<Rightarrow> nat \<Rightarrow> int \<Rightarrow> int" where
  "fwd_x E d k =
    lhs_lower E + fr (mt_of (lhs_part E) (rhs_part E)) (int (length (lhs_part E))) d k"

definition bwd_x :: "'c sms_env \<Rightarrow> nat \<Rightarrow> int \<Rightarrow> int" where
  "bwd_x E d l =
    lhs_upper E - fr (mt_of (rev (lhs_part E)) (rev (rhs_part E))) (int (length (lhs_part E))) d l"

text \<open>
  What the vectors hold: after round \<open>d\<close> of a loop, the slot of every diagonal of
  that round holds its point; before round \<open>d\<close>, the slots of the round before do, or
  the one slot set before the first round.
\<close>

definition down_done :: "'c sms_env \<Rightarrow> nat \<Rightarrow> vec \<Rightarrow> bool" where
  "down_done E d vd = (\<forall>k. diag d k \<longrightarrow> vd (offset_down E + kdown E + k) = Some (fwd_x E d k))"

definition down_ready :: "'c sms_env \<Rightarrow> nat \<Rightarrow> vec \<Rightarrow> bool" where
  "down_ready E d vd =
    (case d of 0 \<Rightarrow> vd (offset_down E + kdown E + 1) = Some (lhs_lower E)
     | Suc d' \<Rightarrow> down_done E d' vd)"

definition up_done :: "'c sms_env \<Rightarrow> nat \<Rightarrow> vec \<Rightarrow> bool" where
  "up_done E d vu = (\<forall>l. diag d l \<longrightarrow> vu (offset_up E + kup E - l) = Some (bwd_x E d l))"

definition up_ready :: "'c sms_env \<Rightarrow> nat \<Rightarrow> vec \<Rightarrow> bool" where
  "up_ready E d vu =
    (case d of 0 \<Rightarrow> vu (offset_up E + kup E - 1) = Some (lhs_upper E)
     | Suc d' \<Rightarrow> up_done E d' vu)"

lemma down_start_eq:
  assumes "down_done E d vd" "diag (Suc d) k"
  shows "down_start E vd (int (Suc d)) (kdown E + k) =
    Some (lhs_lower E + fr_start (mt_of (lhs_part E) (rhs_part E)) (int (length (lhs_part E))) d k)"
proof -
  let ?fr = "fr (mt_of (lhs_part E) (rhs_part E)) (int (length (lhs_part E))) d"
  have i: "offset_down E + (kdown E + k) + 1 = offset_down E + kdown E + (k + 1)"
          "offset_down E + (kdown E + k) - 1 = offset_down E + kdown E + (k - 1)"
    by simp_all
  have up: "vd (offset_down E + (kdown E + k) + 1) = Some (lhs_lower E + ?fr (k + 1))"
    if "k \<noteq> int (Suc d)"
    unfolding i using assms that diag_Suc_lower [of d k] by (simp add: down_done_def fwd_x_def)
  have lo: "vd (offset_down E + (kdown E + k) - 1) = Some (lhs_lower E + ?fr (k - 1))"
    if "k \<noteq> - int (Suc d)"
    unfolding i using assms that diag_Suc_upper [of d k] by (simp add: down_done_def fwd_x_def)
  have r: "\<bar>k\<bar> \<le> int (Suc d)" using assms(2) by (simp add: diag_def)
  have c: "(kdown E + k = kdown E - int (Suc d)) = (k = - int (Suc d))"
          "(kdown E + k < kdown E + int (Suc d)) = (k \<noteq> int (Suc d))"
    using r by auto
  show ?thesis
  proof (cases "k = - int (Suc d)")
    case True
    then have "k \<noteq> int (Suc d)" by simp
    from up [OF this] True show ?thesis
      unfolding down_start_def c fr_start_def by (simp only: simp_thms if_True)
  next
    case False
    show ?thesis
    proof (cases "k = int (Suc d)")
      case True
      with lo [OF False] False show ?thesis
        unfolding down_start_def c fr_start_def Let_def
        by ((simp only: if_False if_True simp_thms js_add_def option.map add.assoc)?; auto)
    next
      case k: False
      from lo [OF False] up [OF k] False k show ?thesis
        unfolding down_start_def c fr_start_def Let_def
        by ((simp only: if_False if_True simp_thms js_add_def js_le_def option.map
            option.case prod.case max_def add.assoc)?; auto)
    qed
  qed
qed

lemma down_point_eq:
  assumes wf: "wf_env E" and rd: "down_ready E d vd" and dg: "diag d k"
  shows "down_point E vd (int d) (kdown E + k) = Some (fwd_x E d k)"
proof (cases d)
  case 0
  with dg have k: "k = 0" by (simp add: diag_0)
  have "down_start E vd 0 (kdown E) = Some (lhs_lower E)"
    using rd 0 by (simp add: down_start_def down_ready_def)
  moreover have "snake_down E (lhs_lower E + 0) (rhs_lower E + 0) =
    lhs_lower E + slide (mt_of (lhs_part E) (rhs_part E)) (int (length (lhs_part E))) 0 0"
    by (rule snake_down_slide [OF wf]) simp_all
  moreover have "lhs_lower E - kdown E = rhs_lower E" using wf by (simp add: wf_env_def)
  ultimately show ?thesis
    using 0 k by (simp add: down_point_def fwd_x_def fr.simps)
next
  case (Suc d')
  let ?x = "fr_start (mt_of (lhs_part E) (rhs_part E)) (int (length (lhs_part E))) d' k"
  have dd: "diag (Suc d') k" using dg Suc by simp
  have s: "down_start E vd (int d) (kdown E + k) = Some (lhs_lower E + ?x)"
    using down_start_eq [of E d' vd k] rd dd Suc by (simp add: down_ready_def)
  have b: "0 \<le> ?x" "0 \<le> ?x - k" using fr_start_bounds [OF dd] by simp_all
  have "snake_down E (lhs_lower E + ?x) (rhs_lower E + (?x - k)) =
    lhs_lower E + slide (mt_of (lhs_part E) (rhs_part E)) (int (length (lhs_part E))) ?x (?x - k)"
    using b by (rule snake_down_slide [OF wf])
  moreover have y: "lhs_lower E + ?x - (kdown E + k) = rhs_lower E + (?x - k)"
    using wf by (simp add: wf_env_def)
  ultimately have "snake_down E (lhs_lower E + ?x) (lhs_lower E + ?x - (kdown E + k)) = fwd_x E d k"
    unfolding y using Suc by (simp add: fwd_x_def fr_Suc)
  then show ?thesis
    unfolding down_point_def s by simp
qed

lemma up_start_eq:
  assumes "up_done E d vu" "diag (Suc d) l"
  shows "up_start E vu (int (Suc d)) (kup E - l) =
    Some (lhs_upper E -
      fr_start (mt_of (rev (lhs_part E)) (rev (rhs_part E))) (int (length (lhs_part E))) d l)"
proof -
  let ?fr = "fr (mt_of (rev (lhs_part E)) (rev (rhs_part E))) (int (length (lhs_part E))) d"
  have i: "offset_up E + (kup E - l) - 1 = offset_up E + kup E - (l + 1)"
          "offset_up E + (kup E - l) + 1 = offset_up E + kup E - (l - 1)"
    by simp_all
  have up: "vu (offset_up E + (kup E - l) - 1) = Some (lhs_upper E - ?fr (l + 1))"
    if "l \<noteq> int (Suc d)"
    unfolding i using assms that diag_Suc_lower [of d l] by (simp add: up_done_def bwd_x_def)
  have lo: "vu (offset_up E + (kup E - l) + 1) = Some (lhs_upper E - ?fr (l - 1))"
    if "l \<noteq> - int (Suc d)"
    unfolding i using assms that diag_Suc_upper [of d l] by (simp add: up_done_def bwd_x_def)
  have r: "\<bar>l\<bar> \<le> int (Suc d)" using assms(2) by (simp add: diag_def)
  have c: "(kup E - l = kup E + int (Suc d)) = (l = - int (Suc d))"
          "(kup E - l > kup E - int (Suc d)) = (l \<noteq> int (Suc d))"
    using r by auto
  have m: "(lhs_upper E - ?fr (l + 1) < lhs_upper E - ?fr (l - 1) + - 1) =
           (\<not> ?fr (l + 1) \<le> ?fr (l - 1) + 1)"
    by auto
  have n: "lhs_upper E - ?fr (l - 1) + - 1 = lhs_upper E - (?fr (l - 1) + 1)" by simp
  show ?thesis
  proof (cases "l = - int (Suc d)")
    case True
    then have "l \<noteq> int (Suc d)" by simp
    from up [OF this] True show ?thesis
      unfolding up_start_def c fr_start_def by (simp only: simp_thms if_True)
  next
    case False
    show ?thesis
    proof (cases "l = int (Suc d)")
      case True
      with lo [OF False] False show ?thesis
        unfolding up_start_def c fr_start_def Let_def
        by ((simp only: if_False if_True simp_thms js_add_def option.map n)?; auto)
    next
      case k: False
      from lo [OF False] up [OF k] False k show ?thesis
        unfolding up_start_def c fr_start_def Let_def
        by ((simp only: if_False if_True simp_thms js_add_def js_lt_def option.map
            option.case prod.case max_def m n)?; auto)
    qed
  qed
qed

lemma up_point_eq:
  assumes wf: "wf_env E" and rd: "up_ready E d vu" and dg: "diag d l"
  shows "up_point E vu (int d) (kup E - l) = Some (bwd_x E d l)"
proof (cases d)
  case 0
  with dg have l: "l = 0" by (simp add: diag_0)
  have "up_start E vu 0 (kup E) = Some (lhs_upper E)"
    using rd 0 by (simp add: up_start_def up_ready_def)
  moreover have "snake_up E (lhs_upper E - 0) (rhs_upper E - 0) =
    lhs_upper E - slide (mt_of (rev (lhs_part E)) (rev (rhs_part E))) (int (length (lhs_part E))) 0 0"
    by (rule snake_up_slide [OF wf]) simp_all
  moreover have "lhs_upper E - kup E = rhs_upper E" using wf by (simp add: wf_env_def)
  ultimately show ?thesis
    using 0 l by (simp add: up_point_def bwd_x_def fr.simps)
next
  case (Suc d')
  let ?x = "fr_start (mt_of (rev (lhs_part E)) (rev (rhs_part E))) (int (length (lhs_part E))) d' l"
  have dd: "diag (Suc d') l" using dg Suc by simp
  have s: "up_start E vu (int d) (kup E - l) = Some (lhs_upper E - ?x)"
    using up_start_eq [of E d' vu l] rd dd Suc by (simp add: up_ready_def)
  have b: "0 \<le> ?x" "0 \<le> ?x - l" using fr_start_bounds [OF dd] by simp_all
  have "snake_up E (lhs_upper E - ?x) (rhs_upper E - (?x - l)) =
    lhs_upper E - slide (mt_of (rev (lhs_part E)) (rev (rhs_part E))) (int (length (lhs_part E))) ?x (?x - l)"
    using b by (rule snake_up_slide [OF wf])
  moreover have y: "lhs_upper E - ?x - (kup E - l) = rhs_upper E - (?x - l)"
    using wf by (simp add: wf_env_def)
  ultimately have "snake_up E (lhs_upper E - ?x) (lhs_upper E - ?x - (kup E - l)) = bwd_x E d l"
    unfolding y using Suc by (simp add: bwd_x_def fr_Suc)
  then show ?thesis
    unfolding up_point_def s by simp
qed

text \<open>The overlap tests of both loops, on the points that the vectors hold.\<close>

definition down_hit :: "'c sms_env \<Rightarrow> nat \<Rightarrow> int \<Rightarrow> bool" where
  "down_hit E d k =
    (is_odd E \<and> kup E - int d < kdown E + k \<and> kdown E + k < kup E + int d \<and>
     bwd_x E (d - 1) (kup E - (kdown E + k)) \<le> fwd_x E d k)"

definition up_hit :: "'c sms_env \<Rightarrow> nat \<Rightarrow> int \<Rightarrow> bool" where
  "up_hit E d l =
    (\<not> is_odd E \<and> kdown E - int d \<le> kup E - l \<and> kup E - l \<le> kdown E + int d \<and>
     bwd_x E d l \<le> fwd_x E d (kup E - l - kdown E))"

lemma diag_neighbour: "diag (Suc d) k \<Longrightarrow> diag d k' \<Longrightarrow> k \<noteq> k'"
proof
  assume a: "diag (Suc d) k" "diag d k'" "k = k'"
  from diagE [OF a(1)] obtain t where t: "int (Suc d) - k = 2 * t" by blast
  from diagE [OF a(2)] obtain u where u: "int d - k' = 2 * u" by blast
  from t u a(3) have "2 * (t - u) = 1" by simp
  then show False by presburger
qed

lemma diag_next: "diag d k \<Longrightarrow> diag d k' \<Longrightarrow> k' < k + 2 \<Longrightarrow> k' \<le> k"
proof (rule ccontr)
  assume a: "diag d k" "diag d k'" "k' < k + 2" "\<not> k' \<le> k"
  then have k': "k' = k + 1" by simp
  from diagE [OF a(1)] obtain t where t: "int d - k = 2 * t" by blast
  from diagE [OF a(2)] obtain u where u: "int d - k' = 2 * u" by blast
  from t u k' have "2 * (t - u) = 1" by simp
  then show False by presburger
qed

lemma diag_from_position:
  assumes "k = - int d + 2 * int m" "k \<le> int d"
  shows "diag d k"
proof -
  have "int d - k = 2 * (int d - int m)" using assms(1) by simp
  moreover have "\<bar>k\<bar> \<le> int d" using assms by simp
  ultimately show ?thesis by (intro diagI)
qed

lemma diag_back_odd:
  assumes "diag (Suc d) k" "b - a = 2 * u + 1" "b - int (Suc d) < a + k" "a + k < b + int (Suc d)"
  shows "diag d (b - (a + k))"
proof -
  from diagE [OF assms(1)] obtain t where t: "int (Suc d) - k = 2 * t" by blast
  have "int d - (b - (a + k)) = 2 * (t - u - 1 + k)" using t assms(2) by simp
  moreover have "\<bar>b - (a + k)\<bar> \<le> int d" using assms(3,4) by simp
  ultimately show ?thesis by (intro diagI)
qed

lemma diag_back_even:
  assumes "diag d l" "b - a = 2 * u" "a - int d \<le> b - l" "b - l \<le> a + int d"
  shows "diag d (b - l - a)"
proof -
  from diagE [OF assms(1)] obtain t where t: "int d - l = 2 * t" by blast
  have "int d - (b - l - a) = 2 * (t - u + l)" using t assms(2) by simp
  moreover have "\<bar>b - l - a\<bar> \<le> int d" using assms(3,4) by simp
  ultimately show ?thesis by (intro diagI)
qed

lemma wf_odd:
  assumes "wf_env E" "is_odd E"
  shows "\<exists>u. kup E - kdown E = 2 * u + 1"
proof -
  from assms have "\<not> 2 dvd ((lhs_upper E - lhs_lower E) - (rhs_upper E - rhs_lower E))"
    unfolding wf_env_def by blast
  then obtain u where "(lhs_upper E - lhs_lower E) - (rhs_upper E - rhs_lower E) = 2 * u + 1"
    by (elim oddE)
  moreover have "kup E - kdown E = (lhs_upper E - lhs_lower E) - (rhs_upper E - rhs_lower E)"
    using assms(1) unfolding wf_env_def by linarith
  ultimately show ?thesis by (intro exI [of _ u]) (simp only:)
qed

lemma wf_even:
  assumes "wf_env E" "\<not> is_odd E"
  shows "\<exists>u. kup E - kdown E = 2 * u"
proof -
  from assms have "2 dvd ((lhs_upper E - lhs_lower E) - (rhs_upper E - rhs_lower E))"
    unfolding wf_env_def by blast
  then obtain u where "(lhs_upper E - lhs_lower E) - (rhs_upper E - rhs_lower E) = 2 * u"
    by (elim dvdE)
  moreover have "kup E - kdown E = (lhs_upper E - lhs_lower E) - (rhs_upper E - rhs_lower E)"
    using assms(1) unfolding wf_env_def by linarith
  ultimately show ?thesis by (intro exI [of _ u]) (simp only:)
qed

lemma down_ready_update:
  assumes "down_ready E d vd" "diag d k"
  shows "down_ready E d (vd(offset_down E + (kdown E + k) := v))"
proof (cases d)
  case 0
  with assms show ?thesis by (simp add: down_ready_def diag_0)
next
  case (Suc d')
  have "k' \<noteq> k" if "diag d' k'" for k'
    using diag_neighbour [of d' k k'] assms(2) Suc that by auto
  with assms(1) Suc show ?thesis
    by (auto simp: down_ready_def down_done_def)
qed

lemma up_ready_update:
  assumes "up_ready E d vu" "diag d l"
  shows "up_ready E d (vu(offset_up E + (kup E - l) := v))"
proof (cases d)
  case 0
  with assms show ?thesis by (simp add: up_ready_def diag_0)
next
  case (Suc d')
  have "l' \<noteq> l" if "diag d' l'" for l'
    using diag_neighbour [of d' l l'] assms(2) Suc that by auto
  with assms(1) Suc show ?thesis
    by (auto simp: up_ready_def up_done_def)
qed

text \<open>
  One round of the forward loop from diagonal \<open>k\<close> on: it returns the first point
  that passes the overlap test, or it leaves the points of the round in \<open>vector_d\<close>.
\<close>

lemma down_loop_spec:
  assumes wf: "wf_env E"
    and up: "0 < d \<and> is_odd E \<longrightarrow> up_done E (d - 1) vu"
  shows "down_ready E d vd \<Longrightarrow>
    (\<forall>k'. diag d k' \<and> k' < k \<longrightarrow> vd (offset_down E + (kdown E + k')) = Some (fwd_x E d k')) \<Longrightarrow>
    (\<exists>m. k = - int d + 2 * int m) \<Longrightarrow>
    (case down_loop E vu (int d) (kdown E + k) vd of
       (None, vd') \<Rightarrow> down_done E d vd' \<and> (\<forall>k'. diag d k' \<and> k \<le> k' \<longrightarrow> \<not> down_hit E d k')
     | (Some (x, y), vd') \<Rightarrow>
         \<exists>k'. diag d k' \<and> down_hit E d k' \<and> x = fwd_x E d k' \<and> y = x - (kdown E + k'))"
proof (induction "nat (int d + 2 - k)" arbitrary: k vd rule: less_induct)
  case less
  show ?case
  proof (cases "k \<le> int d")
    case False
    then have r: "down_loop E vu (int d) (kdown E + k) vd = (None, vd)"
      by (subst down_loop.simps) simp
    have "down_done E d vd"
      unfolding down_done_def
    proof (intro allI impI)
      fix k' assume k': "diag d k'"
      then have "k' < k" using False unfolding diag_def by linarith
      with less.prems(2) k' show "vd (offset_down E + kdown E + k') = Some (fwd_x E d k')"
        by (simp add: add.assoc)
    qed
    moreover have "\<not> (diag d k' \<and> k \<le> k')" for k'
      using False by (auto simp: diag_def)
    ultimately show ?thesis unfolding r by auto
  next
    case True
    from less.prems(3) obtain m where m: "k = - int d + 2 * int m" by blast
    have dg: "diag d k" using m True by (rule diag_from_position)
    let ?vd = "vd(offset_down E + (kdown E + k) := down_point E vd (int d) (kdown E + k))"
    let ?g = "is_odd E \<and> kup E - int d < kdown E + k \<and> kdown E + k < kup E + int d"
    have pt: "down_point E vd (int d) (kdown E + k) = Some (fwd_x E d k)"
      using wf less.prems(1) dg by (rule down_point_eq)
    have cur: "?vd (offset_down E + (kdown E + k)) = Some (fwd_x E d k)"
      using pt by simp
    have ov: "overlap E vu ?vd (kdown E + k) =
      (if bwd_x E (d - 1) (kup E - (kdown E + k)) \<le> fwd_x E d k then Some (fwd_x E d k) else None)"
      if g: ?g
    proof -
      obtain d' where d': "d = Suc d'" using g by (cases d) auto
      then have d0: "0 < d" by simp
      from wf_odd [OF wf] g obtain u where u: "kup E - kdown E = 2 * u + 1" by blast
      have "diag d' (kup E - (kdown E + k))"
        using dg g unfolding d' by (intro diag_back_odd [OF _ u]) simp_all
      then have "diag (d - 1) (kup E - (kdown E + k))" using d' by simp
      moreover have "up_done E (d - 1) vu" using up g d0 by blast
      ultimately have "vu (offset_up E + kup E - (kup E - (kdown E + k))) =
        Some (bwd_x E (d - 1) (kup E - (kdown E + k)))"
        unfolding up_done_def by blast
      moreover have "offset_up E + kup E - (kup E - (kdown E + k)) = offset_up E + (kdown E + k)"
        by simp
      ultimately have "vu (offset_up E + (kdown E + k)) = Some (bwd_x E (d - 1) (kup E - (kdown E + k)))"
        by (simp only:)
      with cur show ?thesis
        unfolding overlap_def by (simp add: js_le_def)
    qed
    have hit: "down_hit E d k \<longleftrightarrow> ?g \<and> bwd_x E (d - 1) (kup E - (kdown E + k)) \<le> fwd_x E d k"
      by (auto simp: down_hit_def)
    show ?thesis
    proof (cases "down_hit E d k")
      case h: True
      then have g: ?g by (simp add: hit)
      have "down_loop E vu (int d) (kdown E + k) vd =
        (Some (fwd_x E d k, fwd_x E d k - (kdown E + k)), ?vd)"
        using True g h ov [OF g]
        by (subst down_loop.simps) (simp add: hit Let_def del: fun_upd_apply)
      with dg h show ?thesis by auto
    next
      case h: False
      have rec: "down_loop E vu (int d) (kdown E + k) vd = down_loop E vu (int d) (kdown E + (k + 2)) ?vd"
      proof (cases ?g)
        case g: True
        with h ov [OF g] True show ?thesis
          by (subst down_loop.simps) (simp add: hit Let_def add.assoc del: fun_upd_apply)
      next
        case g: False
        with True show ?thesis
          by (subst down_loop.simps) (auto simp: Let_def add.assoc simp del: fun_upd_apply)
      qed
      have p1: "down_ready E d ?vd"
        using less.prems(1) dg by (rule down_ready_update)
      have p2: "\<forall>k'. diag d k' \<and> k' < k + 2 \<longrightarrow> ?vd (offset_down E + (kdown E + k')) = Some (fwd_x E d k')"
      proof (intro allI impI)
        fix k' assume a: "diag d k' \<and> k' < k + 2"
        then have "k' \<le> k" using diag_next [OF dg, of k'] by simp
        then show "?vd (offset_down E + (kdown E + k')) = Some (fwd_x E d k')"
          using a less.prems(2) pt by (cases "k' = k") simp_all
      qed
      have p3: "\<exists>m. k + 2 = - int d + 2 * int m"
        using m by (intro exI [of _ "Suc m"]) simp
      have "nat (int d + 2 - (k + 2)) < nat (int d + 2 - k)" using True by simp
      from less.hyps [OF this p1 p2 p3]
      have ih: "case down_loop E vu (int d) (kdown E + (k + 2)) ?vd of
         (None, vd') \<Rightarrow> down_done E d vd' \<and> (\<forall>k'. diag d k' \<and> k + 2 \<le> k' \<longrightarrow> \<not> down_hit E d k')
       | (Some (x, y), vd') \<Rightarrow>
           \<exists>k'. diag d k' \<and> down_hit E d k' \<and> x = fwd_x E d k' \<and> y = x - (kdown E + k')" .
      have nx: "\<not> down_hit E d k'" if "diag d k'" "k \<le> k'" "\<forall>k'. diag d k' \<and> k + 2 \<le> k' \<longrightarrow> \<not> down_hit E d k'" for k'
      proof (cases "k' = k")
        case True
        with h show ?thesis by simp
      next
        case False
        with that(1,2) diag_next [OF dg that(1)] have "k + 2 \<le> k'" by linarith
        with that show ?thesis by blast
      qed
      obtain res vd' where r: "down_loop E vu (int d) (kdown E + (k + 2)) ?vd = (res, vd')"
        by (cases "down_loop E vu (int d) (kdown E + (k + 2)) ?vd")
      show ?thesis
      proof (cases res)
        case None
        with ih r have a: "down_done E d vd'"
          "\<forall>k'. diag d k' \<and> k + 2 \<le> k' \<longrightarrow> \<not> down_hit E d k'"
          by simp_all
        from nx [OF _ _ a(2)] have "\<forall>k'. diag d k' \<and> k \<le> k' \<longrightarrow> \<not> down_hit E d k'" by blast
        with a(1) show ?thesis unfolding rec r None by simp
      next
        case (Some xy)
        with ih r show ?thesis unfolding rec by (cases xy) simp
      qed
    qed
  qed
qed

lemma diag_neg: "diag d k \<Longrightarrow> diag d (- k)"
proof -
  assume a: "diag d k"
  from diagE [OF a] obtain t where t: "int d - k = 2 * t" by blast
  have "int d - (- k) = 2 * (t + k)" using t by simp
  moreover have "\<bar>- k\<bar> \<le> int d" using diagD [OF a] by simp
  ultimately show ?thesis by (intro diagI)
qed

text \<open>
  One round of the backward loop from the diagonal \<open>kup + j\<close> on, which is the
  diagonal \<open>- j\<close> of the backward search.
\<close>

lemma up_loop_spec:
  assumes wf: "wf_env E"
    and dn: "\<not> is_odd E \<longrightarrow> down_done E d vd"
  shows "up_ready E d vu \<Longrightarrow>
    (\<forall>l. diag d l \<and> - l < j \<longrightarrow> vu (offset_up E + (kup E - l)) = Some (bwd_x E d l)) \<Longrightarrow>
    (\<exists>m. j = - int d + 2 * int m) \<Longrightarrow>
    (case up_loop E vd (int d) (kup E + j) vu of
       (None, vu') \<Rightarrow> up_done E d vu' \<and> (\<forall>l. diag d l \<and> j \<le> - l \<longrightarrow> \<not> up_hit E d l)
     | (Some (x, y), vu') \<Rightarrow>
         \<exists>l. diag d l \<and> up_hit E d l \<and> x = fwd_x E d (kup E - l - kdown E) \<and> y = x - (kup E - l))"
proof (induction "nat (int d + 2 - j)" arbitrary: j vu rule: less_induct)
  case less
  show ?case
  proof (cases "j \<le> int d")
    case False
    then have r: "up_loop E vd (int d) (kup E + j) vu = (None, vu)"
      by (subst up_loop.simps) simp
    have "up_done E d vu"
      unfolding up_done_def
    proof (intro allI impI)
      fix l assume l: "diag d l"
      then have "- l < j" using False diagD [OF l] by linarith
      with less.prems(2) l have "vu (offset_up E + (kup E - l)) = Some (bwd_x E d l)" by blast
      moreover have "offset_up E + (kup E - l) = offset_up E + kup E - l" by simp
      ultimately show "vu (offset_up E + kup E - l) = Some (bwd_x E d l)" by (simp only:)
    qed
    moreover have "\<not> (diag d l \<and> j \<le> - l)" for l
      using False diagD [of d l] by linarith
    ultimately show ?thesis unfolding r by auto
  next
    case True
    from less.prems(3) obtain m where m: "j = - int d + 2 * int m" by blast
    let ?l = "- j"
    have kj: "kup E + j = kup E - ?l" by simp
    have dg: "diag d ?l" using diag_from_position [OF m True] by (rule diag_neg)
    let ?vu = "vu(offset_up E + (kup E - ?l) := up_point E vu (int d) (kup E - ?l))"
    let ?g = "\<not> is_odd E \<and> kdown E - int d \<le> kup E - ?l \<and> kup E - ?l \<le> kdown E + int d"
    have pt: "up_point E vu (int d) (kup E - ?l) = Some (bwd_x E d ?l)"
      using wf less.prems(1) dg by (rule up_point_eq)
    have cur: "?vu (offset_up E + (kup E - ?l)) = Some (bwd_x E d ?l)"
      using pt by simp
    have ov: "overlap E ?vu vd (kup E - ?l) =
      (if bwd_x E d ?l \<le> fwd_x E d (kup E - ?l - kdown E)
       then Some (fwd_x E d (kup E - ?l - kdown E)) else None)"
      if g: ?g
    proof -
      from wf_even [OF wf] g obtain u where u: "kup E - kdown E = 2 * u" by blast
      have "diag d (kup E - ?l - kdown E)"
        using g by (intro diag_back_even [OF dg u]) simp_all
      moreover have "down_done E d vd" using dn g by blast
      ultimately have "vd (offset_down E + kdown E + (kup E - ?l - kdown E)) =
        Some (fwd_x E d (kup E - ?l - kdown E))"
        unfolding down_done_def by blast
      moreover have "offset_down E + kdown E + (kup E - ?l - kdown E) = offset_down E + (kup E - ?l)"
        by simp
      ultimately have "vd (offset_down E + (kup E - ?l)) = Some (fwd_x E d (kup E - ?l - kdown E))"
        by (simp only:)
      with cur show ?thesis
        unfolding overlap_def by (simp add: js_le_def)
    qed
    have hit: "up_hit E d ?l \<longleftrightarrow> ?g \<and> bwd_x E d ?l \<le> fwd_x E d (kup E - ?l - kdown E)"
      by (auto simp: up_hit_def)
    have gd: "kup E - ?l \<le> kup E + int d" using True by simp
    show ?thesis
    proof (cases "up_hit E d ?l")
      case h: True
      then have g: ?g by (simp add: hit)
      have "up_loop E vd (int d) (kup E - ?l) vu =
        (Some (fwd_x E d (kup E - ?l - kdown E), fwd_x E d (kup E - ?l - kdown E) - (kup E - ?l)), ?vu)"
        using gd g h ov [OF g]
        by (subst up_loop.simps) (simp add: hit Let_def del: fun_upd_apply)
      with dg h show ?thesis unfolding kj by auto
    next
      case h: False
      have rec: "up_loop E vd (int d) (kup E - ?l) vu = up_loop E vd (int d) (kup E + (j + 2)) ?vu"
      proof (cases ?g)
        case g: True
        with h ov [OF g] gd show ?thesis
          by (subst up_loop.simps) (simp add: hit Let_def add.assoc del: fun_upd_apply)
      next
        case g: False
        with gd show ?thesis
          by (subst up_loop.simps) (auto simp: Let_def add.assoc simp del: fun_upd_apply)
      qed
      have p1: "up_ready E d ?vu"
        using less.prems(1) dg by (rule up_ready_update)
      have p2: "\<forall>l. diag d l \<and> - l < j + 2 \<longrightarrow> ?vu (offset_up E + (kup E - l)) = Some (bwd_x E d l)"
      proof (intro allI impI)
        fix l assume a: "diag d l \<and> - l < j + 2"
        then have "diag d (- l)" by (intro diag_neg) simp
        with a have "- l \<le> j" using diag_next [OF diag_from_position [OF m True], of "- l"] by simp
        then show "?vu (offset_up E + (kup E - l)) = Some (bwd_x E d l)"
          using a less.prems(2) pt by (cases "l = ?l") auto
      qed
      have p3: "\<exists>m. j + 2 = - int d + 2 * int m"
        using m by (intro exI [of _ "Suc m"]) simp
      have "nat (int d + 2 - (j + 2)) < nat (int d + 2 - j)" using True by simp
      from less.hyps [OF this p1 p2 p3]
      have ih: "case up_loop E vd (int d) (kup E + (j + 2)) ?vu of
         (None, vu') \<Rightarrow> up_done E d vu' \<and> (\<forall>l. diag d l \<and> j + 2 \<le> - l \<longrightarrow> \<not> up_hit E d l)
       | (Some (x, y), vu') \<Rightarrow>
           \<exists>l. diag d l \<and> up_hit E d l \<and> x = fwd_x E d (kup E - l - kdown E) \<and> y = x - (kup E - l)" .
      have nx: "\<not> up_hit E d l" if "diag d l" "j \<le> - l" "\<forall>l. diag d l \<and> j + 2 \<le> - l \<longrightarrow> \<not> up_hit E d l" for l
      proof (cases "l = ?l")
        case True
        with h show ?thesis by simp
      next
        case False
        have "diag d (- l)" using that(1) by (rule diag_neg)
        with that(2) False diag_next [OF diag_from_position [OF m True], of "- l"] have "j + 2 \<le> - l"
          by linarith
        with that show ?thesis by blast
      qed
      obtain res vu' where r: "up_loop E vd (int d) (kup E + (j + 2)) ?vu = (res, vu')"
        by (cases "up_loop E vd (int d) (kup E + (j + 2)) ?vu")
      show ?thesis
      proof (cases res)
        case None
        with ih r have a: "up_done E d vu'"
          "\<forall>l. diag d l \<and> j + 2 \<le> - l \<longrightarrow> \<not> up_hit E d l"
          by simp_all
        from nx [OF _ _ a(2)] have "\<forall>l. diag d l \<and> j \<le> - l \<longrightarrow> \<not> up_hit E d l" by blast
        with a(1) show ?thesis unfolding kj rec r None by simp
      next
        case (Some xy)
        with ih r show ?thesis unfolding kj rec by (cases xy) simp
      qed
    qed
  qed
qed

section \<open>The search returns a point of a shortest edit script\<close>

lemma wf_delta:
  assumes "wf_env E"
  shows "int (length (lhs_part E)) - int (length (rhs_part E)) = kup E - kdown E"
  using wf_lengths [OF assms] assms by (simp add: wf_env_def)

lemma hit_order:
  assumes "wf_env E"
  shows "bwd_x E e l \<le> fwd_x E d k \<longleftrightarrow>
    int (length (lhs_part E)) \<le>
      fr (mt_of (lhs_part E) (rhs_part E)) (int (length (lhs_part E))) d k +
      fr (mt_of (rev (lhs_part E)) (rev (rhs_part E))) (int (length (lhs_part E))) e l"
  using wf_lengths(1) [OF assms] by (auto simp: bwd_x_def fwd_x_def)

lemma down_hit_cross:
  assumes wf: "wf_env E" and dg: "diag d k"
  shows "down_hit E d k \<longleftrightarrow>
    is_odd E \<and> 0 < d \<and> cross (lhs_part E) (rhs_part E) d (d - 1) k"
proof
  assume h: "down_hit E d k"
  then have g: "is_odd E" "kup E - int d < kdown E + k" "kdown E + k < kup E + int d"
    and o: "bwd_x E (d - 1) (kup E - (kdown E + k)) \<le> fwd_x E d k"
    by (simp_all add: down_hit_def)
  obtain d' where d': "d = Suc d'" using g by (cases d) auto
  from wf_odd [OF wf g(1)] obtain u where u: "kup E - kdown E = 2 * u + 1" by blast
  let ?l = "int (length (lhs_part E)) - int (length (rhs_part E)) - k"
  have l: "kup E - (kdown E + k) = ?l"
    using wf_delta [OF wf] by simp
  have "diag d' (kup E - (kdown E + k))"
    using dg g unfolding d' by (intro diag_back_odd [OF _ u]) simp_all
  then have dl: "diag (d - 1) ?l" unfolding l d' by simp
  from o have "int (length (lhs_part E)) \<le>
      fr (mt_of (lhs_part E) (rhs_part E)) (int (length (lhs_part E))) d k +
      fr (mt_of (rev (lhs_part E)) (rev (rhs_part E))) (int (length (lhs_part E))) (d - 1) ?l"
    unfolding l hit_order [OF wf] .
  with dl dg g(1) d' show "is_odd E \<and> 0 < d \<and> cross (lhs_part E) (rhs_part E) d (d - 1) k"
    by (simp add: cross_def)
next
  assume a: "is_odd E \<and> 0 < d \<and> cross (lhs_part E) (rhs_part E) d (d - 1) k"
  let ?l = "int (length (lhs_part E)) - int (length (rhs_part E)) - k"
  have l: "kup E - (kdown E + k) = ?l" using wf_delta [OF wf] by simp
  from a have "diag (d - 1) ?l" by (simp add: cross_def)
  from diagD [OF this] a have "\<bar>?l\<bar> \<le> int d - 1" by (simp add: of_nat_diff)
  then have "kup E - int d < kdown E + k" "kdown E + k < kup E + int d"
    using l by linarith+
  with a hit_order [OF wf, of "d - 1" ?l d k] show "down_hit E d k"
    unfolding down_hit_def l by (simp add: cross_def)
qed

lemma up_hit_cross:
  assumes wf: "wf_env E" and dg: "diag d l"
  shows "up_hit E d l \<longleftrightarrow>
    \<not> is_odd E \<and> cross (lhs_part E) (rhs_part E) d d (kup E - l - kdown E)"
proof
  let ?k = "kup E - l - kdown E"
  have l: "int (length (lhs_part E)) - int (length (rhs_part E)) - ?k = l"
    using wf_delta [OF wf] by simp
  assume h: "up_hit E d l"
  then have g: "\<not> is_odd E" "kdown E - int d \<le> kup E - l" "kup E - l \<le> kdown E + int d"
    and o: "bwd_x E d l \<le> fwd_x E d ?k"
    by (simp_all add: up_hit_def)
  from wf_even [OF wf g(1)] obtain u where u: "kup E - kdown E = 2 * u" by blast
  have "diag d ?k" using g by (intro diag_back_even [OF dg u]) simp_all
  with g(1) dg o hit_order [OF wf, of d l d ?k]
  show "\<not> is_odd E \<and> cross (lhs_part E) (rhs_part E) d d ?k"
    unfolding cross_def l by simp
next
  let ?k = "kup E - l - kdown E"
  have l: "int (length (lhs_part E)) - int (length (rhs_part E)) - ?k = l"
    using wf_delta [OF wf] by simp
  assume a: "\<not> is_odd E \<and> cross (lhs_part E) (rhs_part E) d d ?k"
  then have "diag d ?k" by (simp add: cross_def)
  from diagD [OF this] have "kdown E - int d \<le> kup E - l" "kup E - l \<le> kdown E + int d"
    by linarith+
  with a hit_order [OF wf, of d l d ?k] show "up_hit E d l"
    unfolding up_hit_def cross_def l by simp
qed

text \<open>The number of edits of the backward search when it is tested against round \<open>d\<close>.\<close>

definition back_round :: "'c sms_env \<Rightarrow> nat \<Rightarrow> nat" where
  "back_round E d = (if is_odd E then d - 1 else d)"

lemma sms_loop_spec:
  assumes wf: "wf_env E"
    and dm: "int dm + int (back_round E dm) = dist (lhs_part E) (rhs_part E)"
    and od: "is_odd E \<longrightarrow> 0 < dm"
  shows "d \<le> dm \<Longrightarrow> down_ready E d vd \<Longrightarrow> up_ready E d vu \<Longrightarrow>
    \<exists>x y vu' vd' d' k. sms_loop E (int d) vu vd = Inr ((x, y), vu', vd') \<and>
      d' \<le> dm \<and> (is_odd E \<longrightarrow> 0 < d') \<and>
      cross (lhs_part E) (rhs_part E) d' (back_round E d') k \<and>
      x = fwd_x E d' k \<and> y = x - (kdown E + k)"
proof (induction "dm - d" arbitrary: d vu vd rule: less_induct)
  case less
  let ?A = "lhs_part E" and ?B = "rhs_part E"
  have "dist ?A ?B \<le> int (length ?A) + int (length ?B)" by (rule dist_le_sum)
  with dm less.prems(1) wf_lengths [OF wf]
  have guard: "2 * int d \<le> (lhs_upper E - lhs_lower E + rhs_upper E - rhs_lower E) + 2"
    by (simp add: back_round_def split: if_splits)
  have up1: "0 < d \<and> is_odd E \<longrightarrow> up_done E (d - 1) vu"
    using less.prems(3) by (cases d) (simp_all add: up_ready_def)
  have pr1: "\<forall>k'. diag d k' \<and> k' < - int d \<longrightarrow> vd (offset_down E + (kdown E + k')) = Some (fwd_x E d k')"
    using diagD by fastforce
  have pos: "\<exists>m. - int d = - int d + 2 * int m" by (intro exI [of _ 0]) simp
  from down_loop_spec [OF wf up1 less.prems(2) pr1 pos]
  have dl: "case down_loop E vu (int d) (kdown E + - int d) vd of
       (None, vd') \<Rightarrow> down_done E d vd' \<and> (\<forall>k'. diag d k' \<and> - int d \<le> k' \<longrightarrow> \<not> down_hit E d k')
     | (Some (x, y), vd') \<Rightarrow>
         \<exists>k'. diag d k' \<and> down_hit E d k' \<and> x = fwd_x E d k' \<and> y = x - (kdown E + k')" .
  obtain r1 vd1 where r1: "down_loop E vu (int d) (kdown E + - int d) vd = (r1, vd1)"
    by (cases "down_loop E vu (int d) (kdown E + - int d) vd")
  then have r1': "down_loop E vu (int d) (kdown E - int d) vd = (r1, vd1)" by simp
  have sd: "int d + 1 = int (Suc d)" by simp
  show ?case
  proof (cases r1)
    case (Some xy)
    obtain x y where xy: "xy = (x, y)" by (cases xy)
    from dl r1 Some xy obtain k where k: "diag d k" "down_hit E d k" "x = fwd_x E d k"
      "y = x - (kdown E + k)" by auto
    from down_hit_cross [OF wf k(1)] k(2)
    have c: "is_odd E" "0 < d" "cross ?A ?B d (d - 1) k" by simp_all
    have "sms_loop E (int d) vu vd = Inr ((x, y), vu, vd1)"
      unfolding sms_loop.simps [of E "int d"] r1' using guard Some xy by simp
    with c k less.prems(1) show ?thesis
      by (auto simp: back_round_def)
  next
    case None
    with dl r1 have d1: "down_done E d vd1"
      and nh: "\<forall>k'. diag d k' \<and> - int d \<le> k' \<longrightarrow> \<not> down_hit E d k'"
      by simp_all
    have dn: "\<not> is_odd E \<longrightarrow> down_done E d vd1" using d1 by simp
    have pr2: "\<forall>l. diag d l \<and> - l < - int d \<longrightarrow> vu (offset_up E + (kup E - l)) = Some (bwd_x E d l)"
      using diagD by fastforce
    from up_loop_spec [OF wf dn less.prems(3) pr2 pos]
    have ul: "case up_loop E vd1 (int d) (kup E + - int d) vu of
       (None, vu') \<Rightarrow> up_done E d vu' \<and> (\<forall>l. diag d l \<and> - int d \<le> - l \<longrightarrow> \<not> up_hit E d l)
     | (Some (x, y), vu') \<Rightarrow>
         \<exists>l. diag d l \<and> up_hit E d l \<and> x = fwd_x E d (kup E - l - kdown E) \<and> y = x - (kup E - l)" .
    obtain r2 vu1 where r2: "up_loop E vd1 (int d) (kup E + - int d) vu = (r2, vu1)"
      by (cases "up_loop E vd1 (int d) (kup E + - int d) vu")
    then have r2': "up_loop E vd1 (int d) (kup E - int d) vu = (r2, vu1)" by simp
    show ?thesis
    proof (cases r2)
      case (Some xy)
      obtain x y where xy: "xy = (x, y)" by (cases xy)
      from ul r2 Some xy obtain l where l: "diag d l" "up_hit E d l"
        "x = fwd_x E d (kup E - l - kdown E)" "y = x - (kup E - l)" by auto
      from up_hit_cross [OF wf l(1)] l(2)
      have c: "\<not> is_odd E" "cross ?A ?B d d (kup E - l - kdown E)" by simp_all
      have "sms_loop E (int d) vu vd = Inr ((x, y), vu1, vd1)"
        unfolding sms_loop.simps [of E "int d"] using guard None Some xy r1' r2' by simp
      moreover have "y = x - (kdown E + (kup E - l - kdown E))" using l(4) by simp
      ultimately have "sms_loop E (int d) vu vd = Inr ((x, y), vu1, vd1) \<and>
          d \<le> dm \<and> (is_odd E \<longrightarrow> 0 < d) \<and>
          cross ?A ?B d (back_round E d) (kup E - l - kdown E) \<and>
          x = fwd_x E d (kup E - l - kdown E) \<and> y = x - (kdown E + (kup E - l - kdown E))"
        using c l(3) less.prems(1) by (simp add: back_round_def)
      then show ?thesis by blast
    next
      case n2: None
      with ul r2 have u1: "up_done E d vu1"
        and nu: "\<forall>l. diag d l \<and> - int d \<le> - l \<longrightarrow> \<not> up_hit E d l"
        by simp_all
      have ne: "d \<noteq> dm"
      proof
        assume e: "d = dm"
        from cross_exists [OF dm] obtain k where k: "cross ?A ?B dm (back_round E dm) k" by blast
        then have dk: "diag dm k" by (simp add: cross_def)
        show False
        proof (cases "is_odd E")
          case True
          with k od have "down_hit E dm k"
            using down_hit_cross [OF wf dk] by (simp add: back_round_def)
          with nh dk diagD [OF dk] e show False by auto
        next
          case False
          let ?l = "int (length ?A) - int (length ?B) - k"
          from k False have dl: "diag dm ?l" by (simp add: cross_def back_round_def)
          have kk: "kup E - ?l - kdown E = k" using wf_delta [OF wf] by simp
          from k False have "cross ?A ?B dm dm k" by (simp add: back_round_def)
          with False have "up_hit E dm ?l"
            unfolding up_hit_cross [OF wf dl] kk by simp
          with nu dl diagD [OF dl] e show False by auto
        qed
      qed
      with less.prems(1) have lt: "Suc d \<le> dm" "dm - Suc d < dm - d" by simp_all
      have "down_ready E (Suc d) vd1" "up_ready E (Suc d) vu1"
        using d1 u1 by (simp_all add: down_ready_def up_ready_def)
      from less.hyps [OF lt(2) lt(1) this]
      obtain x y vu' vd' d' k where res: "sms_loop E (int (Suc d)) vu1 vd1 = Inr ((x, y), vu', vd')"
        "d' \<le> dm" "is_odd E \<longrightarrow> 0 < d'" "cross ?A ?B d' (back_round E d') k"
        "x = fwd_x E d' k" "y = x - (kdown E + k)"
        by blast
      have "sms_loop E (int d) vu vd = sms_loop E (int d + 1) vu1 vd1"
        unfolding sms_loop.simps [of E "int d"] using guard None n2 r1' r2' by simp
      with res show ?thesis unfolding sd by auto
    qed
  qed
qed

lemma wf_sms_env:
  assumes "0 \<le> ll" "ll \<le> lu" "lu \<le> int (length a)" "0 \<le> rl" "rl \<le> ru" "ru \<le> int (length b)"
  shows "wf_env (sms_env a la ll lu b lb rl ru)"
  using assms by (simp add: wf_env_def sms_env_def Let_def dvd_eq_mod_eq_0)

lemma slice_take:
  "0 \<le> l \<Longrightarrow> l \<le> x \<Longrightarrow> x \<le> u \<Longrightarrow> take (nat (x - l)) (slice a l u) = slice a l x"
  by (simp add: slice_def min_def)

lemma slice_drop:
  "0 \<le> l \<Longrightarrow> l \<le> x \<Longrightarrow> x \<le> u \<Longrightarrow> drop (nat (x - l)) (slice a l u) = slice a x u"
proof -
  assume a: "0 \<le> l" "l \<le> x" "x \<le> u"
  have "nat (u - l) - nat (x - l) = nat (u - x)" "nat (x - l) + nat l = nat x"
    using a by linarith+
  then show ?thesis by (simp add: slice_def drop_take)
qed

lemma lcs_len_additive:
  assumes "dist A B = dist (take n A) (take m B) + dist (drop n A) (drop m B)"
  shows "lcs_len A B = lcs_len (take n A) (take m B) + lcs_len (drop n A) (drop m B)"
proof -
  have "int (length A) = int (length (take n A)) + int (length (drop n A))"
       "int (length B) = int (length (take m B)) + int (length (drop m B))"
    by simp_all
  with assms show ?thesis unfolding dist_def by linarith
qed

lemma sms_loop_point:
  assumes wf: "wf_env E"
    and dr: "down_ready E 0 vd" and ur: "up_ready E 0 vu"
  shows "\<exists>x y vu' vd' d' p q. sms_loop E 0 vu vd = Inr ((x, y), vu', vd') \<and>
      x = lhs_lower E + p \<and> y = rhs_lower E + q \<and>
      0 \<le> p \<and> p \<le> int (length (lhs_part E)) \<and> 0 \<le> q \<and> q \<le> int (length (rhs_part E)) \<and>
      int d' + int (back_round E d') = dist (lhs_part E) (rhs_part E) \<and>
      dist (take (nat p) (lhs_part E)) (take (nat q) (rhs_part E)) = int d' \<and>
      dist (drop (nat p) (lhs_part E)) (drop (nat q) (rhs_part E)) = int (back_round E d')"
proof -
  let ?A = "lhs_part E" and ?B = "rhs_part E"
  let ?D = "dist ?A ?B"
  define dm where "dm = nat ((?D + 1) div 2)"
  have D0: "0 \<le> ?D" by (rule dist_nonneg)
  have par: "is_odd E \<longleftrightarrow> \<not> 2 dvd ?D"
  proof -
    have "2 dvd (?D - (int (length ?A) - int (length ?B)))" by (rule dist_parity)
    moreover have "is_odd E = (\<not> 2 dvd (int (length ?A) - int (length ?B)))"
      using wf wf_lengths [OF wf] by (simp add: wf_env_def)
    ultimately show ?thesis by presburger
  qed
  have "int dm + int (back_round E dm) = ?D \<and> (is_odd E \<longrightarrow> 0 < dm)"
  proof (cases "is_odd E")
    case True
    with par obtain u where u: "?D = 2 * u + 1" by (auto elim: oddE)
    with D0 have "0 \<le> u" by simp
    then have "dm = nat u + 1" unfolding dm_def u by (simp add: nat_add_distrib)
    with True u \<open>0 \<le> u\<close> show ?thesis by (simp add: back_round_def)
  next
    case False
    with par obtain u where u: "?D = 2 * u" by (auto elim: evenE)
    with D0 have "0 \<le> u" by simp
    then have "dm = nat u" unfolding dm_def u by simp
    with False u \<open>0 \<le> u\<close> show ?thesis by (simp add: back_round_def)
  qed
  then have dm: "int dm + int (back_round E dm) = ?D" and od: "is_odd E \<longrightarrow> 0 < dm"
    by simp_all
  from sms_loop_spec [OF wf dm od _ dr ur, of ] 
  obtain x y vu' vd' d' k where res: "sms_loop E (int 0) vu vd = Inr ((x, y), vu', vd')"
    "d' \<le> dm" "is_odd E \<longrightarrow> 0 < d'" "cross ?A ?B d' (back_round E d') k"
    "x = fwd_x E d' k" "y = x - (kdown E + k)"
    by blast
  have "int d' + int (back_round E d') \<le> int dm + int (back_round E dm)"
    using res(2,3) by (auto simp: back_round_def)
  with cross_sound [OF res(4)] dm have de: "int d' + int (back_round E d') = ?D" by simp
  let ?p = "fr (mt_of ?A ?B) (int (length ?A)) d' k"
  note cp = cross_point [OF res(4) de]
  have x: "x = lhs_lower E + ?p" using res(5) by (simp add: fwd_x_def)
  have y: "y = rhs_lower E + (?p - k)" using res(6) x wf by (simp add: wf_env_def)
  from res(1) x y cp de show ?thesis by simp
qed

lemma getShortestMiddleSnake_spec:
  assumes r: "0 \<le> ll" "ll < lu" "lu \<le> int (length a)" "0 \<le> rl" "rl < ru" "ru \<le> int (length b)"
    and first: "a ! nat ll \<noteq> b ! nat rl"
    and last: "a ! nat (lu - 1) \<noteq> b ! nat (ru - 1)"
  shows "\<exists>x y vu' vd'. getShortestMiddleSnake a la ll lu b lb rl ru vu vd = Inr ((x, y), vu', vd') \<and>
      ll \<le> x \<and> x \<le> lu \<and> rl \<le> y \<and> y \<le> ru \<and>
      (x \<noteq> ll \<or> y \<noteq> rl) \<and> (x \<noteq> lu \<or> y \<noteq> ru) \<and>
      lcs_len (slice a ll lu) (slice b rl ru) =
        lcs_len (slice a ll x) (slice b rl y) + lcs_len (slice a x lu) (slice b y ru) \<and>
      dist (slice a ll x) (slice b rl y) = (dist (slice a ll lu) (slice b rl ru) + 1) div 2 \<and>
      dist (slice a x lu) (slice b y ru) = dist (slice a ll lu) (slice b rl ru) div 2"
proof -
  let ?E = "sms_env a la ll lu b lb rl ru"
  let ?vd = "vd(offset_down ?E + kdown ?E + 1 := Some ll)"
  let ?vu = "vu(offset_up ?E + kup ?E - 1 := Some lu)"
  let ?A = "slice a ll lu" and ?B = "slice b rl ru"
  have wf: "wf_env ?E" using r by (intro wf_sms_env) simp_all
  have E: "lhs_lower ?E = ll" "lhs_upper ?E = lu" "rhs_lower ?E = rl" "rhs_upper ?E = ru"
    "lhs_part ?E = ?A" "rhs_part ?E = ?B"
    by (simp_all add: sms_env_def Let_def lhs_part_def rhs_part_def)
  have len: "int (length ?A) = lu - ll" "int (length ?B) = ru - rl"
    using r by (simp_all add: length_slice)
  have dr: "down_ready ?E 0 ?vd" by (simp add: down_ready_def E)
  have ur: "up_ready ?E 0 ?vu" by (simp add: up_ready_def E)
  from sms_loop_point [OF wf dr ur]
  obtain x y vu' vd' d' p q where res: "sms_loop ?E 0 ?vu ?vd = Inr ((x, y), vu', vd')"
    "x = ll + p" "y = rl + q" "0 \<le> p" "p \<le> lu - ll" "0 \<le> q" "q \<le> ru - rl"
    "int d' + int (back_round ?E d') = dist ?A ?B"
    "dist (take (nat p) ?A) (take (nat q) ?B) = int d'"
    "dist (drop (nat p) ?A) (drop (nat q) ?B) = int (back_round ?E d')"
    unfolding E len by blast
  have g: "getShortestMiddleSnake a la ll lu b lb rl ru vu vd = Inr ((x, y), vu', vd')"
    using res(1) by (simp add: getShortestMiddleSnake_def Let_def)
  have ne: "?A \<noteq> []" "?B \<noteq> []" using len r by auto
  have hdA: "hd ?A = a ! nat ll" "hd ?B = b ! nat rl"
    using r ne slice_nth [of ll lu a 0] slice_nth [of rl ru b 0] by (simp_all add: hd_conv_nth)
  have laA: "last ?A = a ! nat (lu - 1)"
  proof -
    have "length ?A - 1 = nat (lu - ll - 1)" using len(1) by linarith
    then have "last ?A = ?A ! nat (lu - ll - 1)" using last_conv_nth [OF ne(1)] by simp
    moreover have "?A ! nat (lu - ll - 1) = a ! nat (ll + (lu - ll - 1))"
      using r by (intro conjunct1 [OF slice_nth]) simp_all
    ultimately show ?thesis by simp
  qed
  have laB: "last ?B = b ! nat (ru - 1)"
  proof -
    have "length ?B - 1 = nat (ru - rl - 1)" using len(2) by linarith
    then have "last ?B = ?B ! nat (ru - rl - 1)" using last_conv_nth [OF ne(2)] by simp
    moreover have "?B ! nat (ru - rl - 1) = b ! nat (rl + (ru - rl - 1))"
      using r by (intro conjunct1 [OF slice_nth]) simp_all
    ultimately show ?thesis by simp
  qed
  have D2: "2 \<le> dist ?A ?B"
    using ne hdA laA laB first last by (intro dist_ge_2) simp_all
  have br: "int (back_round ?E d') \<le> int d'" "int d' \<le> int (back_round ?E d') + 1"
    unfolding back_round_def by (cases "is_odd ?E"; cases d'; simp)+
  have c1: "x \<noteq> ll \<or> y \<noteq> rl"
  proof (rule ccontr)
    assume "\<not> ?thesis"
    with res(2,3) have "p = 0" "q = 0" by simp_all
    with res(9) have "d' = 0" by simp
    with br res(8) D2 show False by simp
  qed
  have c2: "x \<noteq> lu \<or> y \<noteq> ru"
  proof (rule ccontr)
    assume "\<not> ?thesis"
    with res(2,3) have "p = lu - ll" "q = ru - rl" by simp_all
    then have "nat p = length ?A" "nat q = length ?B" using len by linarith+
    with res(10) have "back_round ?E d' = 0" by simp
    with br res(8) D2 show False by simp
  qed
  have pq: "nat p = nat (x - ll)" "nat q = nat (y - rl)" using res(2,3) by simp_all
  have xr: "ll \<le> x" "x \<le> lu" "rl \<le> y" "y \<le> ru" using res(2-7) by simp_all
  have tk: "take (nat p) ?A = slice a ll x" "drop (nat p) ?A = slice a x lu"
    "take (nat q) ?B = slice b rl y" "drop (nat q) ?B = slice b y ru"
    unfolding pq
    by (rule slice_take [OF r(1) xr(1,2)] slice_drop [OF r(1) xr(1,2)]
             slice_take [OF r(4) xr(3,4)] slice_drop [OF r(4) xr(3,4)])+
  have "dist ?A ?B = dist (take (nat p) ?A) (take (nat q) ?B) + dist (drop (nat p) ?A) (drop (nat q) ?B)"
    using res(8-10) by simp
  from lcs_len_additive [OF this]
  have ad: "lcs_len ?A ?B = lcs_len (slice a ll x) (slice b rl y) + lcs_len (slice a x lu) (slice b y ru)"
    unfolding tk .
  have h1: "dist (slice a ll x) (slice b rl y) = (dist ?A ?B + 1) div 2"
    using res(8,9) br unfolding tk by linarith
  have h2: "dist (slice a x lu) (slice b y ru) = dist ?A ?B div 2"
    using res(8,10) br unfolding tk by linarith
  from g xr c1 c2 ad h1 h2 show ?thesis by simp
qed

section \<open>The recursion marks a longest common subsequence\<close>

text \<open>
  The codes of the range \<open>l \<le> i < u\<close> at the positions that are not marked, in
  increasing position order.
\<close>

definition kept :: "marks \<Rightarrow> 'c list \<Rightarrow> int \<Rightarrow> int \<Rightarrow> 'c list" where
  "kept m a l u = map (nth a) (filter (\<lambda>i. \<not> truthy (m (int i))) [nat l..<nat u])"

lemma upt_int_range: "i \<in> set [nat l..<nat u] \<Longrightarrow> l \<le> int i \<and> int i < u"
  by simp linarith

lemma kept_append:
  assumes "0 \<le> l" "l \<le> x" "x \<le> u"
  shows "kept m a l u = kept m a l x @ kept m a x u"
proof -
  from assms have "nat l \<le> nat x" "nat x \<le> nat u" by simp_all
  then have "[nat l..<nat u] = [nat l..<nat x] @ [nat x..<nat u]"
    by (metis le_Suc_ex upt_add_eq_append)
  then show ?thesis by (simp add: kept_def)
qed

lemma kept_cong:
  assumes "\<forall>i. l \<le> i \<and> i < u \<longrightarrow> m i = m' i"
  shows "kept m a l u = kept m' a l u"
proof -
  have "filter (\<lambda>i. \<not> truthy (m (int i))) [nat l..<nat u] =
        filter (\<lambda>i. \<not> truthy (m' (int i))) [nat l..<nat u]"
  proof (rule filter_cong [OF refl])
    fix i assume "i \<in> set [nat l..<nat u]"
    then have "l \<le> int i \<and> int i < u" by (rule upt_int_range)
    with assms show "(\<not> truthy (m (int i))) = (\<not> truthy (m' (int i)))" by simp
  qed
  then show ?thesis by (simp add: kept_def)
qed

lemma slice_map_nth:
  assumes "0 \<le> l" "l \<le> u" "u \<le> int (length a)"
  shows "slice a l u = map (nth a) [nat l..<nat u]"
proof (rule nth_equalityI)
  show "length (slice a l u) = length (map (nth a) [nat l..<nat u])"
    using assms by (simp add: slice_def)
next
  fix i assume "i < length (slice a l u)"
  then have i: "i < nat u - nat l" "nat l + i < length a" using assms by (simp_all add: slice_def)
  then show "slice a l u ! i = map (nth a) [nat l..<nat u] ! i"
    by (simp add: slice_def)
qed

lemma kept_unmarked:
  assumes "0 \<le> l" "l \<le> u" "u \<le> int (length a)" "\<forall>i. l \<le> i \<and> i < u \<longrightarrow> \<not> truthy (m i)"
  shows "kept m a l u = slice a l u"
proof -
  have "filter (\<lambda>i. \<not> truthy (m (int i))) [nat l..<nat u] = [nat l..<nat u]"
  proof (rule filter_True, rule ballI)
    fix i assume "i \<in> set [nat l..<nat u]"
    then have "l \<le> int i \<and> int i < u" by (rule upt_int_range)
    with assms(4) show "\<not> truthy (m (int i))" by simp
  qed
  then show ?thesis using slice_map_nth [OF assms(1-3)] by (simp add: kept_def)
qed

lemma kept_marked:
  assumes "\<forall>i. l \<le> i \<and> i < u \<longrightarrow> truthy (m i)" "0 \<le> l"
  shows "kept m a l u = []"
proof -
  have "filter (\<lambda>i. \<not> truthy (m (int i))) [nat l..<nat u] = []"
  proof (rule filter_False, rule ballI)
    fix i assume "i \<in> set [nat l..<nat u]"
    then have "l \<le> int i \<and> int i < u" by (rule upt_int_range)
    with assms(1) show "\<not> \<not> truthy (m (int i))" by simp
  qed
  then show ?thesis by (simp add: kept_def)
qed

lemma kept_empty [simp]: "kept m a l l = []"
  by (simp add: kept_def)

lemma slice_empty [simp]: "slice a l l = []"
  by (simp add: slice_def)

lemma slice_append:
  assumes "0 \<le> l" "l \<le> x" "x \<le> u"
  shows "slice a l u = slice a l x @ slice a x u"
  using append_take_drop_id [of "nat (x - l)" "slice a l u"]
  unfolding slice_take [OF assms] slice_drop [OF assms] by simp

lemma slice_Cons:
  assumes "0 \<le> l" "l < u" "u \<le> int (length a)"
  shows "slice a l u = a ! nat l # slice a (l + 1) u"
proof -
  have "slice a l u = slice a l (l + 1) @ slice a (l + 1) u"
    using assms by (intro slice_append) simp_all
  moreover have "slice a l (l + 1) = [a ! nat l]"
  proof -
    have "nat (l + 1) = Suc (nat l)" using assms by linarith
    then show ?thesis using assms by (simp add: slice_map_nth)
  qed
  ultimately show ?thesis by simp
qed

lemma slice_snoc:
  assumes "0 \<le> l" "l < u" "u \<le> int (length a)"
  shows "slice a l u = slice a l (u - 1) @ [a ! nat (u - 1)]"
proof -
  have "slice a l u = slice a l (u - 1) @ slice a (u - 1) u"
    using assms by (intro slice_append) simp_all
  moreover have "slice a (u - 1) u = [a ! nat (u - 1)]"
  proof -
    have "nat u = Suc (nat (u - 1))" using assms by linarith
    then show ?thesis using assms by (simp add: slice_map_nth)
  qed
  ultimately show ?thesis by simp
qed

lemma at_index_eq:
  "0 \<le> i \<Longrightarrow> i < int (length a) \<Longrightarrow> 0 \<le> j \<Longrightarrow> j < int (length b) \<Longrightarrow>
   (at_index a i = at_index b j) = (a ! nat i = b ! nat j)"
  by (simp add: at_index_def)

lemma trim_start_spec:
  assumes "0 \<le> ll" "ll \<le> lu" "lu \<le> int (length a)" "0 \<le> rl" "rl \<le> ru" "ru \<le> int (length b)"
  shows "\<exists>p. 0 \<le> p \<and> trim_start a b lu ru ll rl = (ll + p, rl + p) \<and> ll + p \<le> lu \<and> rl + p \<le> ru \<and>
    slice a ll (ll + p) = slice b rl (rl + p) \<and>
    (ll + p < lu \<and> rl + p < ru \<longrightarrow> a ! nat (ll + p) \<noteq> b ! nat (rl + p))"
  using assms
proof (induction a b lu ru ll rl rule: trim_start.induct)
  case (1 a b lu ru ll rl)
  show ?case
  proof (cases "ll < lu \<and> rl < ru \<and> at_index a ll = at_index b rl")
    case True
    then have lt: "ll < lu" "rl < ru" and ai: "at_index a ll = at_index b rl" by simp_all
    have eq: "a ! nat ll = b ! nat rl"
      using ai at_index_eq [of ll a rl b] 1(2-) lt by simp
    have "\<exists>p. 0 \<le> p \<and> trim_start a b lu ru (ll + 1) (rl + 1) = (ll + 1 + p, rl + 1 + p) \<and>
      ll + 1 + p \<le> lu \<and> rl + 1 + p \<le> ru \<and>
      slice a (ll + 1) (ll + 1 + p) = slice b (rl + 1) (rl + 1 + p) \<and>
      (ll + 1 + p < lu \<and> rl + 1 + p < ru \<longrightarrow> a ! nat (ll + 1 + p) \<noteq> b ! nat (rl + 1 + p))"
      using lt 1(2-) by (intro 1(1) [OF True]) simp_all
    then obtain p where p: "0 \<le> p" "trim_start a b lu ru (ll + 1) (rl + 1) = (ll + 1 + p, rl + 1 + p)"
      "ll + 1 + p \<le> lu" "rl + 1 + p \<le> ru"
      "slice a (ll + 1) (ll + 1 + p) = slice b (rl + 1) (rl + 1 + p)"
      "ll + 1 + p < lu \<and> rl + 1 + p < ru \<longrightarrow> a ! nat (ll + 1 + p) \<noteq> b ! nat (rl + 1 + p)"
      by blast
    have i: "ll + (p + 1) = ll + 1 + p" "rl + (p + 1) = rl + 1 + p" by simp_all
    have t: "trim_start a b lu ru ll rl = (ll + 1 + p, rl + 1 + p)"
      using True p(2) by (subst trim_start.simps) simp
    have "slice a ll (ll + 1 + p) = a ! nat ll # slice a (ll + 1) (ll + 1 + p)"
      using 1(2-) p by (intro slice_Cons) simp_all
    moreover have "slice b rl (rl + 1 + p) = b ! nat rl # slice b (rl + 1) (rl + 1 + p)"
      using 1(2-) p by (intro slice_Cons) simp_all
    ultimately have s: "slice a ll (ll + 1 + p) = slice b rl (rl + 1 + p)"
      using eq p(5) by simp
    have "0 \<le> p + 1 \<and> trim_start a b lu ru ll rl = (ll + (p + 1), rl + (p + 1)) \<and>
      ll + (p + 1) \<le> lu \<and> rl + (p + 1) \<le> ru \<and>
      slice a ll (ll + (p + 1)) = slice b rl (rl + (p + 1)) \<and>
      (ll + (p + 1) < lu \<and> rl + (p + 1) < ru \<longrightarrow> a ! nat (ll + (p + 1)) \<noteq> b ! nat (rl + (p + 1)))"
      unfolding i using t s p(1,3,4,6) by simp
    then show ?thesis by (rule exI)
  next
    case False
    then have t: "trim_start a b lu ru ll rl = (ll, rl)" by (subst trim_start.simps) auto
    have n: "ll < lu \<and> rl < ru \<longrightarrow> a ! nat ll \<noteq> b ! nat rl"
    proof
      assume lt: "ll < lu \<and> rl < ru"
      with False have "at_index a ll \<noteq> at_index b rl" by simp
      then show "a ! nat ll \<noteq> b ! nat rl"
        using at_index_eq [of ll a rl b] 1(2-) lt by simp
    qed
    have "0 \<le> (0::int) \<and> trim_start a b lu ru ll rl = (ll + 0, rl + 0) \<and>
      ll + 0 \<le> lu \<and> rl + 0 \<le> ru \<and> slice a ll (ll + 0) = slice b rl (rl + 0) \<and>
      (ll + 0 < lu \<and> rl + 0 < ru \<longrightarrow> a ! nat (ll + 0) \<noteq> b ! nat (rl + 0))"
      using t n 1(2-) by simp
    then show ?thesis by (rule exI)
  qed
qed

lemma trim_end_spec:
  assumes "0 \<le> ll" "ll \<le> lu" "lu \<le> int (length a)" "0 \<le> rl" "rl \<le> ru" "ru \<le> int (length b)"
  shows "\<exists>p. 0 \<le> p \<and> trim_end a b ll rl lu ru = (lu - p, ru - p) \<and> ll \<le> lu - p \<and> rl \<le> ru - p \<and>
    slice a (lu - p) lu = slice b (ru - p) ru \<and>
    (ll < lu - p \<and> rl < ru - p \<longrightarrow> a ! nat (lu - p - 1) \<noteq> b ! nat (ru - p - 1))"
  using assms
proof (induction a b ll rl lu ru rule: trim_end.induct)
  case (1 a b ll rl lu ru)
  show ?case
  proof (cases "ll < lu \<and> rl < ru \<and> at_index a (lu - 1) = at_index b (ru - 1)")
    case True
    then have lt: "ll < lu" "rl < ru" and ai: "at_index a (lu - 1) = at_index b (ru - 1)"
      by simp_all
    have eq: "a ! nat (lu - 1) = b ! nat (ru - 1)"
      using ai at_index_eq [of "lu - 1" a "ru - 1" b] 1(2-) lt by simp
    have "\<exists>p. 0 \<le> p \<and> trim_end a b ll rl (lu - 1) (ru - 1) = (lu - 1 - p, ru - 1 - p) \<and>
      ll \<le> lu - 1 - p \<and> rl \<le> ru - 1 - p \<and>
      slice a (lu - 1 - p) (lu - 1) = slice b (ru - 1 - p) (ru - 1) \<and>
      (ll < lu - 1 - p \<and> rl < ru - 1 - p \<longrightarrow> a ! nat (lu - 1 - p - 1) \<noteq> b ! nat (ru - 1 - p - 1))"
      using lt 1(2-) by (intro 1(1) [OF True]) simp_all
    then obtain p where p: "0 \<le> p" "trim_end a b ll rl (lu - 1) (ru - 1) = (lu - 1 - p, ru - 1 - p)"
      "ll \<le> lu - 1 - p" "rl \<le> ru - 1 - p"
      "slice a (lu - 1 - p) (lu - 1) = slice b (ru - 1 - p) (ru - 1)"
      "ll < lu - 1 - p \<and> rl < ru - 1 - p \<longrightarrow> a ! nat (lu - 1 - p - 1) \<noteq> b ! nat (ru - 1 - p - 1)"
      by blast
    have i: "lu - (p + 1) = lu - 1 - p" "ru - (p + 1) = ru - 1 - p" by simp_all
    have t: "trim_end a b ll rl lu ru = (lu - 1 - p, ru - 1 - p)"
      using True p(2) by (subst trim_end.simps) simp
    have "slice a (lu - 1 - p) lu = slice a (lu - 1 - p) (lu - 1) @ [a ! nat (lu - 1)]"
      using 1(2-) p lt by (intro slice_snoc) simp_all
    moreover have "slice b (ru - 1 - p) ru = slice b (ru - 1 - p) (ru - 1) @ [b ! nat (ru - 1)]"
      using 1(2-) p lt by (intro slice_snoc) simp_all
    ultimately have s: "slice a (lu - 1 - p) lu = slice b (ru - 1 - p) ru"
      using eq p(5) by simp
    have "0 \<le> p + 1 \<and> trim_end a b ll rl lu ru = (lu - (p + 1), ru - (p + 1)) \<and>
      ll \<le> lu - (p + 1) \<and> rl \<le> ru - (p + 1) \<and>
      slice a (lu - (p + 1)) lu = slice b (ru - (p + 1)) ru \<and>
      (ll < lu - (p + 1) \<and> rl < ru - (p + 1) \<longrightarrow>
         a ! nat (lu - (p + 1) - 1) \<noteq> b ! nat (ru - (p + 1) - 1))"
      unfolding i using t s p(1,3,4,6) by simp
    then show ?thesis by (rule exI)
  next
    case False
    then have t: "trim_end a b ll rl lu ru = (lu, ru)" by (subst trim_end.simps) auto
    have n: "ll < lu \<and> rl < ru \<longrightarrow> a ! nat (lu - 1) \<noteq> b ! nat (ru - 1)"
    proof
      assume lt: "ll < lu \<and> rl < ru"
      with False have "at_index a (lu - 1) \<noteq> at_index b (ru - 1)" by simp
      then show "a ! nat (lu - 1) \<noteq> b ! nat (ru - 1)"
        using at_index_eq [of "lu - 1" a "ru - 1" b] 1(2-) lt by simp
    qed
    have "0 \<le> (0::int) \<and> trim_end a b ll rl lu ru = (lu - 0, ru - 0) \<and>
      ll \<le> lu - 0 \<and> rl \<le> ru - 0 \<and> slice a (lu - 0) lu = slice b (ru - 0) ru \<and>
      (ll < lu - 0 \<and> rl < ru - 0 \<longrightarrow> a ! nat (lu - 0 - 1) \<noteq> b ! nat (ru - 0 - 1))"
      using t n 1(2-) by simp
    then show ?thesis by (rule exI)
  qed
qed

text \<open>
  What a call on the ranges \<open>ll \<le> i < lu\<close> and \<open>rl \<le> j < ru\<close> leaves: the marks
  outside the ranges as they were and, inside, the same codes kept on both sides,
  as many as the longest common subsequence of the two ranges has.
\<close>

definition lcs_post ::
  "marks \<Rightarrow> marks \<Rightarrow> 'c list \<Rightarrow> int \<Rightarrow> int \<Rightarrow> 'c list \<Rightarrow> int \<Rightarrow> int \<Rightarrow> marks \<Rightarrow> marks \<Rightarrow> bool" where
  "lcs_post lm rm a ll lu b rl ru lm' rm' =
    ((\<forall>i. \<not> (ll \<le> i \<and> i < lu) \<longrightarrow> lm' i = lm i) \<and>
     (\<forall>i. \<not> (rl \<le> i \<and> i < ru) \<longrightarrow> rm' i = rm i) \<and>
     kept lm' a ll lu = kept rm' b rl ru \<and>
     length (kept lm' a ll lu) = lcs_len (slice a ll lu) (slice b rl ru))"

lemma lcs_len_trim:
  "lcs_len (P @ X @ S) (P @ Y @ S) = length P + lcs_len X Y + length S"
  using lcs_len_common_prefix [of P "X @ S" "Y @ S"] lcs_len_common_suffix [of X S Y]
  by simp

lemma kept_outer:
  assumes r: "0 \<le> ll0" "ll0 \<le> ll" "ll \<le> lu" "lu \<le> lu0" "lu0 \<le> int (length a)"
    and un: "\<forall>i. ll0 \<le> i \<and> i < lu0 \<longrightarrow> \<not> truthy (lm i)"
    and fr: "\<forall>i. \<not> (ll \<le> i \<and> i < lu) \<longrightarrow> lm' i = lm i"
  shows "kept lm' a ll0 lu0 = slice a ll0 ll @ kept lm' a ll lu @ slice a lu lu0"
    and "slice a ll0 lu0 = slice a ll0 ll @ slice a ll lu @ slice a lu lu0"
proof -
  have "kept lm' a ll0 lu0 = kept lm' a ll0 ll @ kept lm' a ll lu0"
    using r by (intro kept_append) simp_all
  moreover have "kept lm' a ll lu0 = kept lm' a ll lu @ kept lm' a lu lu0"
    using r by (intro kept_append) simp_all
  moreover have "kept lm' a ll0 ll = slice a ll0 ll"
  proof (rule kept_unmarked)
    show "\<forall>i. ll0 \<le> i \<and> i < ll \<longrightarrow> \<not> truthy (lm' i)" using un fr r by auto
  qed (use r in simp_all)
  moreover have "kept lm' a lu lu0 = slice a lu lu0"
  proof (rule kept_unmarked)
    show "\<forall>i. lu \<le> i \<and> i < lu0 \<longrightarrow> \<not> truthy (lm' i)" using un fr r by auto
  qed (use r in simp_all)
  ultimately show "kept lm' a ll0 lu0 = slice a ll0 ll @ kept lm' a ll lu @ slice a lu lu0"
    by simp
  have "slice a ll0 lu0 = slice a ll0 ll @ slice a ll lu0"
    using r by (intro slice_append) simp_all
  moreover have "slice a ll lu0 = slice a ll lu @ slice a lu lu0"
    using r by (intro slice_append) simp_all
  ultimately show "slice a ll0 lu0 = slice a ll0 ll @ slice a ll lu @ slice a lu lu0"
    by simp
qed

lemma lcs_post_trim:
  assumes l: "0 \<le> ll0" "ll0 \<le> ll" "ll \<le> lu" "lu \<le> lu0" "lu0 \<le> int (length a)"
    and r: "0 \<le> rl0" "rl0 \<le> rl" "rl \<le> ru" "ru \<le> ru0" "ru0 \<le> int (length b)"
    and P: "slice a ll0 ll = slice b rl0 rl" and S: "slice a lu lu0 = slice b ru ru0"
    and ul: "\<forall>i. ll0 \<le> i \<and> i < lu0 \<longrightarrow> \<not> truthy (lm i)"
    and ur: "\<forall>i. rl0 \<le> i \<and> i < ru0 \<longrightarrow> \<not> truthy (rm i)"
    and post: "lcs_post lm rm a ll lu b rl ru lm' rm'"
  shows "lcs_post lm rm a ll0 lu0 b rl0 ru0 lm' rm'"
proof -
  from post have fl: "\<forall>i. \<not> (ll \<le> i \<and> i < lu) \<longrightarrow> lm' i = lm i"
    and fr: "\<forall>i. \<not> (rl \<le> i \<and> i < ru) \<longrightarrow> rm' i = rm i"
    and ke: "kept lm' a ll lu = kept rm' b rl ru"
    and le: "length (kept lm' a ll lu) = lcs_len (slice a ll lu) (slice b rl ru)"
    unfolding lcs_post_def by blast+
  note ka = kept_outer [OF l ul fl] and kb = kept_outer [OF r ur fr]
  have f1: "\<forall>i. \<not> (ll0 \<le> i \<and> i < lu0) \<longrightarrow> lm' i = lm i" using fl l by auto
  have f2: "\<forall>i. \<not> (rl0 \<le> i \<and> i < ru0) \<longrightarrow> rm' i = rm i" using fr r by auto
  have k: "kept lm' a ll0 lu0 = kept rm' b rl0 ru0"
    unfolding ka(1) kb(1) using P S ke by simp
  have n: "length (kept lm' a ll0 lu0) = lcs_len (slice a ll0 lu0) (slice b rl0 ru0)"
    unfolding ka kb(2) unfolding P S lcs_len_trim using le by simp
  from f1 f2 k n show ?thesis unfolding lcs_post_def by blast
qed

lemma lcs_post_left_empty:
  assumes "0 \<le> rl"
  shows "lcs_post lm rm a ll ll b rl ru lm (mark_range rm rl ru)"
proof -
  have "kept (mark_range rm rl ru) b rl ru = []"
    using assms by (intro kept_marked) (simp_all add: mark_range_eq truthy_def)
  then show ?thesis by (simp add: lcs_post_def mark_range_eq)
qed

lemma lcs_post_right_empty:
  assumes "0 \<le> ll"
  shows "lcs_post lm rm a ll lu b rl rl (mark_range lm ll lu) rm"
proof -
  have "kept (mark_range lm ll lu) a ll lu = []"
    using assms by (intro kept_marked) (simp_all add: mark_range_eq truthy_def)
  then show ?thesis by (simp add: lcs_post_def mark_range_eq)
qed

lemma lcs_post_split:
  assumes l: "0 \<le> ll" "ll \<le> x" "x \<le> lu" and r: "0 \<le> rl" "rl \<le> y" "y \<le> ru"
    and p1: "lcs_post lm rm a ll x b rl y lm1 rm1"
    and p2: "lcs_post lm1 rm1 a x lu b y ru lm2 rm2"
    and add: "lcs_len (slice a ll lu) (slice b rl ru) =
      lcs_len (slice a ll x) (slice b rl y) + lcs_len (slice a x lu) (slice b y ru)"
  shows "lcs_post lm rm a ll lu b rl ru lm2 rm2"
proof -
  from p1 have f1: "\<forall>i. \<not> (ll \<le> i \<and> i < x) \<longrightarrow> lm1 i = lm i"
    "\<forall>i. \<not> (rl \<le> i \<and> i < y) \<longrightarrow> rm1 i = rm i"
    and k1: "kept lm1 a ll x = kept rm1 b rl y"
    "length (kept lm1 a ll x) = lcs_len (slice a ll x) (slice b rl y)"
    unfolding lcs_post_def by blast+
  from p2 have f2: "\<forall>i. \<not> (x \<le> i \<and> i < lu) \<longrightarrow> lm2 i = lm1 i"
    "\<forall>i. \<not> (y \<le> i \<and> i < ru) \<longrightarrow> rm2 i = rm1 i"
    and k2: "kept lm2 a x lu = kept rm2 b y ru"
    "length (kept lm2 a x lu) = lcs_len (slice a x lu) (slice b y ru)"
    unfolding lcs_post_def by blast+
  have ca: "kept lm2 a ll x = kept lm1 a ll x"
    using f2(1) by (intro kept_cong) auto
  have cb: "kept rm2 b rl y = kept rm1 b rl y"
    using f2(2) by (intro kept_cong) auto
  have sa: "kept lm2 a ll lu = kept lm1 a ll x @ kept lm2 a x lu"
    using kept_append [OF l, of lm2 a] ca by simp
  have sb: "kept rm2 b rl ru = kept rm1 b rl y @ kept rm2 b y ru"
    using kept_append [OF r, of rm2 b] cb by simp
  have g1: "\<forall>i. \<not> (ll \<le> i \<and> i < lu) \<longrightarrow> lm2 i = lm i"
    using f1(1) f2(1) l by auto
  have g2: "\<forall>i. \<not> (rl \<le> i \<and> i < ru) \<longrightarrow> rm2 i = rm i"
    using f1(2) f2(2) r by auto
  have g3: "kept lm2 a ll lu = kept rm2 b rl ru" unfolding sa sb using k1(1) k2(1) by simp
  have g4: "length (kept lm2 a ll lu) = lcs_len (slice a ll lu) (slice b rl ru)"
    unfolding sa add using k1(2) k2(2) by simp
  from g1 g2 g3 g4 show ?thesis unfolding lcs_post_def by blast
qed

lemma getLongestCommonSubsequence_spec:
  assumes "0 \<le> ll0" "ll0 \<le> lu0" "lu0 \<le> int (length a)"
    and "0 \<le> rl0" "rl0 \<le> ru0" "ru0 \<le> int (length b)"
    and "\<forall>i. ll0 \<le> i \<and> i < lu0 \<longrightarrow> \<not> truthy (lhs_modified st i)"
    and "\<forall>i. rl0 \<le> i \<and> i < ru0 \<longrightarrow> \<not> truthy (rhs_modified st i)"
  shows "\<exists>st'. getLongestCommonSubsequence st a la ll0 lu0 b lb rl0 ru0 = Some (Inr st') \<and>
    lcs_post (lhs_modified st) (rhs_modified st) a ll0 lu0 b rl0 ru0
      (lhs_modified st') (rhs_modified st')"
  using assms
proof (induction "nat ((lu0 - ll0) + (ru0 - rl0))" arbitrary: st ll0 lu0 rl0 ru0 rule: less_induct)
  case less
  note r = less.prems(1-6) and ul = less.prems(7) and ur = less.prems(8)
  from trim_start_spec [OF r] obtain p where p: "0 \<le> p"
    "trim_start a b lu0 ru0 ll0 rl0 = (ll0 + p, rl0 + p)" "ll0 + p \<le> lu0" "rl0 + p \<le> ru0"
    "slice a ll0 (ll0 + p) = slice b rl0 (rl0 + p)"
    "ll0 + p < lu0 \<and> rl0 + p < ru0 \<longrightarrow> a ! nat (ll0 + p) \<noteq> b ! nat (rl0 + p)"
    by blast
  define ll where "ll = ll0 + p"
  define rl where "rl = rl0 + p"
  have r2: "0 \<le> ll" "ll \<le> lu0" "lu0 \<le> int (length a)" "0 \<le> rl" "rl \<le> ru0" "ru0 \<le> int (length b)"
    using r p by (simp_all add: ll_def rl_def)
  from trim_end_spec [OF r2] obtain q where q: "0 \<le> q"
    "trim_end a b ll rl lu0 ru0 = (lu0 - q, ru0 - q)" "ll \<le> lu0 - q" "rl \<le> ru0 - q"
    "slice a (lu0 - q) lu0 = slice b (ru0 - q) ru0"
    "ll < lu0 - q \<and> rl < ru0 - q \<longrightarrow> a ! nat (lu0 - q - 1) \<noteq> b ! nat (ru0 - q - 1)"
    by blast
  define lu where "lu = lu0 - q"
  define ru where "ru = ru0 - q"
  have ts: "trim_start a b lu0 ru0 ll0 rl0 = (ll, rl)" using p(2) by (simp add: ll_def rl_def)
  have te: "trim_end a b ll rl lu0 ru0 = (lu, ru)" using q(2) by (simp add: lu_def ru_def)
  have l3: "0 \<le> ll0" "ll0 \<le> ll" "ll \<le> lu" "lu \<le> lu0" "lu0 \<le> int (length a)"
    using r p q by (simp_all add: ll_def lu_def)
  have r3: "0 \<le> rl0" "rl0 \<le> rl" "rl \<le> ru" "ru \<le> ru0" "ru0 \<le> int (length b)"
    using r p q by (simp_all add: rl_def ru_def)
  have P: "slice a ll0 ll = slice b rl0 rl" using p(5) by (simp add: ll_def rl_def)
  have S: "slice a lu lu0 = slice b ru ru0" using q(5) by (simp add: lu_def ru_def)
  let ?lm = "lhs_modified st" and ?rm = "rhs_modified st"
  have step: "getLongestCommonSubsequence st a la ll0 lu0 b lb rl0 ru0 =
    (if ll = lu then Some (Inr (st\<lparr>rhs_modified := mark_range ?rm rl ru\<rparr>))
     else if rl = ru then Some (Inr (st\<lparr>lhs_modified := mark_range ?lm ll lu\<rparr>))
     else
       (case getShortestMiddleSnake a la ll lu b lb rl ru (vector_u st) (vector_d st) of
          Inl e \<Rightarrow> Some (Inl e)
        | Inr ((x, y), vu, vd) \<Rightarrow>
            Option.bind
              (getLongestCommonSubsequence (st\<lparr>vector_u := vu, vector_d := vd\<rparr>) a la ll x b lb rl y)
              (\<lambda>r. case r of
                      Inl e \<Rightarrow> Some (Inl e)
                    | Inr st1 \<Rightarrow> getLongestCommonSubsequence st1 a la x lu b lb y ru)))"
    by (subst getLongestCommonSubsequence.simps) (simp only: ts te prod.case)
  have inner: "\<exists>st'. getLongestCommonSubsequence st a la ll0 lu0 b lb rl0 ru0 = Some (Inr st') \<and>
    lcs_post ?lm ?rm a ll lu b rl ru (lhs_modified st') (rhs_modified st')"
  proof (cases "ll = lu")
    case True
    have "lcs_post ?lm ?rm a ll ll b rl ru ?lm (mark_range ?rm rl ru)"
      using r2(4) by (rule lcs_post_left_empty)
    with True show ?thesis unfolding step by simp
  next
    case False
    show ?thesis
    proof (cases "rl = ru")
      case True
      have "lcs_post ?lm ?rm a ll lu b rl rl (mark_range ?lm ll lu) ?rm"
        using r2(1) by (rule lcs_post_right_empty)
      with True False show ?thesis unfolding step by simp
    next
      case nr: False
      have lt: "ll < lu" "rl < ru" using False nr l3 r3 by simp_all
      have first: "a ! nat ll \<noteq> b ! nat rl"
        using p(6) lt l3 r3 by (simp add: ll_def rl_def)
      have last: "a ! nat (lu - 1) \<noteq> b ! nat (ru - 1)"
        using q(6) lt by (simp add: lu_def ru_def)
      have "lu \<le> int (length a)" "ru \<le> int (length b)" using l3 r3 by simp_all
      from getShortestMiddleSnake_spec [OF r2(1) lt(1) this(1) r2(4) lt(2) this(2) first last,
          of la lb "vector_u st" "vector_d st"]
      obtain x y vu vd where sms:
        "getShortestMiddleSnake a la ll lu b lb rl ru (vector_u st) (vector_d st) = Inr ((x, y), vu, vd)"
        "ll \<le> x" "x \<le> lu" "rl \<le> y" "y \<le> ru" "x \<noteq> ll \<or> y \<noteq> rl" "x \<noteq> lu \<or> y \<noteq> ru"
        "lcs_len (slice a ll lu) (slice b rl ru) =
           lcs_len (slice a ll x) (slice b rl y) + lcs_len (slice a x lu) (slice b y ru)"
        by blast
      let ?st0 = "st\<lparr>vector_u := vu, vector_d := vd\<rparr>"
      have m1: "nat (x - ll + (y - rl)) < nat (lu0 - ll0 + (ru0 - rl0))"
        using sms(2-7) l3 r3 by linarith
      have u1: "\<forall>i. ll \<le> i \<and> i < x \<longrightarrow> \<not> truthy (lhs_modified ?st0 i)"
        "\<forall>i. rl \<le> i \<and> i < y \<longrightarrow> \<not> truthy (rhs_modified ?st0 i)"
        using ul ur l3 r3 sms(2-5) by auto
      have b1: "x \<le> int (length a)" "y \<le> int (length b)" using sms(3,5) l3 r3 by simp_all
      from less.hyps [OF m1 r2(1) sms(2) b1(1) r2(4) sms(4) b1(2) u1]
      obtain s1 where s1:
        "getLongestCommonSubsequence ?st0 a la ll x b lb rl y = Some (Inr s1)"
        "lcs_post ?lm ?rm a ll x b rl y (lhs_modified s1) (rhs_modified s1)"
        by auto
      have m2: "nat (lu - x + (ru - y)) < nat (lu0 - ll0 + (ru0 - rl0))"
        using sms(2-7) l3 r3 by linarith
      have x0: "0 \<le> x" "0 \<le> y" using sms(2,4) r2 by simp_all
      have u2: "\<forall>i. x \<le> i \<and> i < lu \<longrightarrow> \<not> truthy (lhs_modified s1 i)"
        "\<forall>i. y \<le> i \<and> i < ru \<longrightarrow> \<not> truthy (rhs_modified s1 i)"
      proof -
        from s1(2) have f: "\<forall>i. \<not> (ll \<le> i \<and> i < x) \<longrightarrow> lhs_modified s1 i = ?lm i"
          "\<forall>i. \<not> (rl \<le> i \<and> i < y) \<longrightarrow> rhs_modified s1 i = ?rm i"
          unfolding lcs_post_def by blast+
        show "\<forall>i. x \<le> i \<and> i < lu \<longrightarrow> \<not> truthy (lhs_modified s1 i)"
          using f(1) ul l3 sms(2,3) by auto
        show "\<forall>i. y \<le> i \<and> i < ru \<longrightarrow> \<not> truthy (rhs_modified s1 i)"
          using f(2) ur r3 sms(4,5) by auto
      qed
      from less.hyps [OF m2 x0(1) sms(3) \<open>lu \<le> int (length a)\<close> x0(2) sms(5) \<open>ru \<le> int (length b)\<close> u2]
      obtain s2 where s2:
        "getLongestCommonSubsequence s1 a la x lu b lb y ru = Some (Inr s2)"
        "lcs_post (lhs_modified s1) (rhs_modified s1) a x lu b y ru (lhs_modified s2) (rhs_modified s2)"
        by auto
      have "lcs_post ?lm ?rm a ll lu b rl ru (lhs_modified s2) (rhs_modified s2)"
        using r2(1) sms(2,3) r2(4) sms(4,5) s1(2) s2(2) sms(8) by (rule lcs_post_split)
      moreover have "getLongestCommonSubsequence st a la ll0 lu0 b lb rl0 ru0 = Some (Inr s2)"
        unfolding step using False nr sms(1) s1(1) s2(1) by simp
      ultimately show ?thesis by blast
    qed
  qed
  then obtain st' where st': "getLongestCommonSubsequence st a la ll0 lu0 b lb rl0 ru0 = Some (Inr st')"
    "lcs_post ?lm ?rm a ll lu b rl ru (lhs_modified st') (rhs_modified st')"
    by blast
  have "lcs_post ?lm ?rm a ll0 lu0 b rl0 ru0 (lhs_modified st') (rhs_modified st')"
    using l3 r3 P S ul ur st'(2) by (rule lcs_post_trim)
  with st'(1) show ?case by blast
qed

section \<open>The change records of compare_lcs\<close>

lemma compare_loop_progress:
  assumes "lhs_line < n \<or> rhs_line < m"
    and "\<not> (lhs_line < n \<and> \<not> truthy (lm lhs_line) \<and> rhs_line < m \<and> \<not> truthy (rm rhs_line))"
  shows "lhs_line < skip_lhs lm n m rhs_line lhs_line \<or>
         rhs_line < skip_rhs rm n m (skip_lhs lm n m rhs_line lhs_line) rhs_line"
proof (cases "lhs_line < n \<and> (rhs_line \<ge> m \<or> truthy (lm lhs_line))")
  case True
  then have "skip_lhs lm n m rhs_line lhs_line = skip_lhs lm n m rhs_line (lhs_line + 1)"
    by (subst skip_lhs.simps) simp
  with skip_lhs_ge [of "lhs_line + 1" lm n m rhs_line] show ?thesis by simp
next
  case False
  then have l: "skip_lhs lm n m rhs_line lhs_line = lhs_line"
    by (subst skip_lhs.simps) auto
  from False assms have "rhs_line < m \<and> (lhs_line \<ge> n \<or> truthy (rm rhs_line))" by auto
  then have "skip_rhs rm n m lhs_line rhs_line = skip_rhs rm n m lhs_line (rhs_line + 1)"
    by (subst skip_rhs.simps) simp
  with skip_rhs_ge [of "rhs_line + 1" rm n m lhs_line] l show ?thesis by simp
qed

text \<open>The number of positions \<open>l \<le> i < n\<close> that are not marked.\<close>

function unmodified :: "marks \<Rightarrow> int \<Rightarrow> int \<Rightarrow> int" where
  "unmodified m l n =
    (if l < n then (if truthy (m l) then 0 else 1) + unmodified m (l + 1) n else 0)"
  by pat_completeness auto
termination
  by (relation "measure (\<lambda>(m, l, n). nat (n - l))") auto

declare unmodified.simps [simp del]

lemma unmodified_done: "n \<le> l \<Longrightarrow> unmodified m l n = 0"
  by (subst unmodified.simps) simp

lemma unmodified_marked: "l < n \<Longrightarrow> truthy (m l) \<Longrightarrow> unmodified m l n = unmodified m (l + 1) n"
  by (subst unmodified.simps) simp

lemma unmodified_unmarked:
  "l < n \<Longrightarrow> \<not> truthy (m l) \<Longrightarrow> unmodified m l n = 1 + unmodified m (l + 1) n"
  by (subst unmodified.simps) simp

lemma unmodified_nonneg: "0 \<le> unmodified m l n"
  by (induction m l n rule: unmodified.induct) (subst unmodified.simps, simp)

lemma unmodified_pos: "l < n \<Longrightarrow> \<not> truthy (m l) \<Longrightarrow> 0 < unmodified m l n"
  using unmodified_nonneg [of m "l + 1" n] by (simp add: unmodified_unmarked)

lemma unmodified_zero: "unmodified m l n = 0 \<Longrightarrow> l \<le> i \<Longrightarrow> i < n \<Longrightarrow> truthy (m i)"
proof (induction m l n rule: unmodified.induct)
  case (1 m l n)
  from 1(3,4) have ln: "l < n" by simp
  show ?case
  proof (cases "truthy (m l)")
    case True
    with 1(2) ln have z: "unmodified m (l + 1) n = 0" by (simp add: unmodified_marked)
    show ?thesis
    proof (cases "i = l")
      case False
      with 1(3) have "l + 1 \<le> i" by simp
      from 1(1) [OF ln z this 1(4)] show ?thesis .
    qed (use True in simp)
  next
    case False
    with unmodified_pos [of l n m] ln 1(2) show ?thesis by simp
  qed
qed

lemma unmodified_skip:
  "l \<le> l' \<Longrightarrow> l' \<le> n \<Longrightarrow> (\<forall>i. l \<le> i \<and> i < l' \<longrightarrow> truthy (m i)) \<Longrightarrow>
   unmodified m l n = unmodified m l' n"
proof (induction "nat (l' - l)" arbitrary: l)
  case 0
  then show ?case by simp
next
  case (Suc k)
  then have lt: "l < l'" "l < n" by linarith+
  with Suc(5) have "truthy (m l)" by simp
  then have "unmodified m l n = unmodified m (l + 1) n" using lt by (simp add: unmodified_marked)
  also have "\<dots> = unmodified m l' n"
    using Suc(2-) lt by (intro Suc(1)) auto
  finally show ?case .
qed

lemma unmodified_kept:
  "0 \<le> l \<Longrightarrow> unmodified m l n = int (length (kept m a l n))"
proof (induction m l n rule: unmodified.induct)
  case (1 m l n)
  show ?case
  proof (cases "l < n")
    case True
    have n: "nat (l + 1) = Suc (nat l)" using 1(2) by simp
    have "nat l < nat n" using True 1(2) by simp
    then have u: "[nat l..<nat n] = nat l # [nat (l + 1)..<nat n]"
      unfolding n by (rule upt_conv_Cons)
    have k: "int (length (kept m a l n)) =
        (if truthy (m l) then 0 else 1) + int (length (kept m a (l + 1) n))"
      using 1(2) unfolding kept_def u by simp
    have "unmodified m (l + 1) n = int (length (kept m a (l + 1) n))"
      using 1(1) [OF True] 1(2) by simp
    with k True show ?thesis by (subst unmodified.simps) simp
  next
    case False
    then show ?thesis by (simp add: unmodified_done kept_def)
  qed
qed

text \<open>
  The state of the outer loop: both lines inside their arrays, and as many
  unmarked positions left on one side as on the other.
\<close>

definition balanced :: "marks \<Rightarrow> int \<Rightarrow> marks \<Rightarrow> int \<Rightarrow> int \<Rightarrow> int \<Rightarrow> bool" where
  "balanced lm n rm m l r =
    (0 \<le> l \<and> l \<le> n \<and> 0 \<le> r \<and> r \<le> m \<and> unmodified lm l n = unmodified rm r m)"

lemma skip_lhs_spec:
  "l \<le> n \<Longrightarrow> (m \<le> r \<longrightarrow> (\<forall>i. l \<le> i \<and> i < n \<longrightarrow> truthy (lm i))) \<Longrightarrow>
   l \<le> skip_lhs lm n m r l \<and> skip_lhs lm n m r l \<le> n \<and>
   (\<forall>i. l \<le> i \<and> i < skip_lhs lm n m r l \<longrightarrow> truthy (lm i)) \<and>
   (skip_lhs lm n m r l < n \<longrightarrow> \<not> truthy (lm (skip_lhs lm n m r l)) \<and> r < m)"
proof (induction lm n m r l rule: skip_lhs.induct)
  case (1 lm n m r l)
  show ?case
  proof (cases "l < n \<and> (r \<ge> m \<or> truthy (lm l))")
    case True
    then have e: "skip_lhs lm n m r l = skip_lhs lm n m r (l + 1)"
      by (subst skip_lhs.simps) simp
    have tl: "truthy (lm l)" using True 1(3) by auto
    have ih: "l + 1 \<le> skip_lhs lm n m r (l + 1) \<and> skip_lhs lm n m r (l + 1) \<le> n \<and>
      (\<forall>i. l + 1 \<le> i \<and> i < skip_lhs lm n m r (l + 1) \<longrightarrow> truthy (lm i)) \<and>
      (skip_lhs lm n m r (l + 1) < n \<longrightarrow> \<not> truthy (lm (skip_lhs lm n m r (l + 1))) \<and> r < m)"
      using True 1(3) by (intro 1(1)) auto
    have "\<forall>i. l \<le> i \<and> i < skip_lhs lm n m r (l + 1) \<longrightarrow> truthy (lm i)"
    proof (intro allI impI)
      fix i assume i: "l \<le> i \<and> i < skip_lhs lm n m r (l + 1)"
      show "truthy (lm i)"
      proof (cases "i = l")
        case False
        with i have "l + 1 \<le> i \<and> i < skip_lhs lm n m r (l + 1)" by simp
        with ih show ?thesis by blast
      qed (use tl in simp)
    qed
    with ih show ?thesis unfolding e by simp
  next
    case False
    then have e: "skip_lhs lm n m r l = l" by (subst skip_lhs.simps) auto
    from False 1(2) show ?thesis unfolding e by auto
  qed
qed

lemma skip_rhs_spec:
  "r \<le> m \<Longrightarrow> (n \<le> l \<longrightarrow> (\<forall>i. r \<le> i \<and> i < m \<longrightarrow> truthy (rm i))) \<Longrightarrow>
   r \<le> skip_rhs rm n m l r \<and> skip_rhs rm n m l r \<le> m \<and>
   (\<forall>i. r \<le> i \<and> i < skip_rhs rm n m l r \<longrightarrow> truthy (rm i)) \<and>
   (skip_rhs rm n m l r < m \<longrightarrow> \<not> truthy (rm (skip_rhs rm n m l r)) \<and> l < n)"
proof (induction rm n m l r rule: skip_rhs.induct)
  case (1 rm n m l r)
  show ?case
  proof (cases "r < m \<and> (l \<ge> n \<or> truthy (rm r))")
    case True
    then have e: "skip_rhs rm n m l r = skip_rhs rm n m l (r + 1)"
      by (subst skip_rhs.simps) simp
    have tl: "truthy (rm r)" using True 1(3) by auto
    have ih: "r + 1 \<le> skip_rhs rm n m l (r + 1) \<and> skip_rhs rm n m l (r + 1) \<le> m \<and>
      (\<forall>i. r + 1 \<le> i \<and> i < skip_rhs rm n m l (r + 1) \<longrightarrow> truthy (rm i)) \<and>
      (skip_rhs rm n m l (r + 1) < m \<longrightarrow> \<not> truthy (rm (skip_rhs rm n m l (r + 1))) \<and> l < n)"
      using True 1(3) by (intro 1(1)) auto
    have "\<forall>i. r \<le> i \<and> i < skip_rhs rm n m l (r + 1) \<longrightarrow> truthy (rm i)"
    proof (intro allI impI)
      fix i assume i: "r \<le> i \<and> i < skip_rhs rm n m l (r + 1)"
      show "truthy (rm i)"
      proof (cases "i = r")
        case False
        with i have "r + 1 \<le> i \<and> i < skip_rhs rm n m l (r + 1)" by simp
        with ih show ?thesis by blast
      qed (use tl in simp)
    qed
    with ih show ?thesis unfolding e by simp
  next
    case False
    then have e: "skip_rhs rm n m l r = r" by (subst skip_rhs.simps) auto
    from False 1(2) show ?thesis unfolding e by auto
  qed
qed

lemma compare_loop_equal:
  "l < n \<Longrightarrow> \<not> truthy (lm l) \<Longrightarrow> r < m \<Longrightarrow> \<not> truthy (rm r) \<Longrightarrow>
   compare_loop lm n rm m l r = compare_loop lm n rm m (l + 1) (r + 1)"
  by (subst compare_loop.simps) simp

lemma balanced_equal:
  "balanced lm n rm m l r \<Longrightarrow> l < n \<Longrightarrow> \<not> truthy (lm l) \<Longrightarrow> r < m \<Longrightarrow> \<not> truthy (rm r) \<Longrightarrow>
   balanced lm n rm m (l + 1) (r + 1)"
  by (simp add: balanced_def unmodified_unmarked)

lemma compare_loop_record:
  assumes b: "balanced lm n rm m l r" and c: "l < n \<or> r < m"
    and ne: "\<not> (l < n \<and> \<not> truthy (lm l) \<and> r < m \<and> \<not> truthy (rm r))"
  obtains l' r' where
    "compare_loop lm n rm m l r = make_item n m l r l' r' # compare_loop lm n rm m l' r'"
    "l \<le> l'" "l' \<le> n" "r \<le> r'" "r' \<le> m" "l < l' \<or> r < r'"
    "\<forall>i. l \<le> i \<and> i < l' \<longrightarrow> truthy (lm i)" "\<forall>i. r \<le> i \<and> i < r' \<longrightarrow> truthy (rm i)"
    "balanced lm n rm m l' r'"
    "(l' = n \<and> r' = m) \<or> (l' < n \<and> r' < m \<and> \<not> truthy (lm l') \<and> \<not> truthy (rm r'))"
proof -
  from b have r: "0 \<le> l" "l \<le> n" "0 \<le> r" "r \<le> m" and u: "unmodified lm l n = unmodified rm r m"
    by (simp_all add: balanced_def)
  define l' where "l' = skip_lhs lm n m r l"
  define r' where "r' = skip_rhs rm n m l' r"
  have pl: "m \<le> r \<longrightarrow> (\<forall>i. l \<le> i \<and> i < n \<longrightarrow> truthy (lm i))"
  proof (intro impI allI)
    fix i assume "m \<le> r" "l \<le> i \<and> i < n"
    then have "unmodified lm l n = 0" using u by (simp add: unmodified_done)
    from unmodified_zero [OF this] \<open>l \<le> i \<and> i < n\<close> show "truthy (lm i)" by simp
  qed
  from skip_lhs_spec [OF r(2) pl]
  have sl: "l \<le> l'" "l' \<le> n" "\<forall>i. l \<le> i \<and> i < l' \<longrightarrow> truthy (lm i)"
    "l' < n \<longrightarrow> \<not> truthy (lm l') \<and> r < m"
    unfolding l'_def by simp_all
  have ul: "unmodified lm l n = unmodified lm l' n"
    using sl(1-3) by (rule unmodified_skip)
  have pr: "n \<le> l' \<longrightarrow> (\<forall>i. r \<le> i \<and> i < m \<longrightarrow> truthy (rm i))"
  proof (intro impI allI)
    fix i assume "n \<le> l'" "r \<le> i \<and> i < m"
    then have "unmodified rm r m = 0" using u ul by (simp add: unmodified_done)
    from unmodified_zero [OF this] \<open>r \<le> i \<and> i < m\<close> show "truthy (rm i)" by simp
  qed
  from skip_rhs_spec [OF r(4) pr]
  have sr: "r \<le> r'" "r' \<le> m" "\<forall>i. r \<le> i \<and> i < r' \<longrightarrow> truthy (rm i)"
    "r' < m \<longrightarrow> \<not> truthy (rm r') \<and> l' < n"
    unfolding r'_def by simp_all
  have ur: "unmodified rm r m = unmodified rm r' m"
    using sr(1-3) by (rule unmodified_skip)
  have b': "balanced lm n rm m l' r'"
    using r sl sr u ul ur by (simp add: balanced_def)
  have fin: "(l' = n \<and> r' = m) \<or> (l' < n \<and> r' < m \<and> \<not> truthy (lm l') \<and> \<not> truthy (rm r'))"
  proof (cases "l' < n")
    case True
    with sl(4) have nl: "\<not> truthy (lm l')" by simp
    from unmodified_pos [of l' n lm] True nl have "0 < unmodified rm r' m" using u ul ur by simp
    then have "r' < m" using unmodified_done [of m r' rm] by (cases "r' < m") simp_all
    with sr(4) True nl show ?thesis by simp
  next
    case False
    with sl(2) have e: "l' = n" by simp
    then have z: "unmodified rm r' m = 0" using u ul ur by (simp add: unmodified_done)
    have "r' = m"
    proof (rule ccontr)
      assume "r' \<noteq> m"
      with sr(2) have lt: "r' < m" by simp
      with sr(4) have "\<not> truthy (rm r')" by simp
      from unmodified_pos [of r' m rm] lt this z show False by simp
    qed
    with e show ?thesis by simp
  qed
  have pg: "l < l' \<or> r < r'"
    using compare_loop_progress [of l n r m lm rm, OF c ne] unfolding l'_def r'_def .
  have "compare_loop lm n rm m l r = make_item n m l r l' r' # compare_loop lm n rm m l' r'"
    using c ne pg unfolding l'_def r'_def
    by (subst compare_loop.simps) (auto simp: Let_def)
  from that [OF this sl(1,2) sr(1,2) pg sl(3) sr(3) b' fin] show thesis .
qed

lemma compare_loop_induct [consumes 1, case_names finished same emit]:
  assumes b: "balanced lm n rm m l r"
    and dn: "\<And>l r. balanced lm n rm m l r \<Longrightarrow> n \<le> l \<Longrightarrow> m \<le> r \<Longrightarrow> P l r []"
    and eq: "\<And>l r. balanced lm n rm m l r \<Longrightarrow> l < n \<Longrightarrow> r < m \<Longrightarrow>
      \<not> truthy (lm l) \<Longrightarrow> \<not> truthy (rm r) \<Longrightarrow> balanced lm n rm m (l + 1) (r + 1) \<Longrightarrow>
      P (l + 1) (r + 1) (compare_loop lm n rm m (l + 1) (r + 1)) \<Longrightarrow>
      P l r (compare_loop lm n rm m (l + 1) (r + 1))"
    and rc: "\<And>l r l' r'. balanced lm n rm m l r \<Longrightarrow> l < n \<or> r < m \<Longrightarrow>
      \<not> (l < n \<and> \<not> truthy (lm l) \<and> r < m \<and> \<not> truthy (rm r)) \<Longrightarrow>
      l \<le> l' \<Longrightarrow> l' \<le> n \<Longrightarrow> r \<le> r' \<Longrightarrow> r' \<le> m \<Longrightarrow> l < l' \<or> r < r' \<Longrightarrow>
      (\<forall>i. l \<le> i \<and> i < l' \<longrightarrow> truthy (lm i)) \<Longrightarrow> (\<forall>i. r \<le> i \<and> i < r' \<longrightarrow> truthy (rm i)) \<Longrightarrow>
      balanced lm n rm m l' r' \<Longrightarrow>
      (l' = n \<and> r' = m) \<or> (l' < n \<and> r' < m \<and> \<not> truthy (lm l') \<and> \<not> truthy (rm r')) \<Longrightarrow>
      P l' r' (compare_loop lm n rm m l' r') \<Longrightarrow>
      P l r (make_item n m l r l' r' # compare_loop lm n rm m l' r')"
  shows "P l r (compare_loop lm n rm m l r)"
  using b
proof (induction "nat (n - l) + nat (m - r)" arbitrary: l r rule: less_induct)
  case less
  note b = less.prems
  show ?case
  proof (cases "l < n \<or> r < m")
    case False
    then have "n \<le> l" "m \<le> r" by simp_all
    with dn [OF b] compare_loop_done [of n l m r lm rm] show ?thesis by simp
  next
    case True
    show ?thesis
    proof (cases "l < n \<and> \<not> truthy (lm l) \<and> r < m \<and> \<not> truthy (rm r)")
      case e: True
      then have e': "l < n" "\<not> truthy (lm l)" "r < m" "\<not> truthy (rm r)" by simp_all
      have b1: "balanced lm n rm m (l + 1) (r + 1)" using b e' by (rule balanced_equal)
      have "nat (n - (l + 1)) + nat (m - (r + 1)) < nat (n - l) + nat (m - r)"
        using e' by linarith
      from less.hyps [OF this b1]
      have "P (l + 1) (r + 1) (compare_loop lm n rm m (l + 1) (r + 1))" .
      from eq [OF b e'(1,3,2,4) b1 this] show ?thesis
        unfolding compare_loop_equal [of l n lm r m rm, OF e'] .
    next
      case False
      from compare_loop_record [OF b True False] obtain l' r' where s:
        "compare_loop lm n rm m l r = make_item n m l r l' r' # compare_loop lm n rm m l' r'"
        "l \<le> l'" "l' \<le> n" "r \<le> r'" "r' \<le> m" "l < l' \<or> r < r'"
        "\<forall>i. l \<le> i \<and> i < l' \<longrightarrow> truthy (lm i)" "\<forall>i. r \<le> i \<and> i < r' \<longrightarrow> truthy (rm i)"
        "balanced lm n rm m l' r'"
        "(l' = n \<and> r' = m) \<or> (l' < n \<and> r' < m \<and> \<not> truthy (lm l') \<and> \<not> truthy (rm r'))"
        by blast
      have "nat (n - l') + nat (m - r') < nat (n - l) + nat (m - r)"
        using s(2-6) by linarith
      from less.hyps [OF this s(9)] have "P l' r' (compare_loop lm n rm m l' r')" .
      from rc [OF b True False s(2-10) this] show ?thesis unfolding s(1) .
    qed
  qed
qed

lemma make_item_lhs:
  "l \<le> l' \<Longrightarrow> l < n \<Longrightarrow>
   lhs_at (make_item n m l r l' r') = l \<and> lhs_del (make_item n m l r l' r') = l' - l"
  by (simp add: make_item_def)

lemma make_item_rhs:
  "r \<le> r' \<Longrightarrow> r < m \<Longrightarrow>
   rhs_at (make_item n m l r l' r') = r \<and> rhs_add (make_item n m l r l' r') = r' - r"
  by (simp add: make_item_def)

lemma make_item_counts:
  "lhs_del (make_item n m l r l' r') = l' - l" "rhs_add (make_item n m l r l' r') = r' - r"
  by (simp_all add: make_item_def)

lemma compare_loop_positive:
  assumes "balanced lm n rm m l r"
  shows "\<forall>c \<in> set (compare_loop lm n rm m l r).
    0 \<le> lhs_del c \<and> 0 \<le> rhs_add c \<and> (0 < lhs_del c \<or> 0 < rhs_add c)"
  using assms
proof (induction rule: compare_loop_induct)
  case (finished l r)
  show ?case by simp
next
  case (same l r)
  then show ?case by simp
next
  case (emit l r l' r')
  have "0 \<le> l' - l \<and> 0 \<le> r' - r \<and> (0 < l' - l \<or> 0 < r' - r)"
    using emit(4,6,8) by auto
  with emit(13) show ?case by (simp add: make_item_counts)
qed

lemma compare_loop_sums:
  assumes "balanced lm n rm m l r"
  shows "sum_list (map lhs_del (compare_loop lm n rm m l r)) = n - l - unmodified lm l n \<and>
         sum_list (map rhs_add (compare_loop lm n rm m l r)) = m - r - unmodified rm r m"
  using assms
proof (induction rule: compare_loop_induct)
  case (finished l r)
  then show ?case by (simp add: balanced_def unmodified_done)
next
  case (same l r)
  then show ?case by (simp add: unmodified_unmarked)
next
  case (emit l r l' r')
  have "unmodified lm l n = unmodified lm l' n" using emit(4,5,9) by (rule unmodified_skip)
  moreover have "unmodified rm r m = unmodified rm r' m" using emit(6,7,10) by (rule unmodified_skip)
  ultimately show ?case using emit(13) by (simp add: make_item_counts)
qed

lemma compare_loop_spans:
  assumes "balanced lm n rm m l r"
  shows "\<forall>c \<in> set (compare_loop lm n rm m l r).
    (0 < lhs_del c \<longrightarrow> l \<le> lhs_at c \<and> lhs_at c + lhs_del c \<le> n) \<and>
    (0 < rhs_add c \<longrightarrow> r \<le> rhs_at c \<and> rhs_at c + rhs_add c \<le> m)"
  using assms
proof (induction rule: compare_loop_induct)
  case (finished l r)
  show ?case by simp
next
  case (same l r)
  then show ?case by fastforce
next
  case (emit l r l' r')
  let ?c = "make_item n m l r l' r'"
  have h1: "0 < lhs_del ?c \<longrightarrow> l \<le> lhs_at ?c \<and> lhs_at ?c + lhs_del ?c \<le> n"
  proof
    assume "0 < lhs_del ?c"
    then have "l < l'" by (simp add: make_item_counts)
    with emit(5) have "l < n" by simp
    from make_item_lhs [OF emit(4) this, of m r r'] emit(5)
    show "l \<le> lhs_at ?c \<and> lhs_at ?c + lhs_del ?c \<le> n" by simp
  qed
  have h2: "0 < rhs_add ?c \<longrightarrow> r \<le> rhs_at ?c \<and> rhs_at ?c + rhs_add ?c \<le> m"
  proof
    assume "0 < rhs_add ?c"
    then have "r < r'" by (simp add: make_item_counts)
    with emit(7) have "r < m" by simp
    from make_item_rhs [OF emit(6) this, of n l l'] emit(7)
    show "r \<le> rhs_at ?c \<and> rhs_at ?c + rhs_add ?c \<le> m" by simp
  qed
  have "\<forall>c \<in> set (compare_loop lm n rm m l' r').
    (0 < lhs_del c \<longrightarrow> l \<le> lhs_at c \<and> lhs_at c + lhs_del c \<le> n) \<and>
    (0 < rhs_add c \<longrightarrow> r \<le> rhs_at c \<and> rhs_at c + rhs_add c \<le> m)"
    using emit(13) emit(4,6) by fastforce
  with h1 h2 show ?case by simp
qed

text \<open>A position is covered by a record when it lies in the record's span.\<close>

definition lhs_covered :: "change list \<Rightarrow> int \<Rightarrow> bool" where
  "lhs_covered cs i = list_ex (\<lambda>c. lhs_at c \<le> i \<and> i < lhs_at c + lhs_del c) cs"

definition rhs_covered :: "change list \<Rightarrow> int \<Rightarrow> bool" where
  "rhs_covered cs i = list_ex (\<lambda>c. rhs_at c \<le> i \<and> i < rhs_at c + rhs_add c) cs"

lemma covered_Nil [simp]: "\<not> lhs_covered [] i" "\<not> rhs_covered [] i"
  by (simp_all add: lhs_covered_def rhs_covered_def)

lemma covered_Cons:
  "lhs_covered (c # cs) i = ((lhs_at c \<le> i \<and> i < lhs_at c + lhs_del c) \<or> lhs_covered cs i)"
  "rhs_covered (c # cs) i = ((rhs_at c \<le> i \<and> i < rhs_at c + rhs_add c) \<or> rhs_covered cs i)"
  by (simp_all add: lhs_covered_def rhs_covered_def)

lemma covered_below:
  assumes "balanced lm n rm m l r"
  shows "i < l \<Longrightarrow> \<not> lhs_covered (compare_loop lm n rm m l r) i"
    and "j < r \<Longrightarrow> \<not> rhs_covered (compare_loop lm n rm m l r) j"
proof -
  note sp = compare_loop_spans [OF assms]
  show "\<not> lhs_covered (compare_loop lm n rm m l r) i" if "i < l"
  proof
    assume "lhs_covered (compare_loop lm n rm m l r) i"
    then obtain c where c: "c \<in> set (compare_loop lm n rm m l r)"
      "lhs_at c \<le> i" "i < lhs_at c + lhs_del c"
      unfolding lhs_covered_def list_ex_iff by blast
    then have "0 < lhs_del c" by simp
    with sp c(1) have "l \<le> lhs_at c" by blast
    with c(2) that show False by simp
  qed
  show "\<not> rhs_covered (compare_loop lm n rm m l r) j" if "j < r"
  proof
    assume "rhs_covered (compare_loop lm n rm m l r) j"
    then obtain c where c: "c \<in> set (compare_loop lm n rm m l r)"
      "rhs_at c \<le> j" "j < rhs_at c + rhs_add c"
      unfolding rhs_covered_def list_ex_iff by blast
    then have "0 < rhs_add c" by simp
    with sp c(1) have "r \<le> rhs_at c" by blast
    with c(2) that show False by simp
  qed
qed

lemma make_item_covers:
  assumes "l \<le> l'" "l' \<le> n"
  shows "(lhs_at (make_item n m l r l' r') \<le> i \<and>
          i < lhs_at (make_item n m l r l' r') + lhs_del (make_item n m l r l' r'))
         = (l \<le> i \<and> i < l')"
proof (cases "l < n")
  case True
  from make_item_lhs [OF assms(1) this, of m r r'] show ?thesis by auto
next
  case False
  with assms have "l' = l" by simp
  then show ?thesis by (auto simp: make_item_counts)
qed

lemma make_item_covers_rhs:
  assumes "r \<le> r'" "r' \<le> m"
  shows "(rhs_at (make_item n m l r l' r') \<le> i \<and>
          i < rhs_at (make_item n m l r l' r') + rhs_add (make_item n m l r l' r'))
         = (r \<le> i \<and> i < r')"
proof (cases "r < m")
  case True
  from make_item_rhs [OF assms(1) this, of n l l'] show ?thesis by auto
next
  case False
  with assms have "r' = r" by simp
  then show ?thesis by (auto simp: make_item_counts)
qed

lemma compare_loop_covering:
  assumes "balanced lm n rm m l r"
  shows "(\<forall>i. l \<le> i \<and> i < n \<longrightarrow> lhs_covered (compare_loop lm n rm m l r) i = truthy (lm i)) \<and>
         (\<forall>i. r \<le> i \<and> i < m \<longrightarrow> rhs_covered (compare_loop lm n rm m l r) i = truthy (rm i))"
  using assms
proof (induction rule: compare_loop_induct)
  case (finished l r)
  then show ?case by auto
next
  case (same l r)
  note nc = covered_below [OF same(6)]
  have "lhs_covered (compare_loop lm n rm m (l + 1) (r + 1)) i = truthy (lm i)"
    if "l \<le> i \<and> i < n" for i
  proof (cases "i = l")
    case True
    with nc(1) [of l] same(4) show ?thesis by simp
  next
    case False
    with that same(7) show ?thesis by simp
  qed
  moreover have "rhs_covered (compare_loop lm n rm m (l + 1) (r + 1)) i = truthy (rm i)"
    if "r \<le> i \<and> i < m" for i
  proof (cases "i = r")
    case True
    with nc(2) [of r] same(5) show ?thesis by simp
  next
    case False
    with that same(7) show ?thesis by simp
  qed
  ultimately show ?case by blast
next
  case (emit l r l' r')
  have "lhs_covered (make_item n m l r l' r' # compare_loop lm n rm m l' r') i = truthy (lm i)"
    if "l \<le> i \<and> i < n" for i
  proof (cases "i < l'")
    case True
    with that emit(9) show ?thesis
      unfolding covered_Cons make_item_covers [OF emit(4,5)] by simp
  next
    case False
    with that emit(13) show ?thesis
      unfolding covered_Cons make_item_covers [OF emit(4,5)] by simp
  qed
  moreover have "rhs_covered (make_item n m l r l' r' # compare_loop lm n rm m l' r') i = truthy (rm i)"
    if "r \<le> i \<and> i < m" for i
  proof (cases "i < r'")
    case True
    with that emit(10) show ?thesis
      unfolding covered_Cons make_item_covers_rhs [OF emit(6,7)] by simp
  next
    case False
    with that emit(13) show ?thesis
      unfolding covered_Cons make_item_covers_rhs [OF emit(6,7)] by simp
  qed
  ultimately show ?case by blast
qed

text \<open>
  The order of the records. The span of a record ends at or before the \<open>at\<close> of the
  next one, on both sides. The \<open>at\<close> values increase strictly, with one exception:
  \<open>Math.min\<close> moves the \<open>at\<close> of a record that starts behind the last position of a
  side back onto the last position; such a record is the last one and changes
  nothing on that side, and the record before it may sit on the same position
  when it changes nothing on that side either.
\<close>

fun in_order :: "int \<Rightarrow> int \<Rightarrow> 'a change_scheme list \<Rightarrow> bool" where
  "in_order n m (c # c' # cs) =
    (lhs_at c + lhs_del c \<le> lhs_at c' \<and> rhs_at c + rhs_add c \<le> rhs_at c' \<and>
     (lhs_at c < lhs_at c' \<or> (cs = [] \<and> lhs_del c = 0 \<and> lhs_del c' = 0 \<and> lhs_at c' = n - 1)) \<and>
     (rhs_at c < rhs_at c' \<or> (cs = [] \<and> rhs_add c = 0 \<and> rhs_add c' = 0 \<and> rhs_at c' = m - 1)) \<and>
     in_order n m (c' # cs))"
| "in_order n m [c] = True"
| "in_order n m [] = True"

text \<open>Where the first record of the rest of the run may be.\<close>

definition first_from :: "int \<Rightarrow> int \<Rightarrow> int \<Rightarrow> int \<Rightarrow> 'a change_scheme list \<Rightarrow> bool" where
  "first_from n m l r cs =
    (case cs of [] \<Rightarrow> True
     | c # cs' \<Rightarrow>
         (l \<le> lhs_at c \<or> (cs' = [] \<and> lhs_del c = 0 \<and> lhs_at c = n - 1)) \<and>
         (r \<le> rhs_at c \<or> (cs' = [] \<and> rhs_add c = 0 \<and> rhs_at c = m - 1)))"

lemma first_from_mono:
  "first_from n m l r cs \<Longrightarrow> l' \<le> l \<Longrightarrow> r' \<le> r \<Longrightarrow> first_from n m l' r' cs"
  by (auto simp: first_from_def split: list.splits)

lemma compare_loop_order:
  assumes "balanced lm n rm m l r"
  shows "in_order n m (compare_loop lm n rm m l r) \<and>
    first_from n m
      (if l < n \<and> r < m \<and> \<not> truthy (lm l) \<and> \<not> truthy (rm r) then l + 1 else l)
      (if l < n \<and> r < m \<and> \<not> truthy (lm l) \<and> \<not> truthy (rm r) then r + 1 else r)
      (compare_loop lm n rm m l r)"
  using assms
proof (induction rule: compare_loop_induct)
  case (finished l r)
  show ?case by (simp add: first_from_def)
next
  case (same l r)
  from same(7) have o: "in_order n m (compare_loop lm n rm m (l + 1) (r + 1))" by simp
  from same(7) have "first_from n m (l + 1) (r + 1) (compare_loop lm n rm m (l + 1) (r + 1))"
    by (auto elim: first_from_mono split: if_splits)
  with o same(2-5) show ?case by simp
next
  case (emit l r l' r')
  let ?c = "make_item n m l r l' r'" and ?rest = "compare_loop lm n rm m l' r'"
  from emit(1) have r0: "0 \<le> l" "l \<le> n" "0 \<le> r" "r \<le> m" by (simp_all add: balanced_def)
  have i1: "(if l < n \<and> r < m \<and> \<not> truthy (lm l) \<and> \<not> truthy (rm r) then l + 1 else l) = l"
    and i2: "(if l < n \<and> r < m \<and> \<not> truthy (lm l) \<and> \<not> truthy (rm r) then r + 1 else r) = r"
    using emit(3) by auto
  have cnt: "lhs_del ?c = l' - l" "rhs_add ?c = r' - r" by (simp_all add: make_item_counts)
  have atl: "l < n \<Longrightarrow> lhs_at ?c = l" and atr: "r < m \<Longrightarrow> rhs_at ?c = r"
    by (simp_all add: make_item_def)
  have atl': "l = n \<Longrightarrow> lhs_at ?c = l \<or> lhs_at ?c = n - 1"
    and atr': "r = m \<Longrightarrow> rhs_at ?c = r \<or> rhs_at ?c = m - 1"
    using r0 by (auto simp: make_item_def)
  show ?case
  proof (cases "l' = n \<and> r' = m")
    case True
    then have rest: "?rest = []" by (simp add: compare_loop_done)
    have "l \<le> lhs_at ?c \<or> (lhs_del ?c = 0 \<and> lhs_at ?c = n - 1)"
    proof (cases "l < n")
      case False
      with r0 have "l = n" by simp
      with atl' True cnt show ?thesis by auto
    qed (use atl in simp)
    moreover have "r \<le> rhs_at ?c \<or> (rhs_add ?c = 0 \<and> rhs_at ?c = m - 1)"
    proof (cases "r < m")
      case False
      with r0 have "r = m" by simp
      with atr' True cnt show ?thesis by auto
    qed (use atr in simp)
    ultimately show ?thesis unfolding rest i1 i2 by (simp add: first_from_def)
  next
    case False
    with emit(12) have f: "l' < n" "r' < m" "\<not> truthy (lm l')" "\<not> truthy (rm r')" by auto
    have lt: "l < n" "r < m" using f emit(4,6) by simp_all
    have c: "lhs_at ?c = l" "rhs_at ?c = r" using atl atr lt by simp_all
    from emit(13) f have o: "in_order n m ?rest" and h: "first_from n m (l' + 1) (r' + 1) ?rest"
      by simp_all
    have "in_order n m (?c # ?rest)"
    proof (cases ?rest)
      case Nil
      then show ?thesis by simp
    next
      case (Cons c' cs')
      from h have hl: "l' + 1 \<le> lhs_at c' \<or> (cs' = [] \<and> lhs_del c' = 0 \<and> lhs_at c' = n - 1)"
        and hr: "r' + 1 \<le> rhs_at c' \<or> (cs' = [] \<and> rhs_add c' = 0 \<and> rhs_at c' = m - 1)"
        unfolding Cons by (simp_all add: first_from_def)
      have "lhs_at ?c + lhs_del ?c \<le> lhs_at c'" using hl f(1) unfolding c cnt by auto
      moreover have "rhs_at ?c + rhs_add ?c \<le> rhs_at c'" using hr f(2) unfolding c cnt by auto
      moreover have "lhs_at ?c < lhs_at c' \<or>
          (cs' = [] \<and> lhs_del ?c = 0 \<and> lhs_del c' = 0 \<and> lhs_at c' = n - 1)"
        using hl f(1) emit(4) unfolding c cnt by auto
      moreover have "rhs_at ?c < rhs_at c' \<or>
          (cs' = [] \<and> rhs_add ?c = 0 \<and> rhs_add c' = 0 \<and> rhs_at c' = m - 1)"
        using hr f(2) emit(6) unfolding c cnt by auto
      ultimately show ?thesis using o unfolding Cons by simp
    qed
    moreover have "first_from n m l r (?c # ?rest)"
      using c by (simp add: first_from_def)
    ultimately show ?thesis unfolding i1 i2 by simp
  qed
qed

text \<open>The number of records whose span holds a position.\<close>

definition lhs_cover :: "'a change_scheme list \<Rightarrow> int \<Rightarrow> nat" where
  "lhs_cover cs i = length (filter (\<lambda>c. lhs_at c \<le> i \<and> i < lhs_at c + lhs_del c) cs)"

definition rhs_cover :: "'a change_scheme list \<Rightarrow> int \<Rightarrow> nat" where
  "rhs_cover cs i = length (filter (\<lambda>c. rhs_at c \<le> i \<and> i < rhs_at c + rhs_add c) cs)"

lemma cover_Cons:
  "lhs_cover (c # cs) i =
    (if lhs_at c \<le> i \<and> i < lhs_at c + lhs_del c then 1 else 0) + lhs_cover cs i"
  "rhs_cover (c # cs) i =
    (if rhs_at c \<le> i \<and> i < rhs_at c + rhs_add c then 1 else 0) + rhs_cover cs i"
  by (simp_all add: lhs_cover_def rhs_cover_def)

lemma cover_Nil [simp]: "lhs_cover [] i = 0" "rhs_cover [] i = 0"
  by (simp_all add: lhs_cover_def rhs_cover_def)

lemma not_covered:
  "\<not> lhs_covered cs i \<Longrightarrow> lhs_cover cs i = 0"
  "\<not> rhs_covered cs j \<Longrightarrow> rhs_cover cs j = 0"
  by (simp_all add: lhs_covered_def rhs_covered_def lhs_cover_def rhs_cover_def list_ex_iff
        filter_empty_conv)

lemma compare_loop_cover:
  assumes "balanced lm n rm m l r"
  shows "(\<forall>i. l \<le> i \<and> i < n \<longrightarrow>
            lhs_cover (compare_loop lm n rm m l r) i = (if truthy (lm i) then 1 else 0)) \<and>
         (\<forall>i. r \<le> i \<and> i < m \<longrightarrow>
            rhs_cover (compare_loop lm n rm m l r) i = (if truthy (rm i) then 1 else 0))"
  using assms
proof (induction rule: compare_loop_induct)
  case (finished l r)
  then show ?case by auto
next
  case (same l r)
  note nc = covered_below [OF same(6)]
  have "lhs_cover (compare_loop lm n rm m (l + 1) (r + 1)) i = (if truthy (lm i) then 1 else 0)"
    if "l \<le> i \<and> i < n" for i
  proof (cases "i = l")
    case True
    with not_covered(1) [OF nc(1) [of l]] same(4) show ?thesis by simp
  next
    case False
    with that same(7) show ?thesis by simp
  qed
  moreover
  have "rhs_cover (compare_loop lm n rm m (l + 1) (r + 1)) i = (if truthy (rm i) then 1 else 0)"
    if "r \<le> i \<and> i < m" for i
  proof (cases "i = r")
    case True
    with not_covered(2) [OF nc(2) [of r]] same(5) show ?thesis by simp
  next
    case False
    with that same(7) show ?thesis by simp
  qed
  ultimately show ?case by blast
next
  case (emit l r l' r')
  note nc = covered_below [OF emit(11)]
  have "lhs_cover (make_item n m l r l' r' # compare_loop lm n rm m l' r') i =
      (if truthy (lm i) then 1 else 0)"
    if "l \<le> i \<and> i < n" for i
  proof (cases "i < l'")
    case True
    with that emit(9) not_covered(1) [OF nc(1) [of i]] show ?thesis
      unfolding cover_Cons make_item_covers [OF emit(4,5)] by simp
  next
    case False
    with that emit(13) show ?thesis
      unfolding cover_Cons make_item_covers [OF emit(4,5)] by simp
  qed
  moreover
  have "rhs_cover (make_item n m l r l' r' # compare_loop lm n rm m l' r') i =
      (if truthy (rm i) then 1 else 0)"
    if "r \<le> i \<and> i < m" for i
  proof (cases "i < r'")
    case True
    with that emit(10) not_covered(2) [OF nc(2) [of i]] show ?thesis
      unfolding cover_Cons make_item_covers_rhs [OF emit(6,7)] by simp
  next
    case False
    with that emit(13) show ?thesis
      unfolding cover_Cons make_item_covers_rhs [OF emit(6,7)] by simp
  qed
  ultimately show ?case by blast
qed

section \<open>The result of diff\<close>

text \<open>
  The codes at the positions of a side that are not marked modified, in increasing
  position order.
\<close>

definition unmarked_codes :: "marks \<Rightarrow> 'c list \<Rightarrow> 'c list" where
  "unmarked_codes m cs = map (nth cs) (filter (\<lambda>i. \<not> truthy (m (int i))) [0..<length cs])"

lemma unmarked_codes_kept: "unmarked_codes m cs = kept m cs 0 (int (length cs))"
  by (simp add: unmarked_codes_def kept_def)

lemma unmarked_codes_subseq: "subseq (unmarked_codes m cs) cs"
proof -
  have "subseq (filter (\<lambda>i. \<not> truthy (m (int i))) [0..<length cs]) [0..<length cs]"
    by simp
  then have "subseq (unmarked_codes m cs) (map (nth cs) [0..<length cs])"
    unfolding unmarked_codes_def by (rule subseq_map)
  then show ?thesis by (simp add: map_nth)
qed

lemma slice_all: "slice a 0 (int (length a)) = a"
  by (simp add: slice_def)

lemma LCS_spec:
  assumes "\<forall>i. \<not> truthy (lm i)" "\<forall>i. \<not> truthy (rm i)"
  shows "\<exists>st. LCS lm a (int (length a)) rm b (int (length b)) = Some (Inr st) \<and>
    lcs_post lm rm a 0 (int (length a)) b 0 (int (length b)) (lhs_modified st) (rhs_modified st)"
proof -
  let ?st = "\<lparr>lhs_modified = lm, rhs_modified = rm, vector_u = (\<lambda>_. None), vector_d = (\<lambda>_. None)\<rparr>"
  have "\<exists>st'. getLongestCommonSubsequence ?st a (int (length a)) 0 (int (length a))
            b (int (length b)) 0 (int (length b)) = Some (Inr st') \<and>
    lcs_post (lhs_modified ?st) (rhs_modified ?st) a 0 (int (length a)) b 0 (int (length b))
      (lhs_modified st') (rhs_modified st')"
    using assms by (intro getLongestCommonSubsequence_spec) simp_all
  then show ?thesis by (simp add: LCS_def)
qed

lemma lcs_post_whole:
  assumes "lcs_post lm rm a 0 (int (length a)) b 0 (int (length b)) lm' rm'"
  shows "unmarked_codes lm' a = unmarked_codes rm' b"
    and "length (unmarked_codes lm' a) = lcs_len a b"
    and "balanced lm' (int (length a)) rm' (int (length b)) 0 0"
proof -
  from assms have k: "kept lm' a 0 (int (length a)) = kept rm' b 0 (int (length b))"
    and n: "length (kept lm' a 0 (int (length a))) = lcs_len (slice a 0 (int (length a))) (slice b 0 (int (length b)))"
    unfolding lcs_post_def by blast+
  show "unmarked_codes lm' a = unmarked_codes rm' b" using k by (simp add: unmarked_codes_kept)
  show "length (unmarked_codes lm' a) = lcs_len a b"
    using n by (simp add: unmarked_codes_kept slice_all)
  have "unmodified lm' 0 (int (length a)) = unmodified rm' 0 (int (length b))"
    using k unmodified_kept [of 0 lm' "int (length a)" a] unmodified_kept [of 0 rm' "int (length b)" b]
    by simp
  then show "balanced lm' (int (length a)) rm' (int (length b)) 0 0"
    by (simp add: balanced_def)
qed

lemma encode_modified:
  "encode split_re enc text s = Inr (enc', ctx) \<Longrightarrow> ctx_modified ctx = (\<lambda>_. None)"
  by (auto dest!: encode_InrD dest: intern_init_modified)

lemma diff_run:
  assumes d: "lhs \<noteq> JUndefined" "rhs \<noteq> JUndefined"
    and e1: "encode split_re new_Encoder lhs (assign getDefaultSettings opts) = Inr (enc1, lc)"
    and e2: "encode split_re enc1 rhs (assign getDefaultSettings opts) = Inr (enc2, rc)"
  obtains st where
    "LCS (ctx_modified lc) (ctx_codes lc) (ctx_length lc)
         (ctx_modified rc) (ctx_codes rc) (ctx_length rc) = Some (Inr st)"
    "lcs_post (\<lambda>_. None) (\<lambda>_. None) (ctx_codes lc) 0 (ctx_length lc) (ctx_codes rc) 0 (ctx_length rc)
       (lhs_modified st) (rhs_modified st)"
    "diff split_re lhs rhs opts =
       Some (Inr (map (add_context (lc\<lparr>ctx_encoder := enc2, ctx_modified := lhs_modified st\<rparr>)
                                   (rc\<lparr>ctx_modified := rhs_modified st\<rparr>))
                  (compare_lcs (lhs_modified st) (ctx_length lc) (rhs_modified st) (ctx_length rc))))"
proof -
  have m: "ctx_modified lc = (\<lambda>_. None)" "ctx_modified rc = (\<lambda>_. None)"
    using e1 e2 by (auto dest: encode_modified)
  have "\<forall>i. \<not> truthy ((\<lambda>_. None) i)" by (simp add: truthy_def)
  from LCS_spec [OF this this, of "ctx_codes lc" "ctx_codes rc"]
  obtain st where st: "LCS (\<lambda>_. None) (ctx_codes lc) (ctx_length lc)
         (\<lambda>_. None) (ctx_codes rc) (ctx_length rc) = Some (Inr st)"
    "lcs_post (\<lambda>_. None) (\<lambda>_. None) (ctx_codes lc) 0 (ctx_length lc) (ctx_codes rc) 0 (ctx_length rc)
       (lhs_modified st) (rhs_modified st)"
    unfolding ctx_length_def by blast
  have "diff split_re lhs rhs opts =
       Some (Inr (map (add_context (lc\<lparr>ctx_encoder := enc2, ctx_modified := lhs_modified st\<rparr>)
                                   (rc\<lparr>ctx_modified := rhs_modified st\<rparr>))
                  (compare_lcs (lhs_modified st) (ctx_length lc) (rhs_modified st) (ctx_length rc))))"
    using d e1 e2 st(1) m by (simp add: diff_def Let_def optimize_id ctx_length_def)
  with st m that show thesis by simp
qed

lemma add_context_fields [simp]:
  "lhs_at (add_context a b c) = lhs_at c" "lhs_del (add_context a b c) = lhs_del c"
  "rhs_at (add_context a b c) = rhs_at c" "rhs_add (add_context a b c) = rhs_add c"
  by (simp_all add: add_context_def)

lemma cover_add_context [simp]:
  "lhs_cover (map (add_context a b) cs) i = lhs_cover cs i"
  "rhs_cover (map (add_context a b) cs) i = rhs_cover cs i"
  by (simp_all add: lhs_cover_def rhs_cover_def filter_map comp_def)

lemma in_order_add_context [simp]:
  "in_order n m (map (add_context a b) cs) = in_order n m cs"
  by (induction n m cs rule: in_order.induct) simp_all

lemma getShortestMiddleSnake_returns:
  assumes "0 \<le> ll" "ll \<le> lu" "lu \<le> int (length a)" "0 \<le> rl" "rl \<le> ru" "ru \<le> int (length b)"
  shows "\<exists>x y vu' vd'. getShortestMiddleSnake a la ll lu b lb rl ru vu vd = Inr ((x, y), vu', vd') \<and>
      ll \<le> x \<and> x \<le> lu \<and> rl \<le> y \<and> y \<le> ru"
proof -
  let ?E = "sms_env a la ll lu b lb rl ru"
  let ?vd = "vd(offset_down ?E + kdown ?E + 1 := Some ll)"
  let ?vu = "vu(offset_up ?E + kup ?E - 1 := Some lu)"
  have wf: "wf_env ?E" using assms by (rule wf_sms_env)
  have E: "lhs_lower ?E = ll" "lhs_upper ?E = lu" "rhs_lower ?E = rl" "rhs_upper ?E = ru"
    by (simp_all add: sms_env_def Let_def)
  have dr: "down_ready ?E 0 ?vd" by (simp add: down_ready_def E)
  have ur: "up_ready ?E 0 ?vu" by (simp add: up_ready_def E)
  from sms_loop_point [OF wf dr ur] wf_lengths [OF wf]
  obtain x y vu' vd' p q where res: "sms_loop ?E 0 ?vu ?vd = Inr ((x, y), vu', vd')"
    "x = ll + p" "y = rl + q" "0 \<le> p" "p \<le> lu - ll" "0 \<le> q" "q \<le> ru - rl"
    unfolding E by auto
  then have "getShortestMiddleSnake a la ll lu b lb rl ru vu vd = Inr ((x, y), vu', vd')"
    by (simp add: getShortestMiddleSnake_def Let_def)
  with res(2-7) show ?thesis by simp
qed

lemma diff_not_unexpected:
  "diff split_re lhs rhs opts \<noteq> Some (Inl UnexpectedState) \<and> diff split_re lhs rhs opts \<noteq> None"
proof (cases "lhs = JUndefined \<or> rhs = JUndefined")
  case True
  then show ?thesis by (auto simp: diff_def)
next
  case False
  then have d: "lhs \<noteq> JUndefined" "rhs \<noteq> JUndefined" by simp_all
  let ?s = "assign getDefaultSettings opts"
  show ?thesis
  proof (cases "encode split_re new_Encoder lhs ?s")
    case (Inl e)
    have "diff split_re lhs rhs opts = Some (Inl e)"
      using d Inl by (simp add: diff_def Let_def)
    moreover have "e \<noteq> UnexpectedState" using encode_error [OF Inl] by auto
    ultimately show ?thesis by simp
  next
    case (Inr p1)
    obtain enc1 lc where p1: "p1 = (enc1, lc)" by (cases p1)
    note e1 = Inr [unfolded p1]
    show ?thesis
    proof (cases "encode split_re enc1 rhs ?s")
      case (Inl e)
      have "diff split_re lhs rhs opts = Some (Inl e)"
        using d e1 Inl by (simp add: diff_def Let_def)
      moreover have "e \<noteq> UnexpectedState" using encode_error [OF Inl] by auto
      ultimately show ?thesis by simp
    next
      case i2: (Inr p2)
      obtain enc2 rc where p2: "p2 = (enc2, rc)" by (cases p2)
      note e2 = i2 [unfolded p2]
      obtain st where
        "LCS (ctx_modified lc) (ctx_codes lc) (ctx_length lc)
             (ctx_modified rc) (ctx_codes rc) (ctx_length rc) = Some (Inr st)"
        "lcs_post (\<lambda>_. None) (\<lambda>_. None) (ctx_codes lc) 0 (ctx_length lc) (ctx_codes rc) 0 (ctx_length rc)
           (lhs_modified st) (rhs_modified st)"
        and r: "diff split_re lhs rhs opts =
           Some (Inr (map (add_context (lc\<lparr>ctx_encoder := enc2, ctx_modified := lhs_modified st\<rparr>)
                                       (rc\<lparr>ctx_modified := rhs_modified st\<rparr>))
                      (compare_lcs (lhs_modified st) (ctx_length lc) (rhs_modified st) (ctx_length rc))))"
        by (rule diff_run [OF d e1 e2])
      show ?thesis unfolding r by simp
    qed
  qed
qed

text \<open>The positions \<open>i < n\<close> of a side that no record covers.\<close>

definition lhs_uncovered :: "'a change_scheme list \<Rightarrow> nat \<Rightarrow> nat list" where
  "lhs_uncovered cs n = filter (\<lambda>i. lhs_cover cs (int i) = 0) [0..<n]"

definition rhs_uncovered :: "'a change_scheme list \<Rightarrow> nat \<Rightarrow> nat list" where
  "rhs_uncovered cs n = filter (\<lambda>i. rhs_cover cs (int i) = 0) [0..<n]"

lemma uncovered_unmarked:
  assumes "balanced lm (int (length a)) rm (int (length b)) 0 0"
  shows "length (lhs_uncovered (compare_lcs lm (int (length a)) rm (int (length b))) (length a))
           = length (unmarked_codes lm a)"
    and "length (rhs_uncovered (compare_lcs lm (int (length a)) rm (int (length b))) (length b))
           = length (unmarked_codes rm b)"
proof -
  let ?cs = "compare_loop lm (int (length a)) rm (int (length b)) 0 0"
  note cv = compare_loop_cover [OF assms]
  have "filter (\<lambda>i. lhs_cover ?cs (int i) = 0) [0..<length a] =
        filter (\<lambda>i. \<not> truthy (lm (int i))) [0..<length a]"
  proof (rule filter_cong [OF refl])
    fix i assume "i \<in> set [0..<length a]"
    then have "0 \<le> int i \<and> int i < int (length a)" by simp
    with cv have "lhs_cover ?cs (int i) = (if truthy (lm (int i)) then 1 else 0)" by blast
    then show "(lhs_cover ?cs (int i) = 0) = (\<not> truthy (lm (int i)))" by simp
  qed
  then show "length (lhs_uncovered (compare_lcs lm (int (length a)) rm (int (length b))) (length a))
           = length (unmarked_codes lm a)"
    by (simp add: lhs_uncovered_def unmarked_codes_def compare_lcs_def)
  have "filter (\<lambda>i. rhs_cover ?cs (int i) = 0) [0..<length b] =
        filter (\<lambda>i. \<not> truthy (rm (int i))) [0..<length b]"
  proof (rule filter_cong [OF refl])
    fix i assume "i \<in> set [0..<length b]"
    then have "0 \<le> int i \<and> int i < int (length b)" by simp
    with cv have "rhs_cover ?cs (int i) = (if truthy (rm (int i)) then 1 else 0)" by blast
    then show "(rhs_cover ?cs (int i) = 0) = (\<not> truthy (rm (int i)))" by simp
  qed
  then show "length (rhs_uncovered (compare_lcs lm (int (length a)) rm (int (length b))) (length b))
           = length (unmarked_codes rm b)"
    by (simp add: rhs_uncovered_def unmarked_codes_def compare_lcs_def)
qed

lemma uncovered_add_context [simp]:
  "lhs_uncovered (map (add_context a b) cs) n = lhs_uncovered cs n"
  "rhs_uncovered (map (add_context a b) cs) n = rhs_uncovered cs n"
  by (simp_all add: lhs_uncovered_def rhs_uncovered_def)

lemma sums_add_context [simp]:
  "map lhs_del (map (add_context a b) cs) = map lhs_del cs"
  "map rhs_add (map (add_context a b) cs) = map rhs_add cs"
  by simp_all

text \<open>
  C1. Whatever the inputs and the settings, when both contexts are built: \<open>LCS\<close>
  returns on their two code sequences, the codes it leaves unmarked are the same sequence on both
  sides, that sequence is a subsequence of both code sequences, and no common
  subsequence is longer.
\<close>

theorem LCS_longest_common_subsequence:
  assumes "encode split_re new_Encoder lhs s = Inr (enc1, lc)"
    and "encode split_re enc1 rhs s = Inr (enc2, rc)"
  shows "\<exists>st. LCS (ctx_modified lc) (ctx_codes lc) (ctx_length lc)
                  (ctx_modified rc) (ctx_codes rc) (ctx_length rc) = Some (Inr st) \<and>
    unmarked_codes (lhs_modified st) (ctx_codes lc) = unmarked_codes (rhs_modified st) (ctx_codes rc) \<and>
    subseq (unmarked_codes (lhs_modified st) (ctx_codes lc)) (ctx_codes lc) \<and>
    subseq (unmarked_codes (rhs_modified st) (ctx_codes rc)) (ctx_codes rc) \<and>
    (\<forall>c. subseq c (ctx_codes lc) \<and> subseq c (ctx_codes rc) \<longrightarrow>
         length c \<le> length (unmarked_codes (lhs_modified st) (ctx_codes lc)))"
proof -
  have m: "ctx_modified lc = (\<lambda>_. None)" "ctx_modified rc = (\<lambda>_. None)"
    using assms by (auto dest: encode_modified)
  have "\<forall>i. \<not> truthy ((\<lambda>_. None) i)" by (simp add: truthy_def)
  from LCS_spec [OF this this, of "ctx_codes lc" "ctx_codes rc"]
  obtain st where st: "LCS (ctx_modified lc) (ctx_codes lc) (ctx_length lc)
         (ctx_modified rc) (ctx_codes rc) (ctx_length rc) = Some (Inr st)"
    and post: "lcs_post (\<lambda>_. None) (\<lambda>_. None) (ctx_codes lc) 0 (int (length (ctx_codes lc)))
       (ctx_codes rc) 0 (int (length (ctx_codes rc))) (lhs_modified st) (rhs_modified st)"
    unfolding ctx_length_def m by blast
  note w = lcs_post_whole [OF post]
  have "length c \<le> length (unmarked_codes (lhs_modified st) (ctx_codes lc))"
    if "subseq c (ctx_codes lc) \<and> subseq c (ctx_codes rc)" for c
    using that lcs_len_max [of c "ctx_codes lc" "ctx_codes rc"] w(2) by simp
  with st w(1) unmarked_codes_subseq show ?thesis by blast
qed

text \<open>The lines a, b against a, x, b, y with the default options.\<close>

lemma Inr_projr: "\<not> isl x \<Longrightarrow> x = Inr (fst (projr x), snd (projr x))"
  by (cases x) auto

lemma example_encodes:
  "\<not> isl (encode split_default new_Encoder (JString [CHR ''a'', CHR 0x0A, CHR ''b'']) (assign getDefaultSettings None))"
  "\<not> isl (encode split_default (fst (projr (encode split_default new_Encoder (JString [CHR ''a'', CHR 0x0A, CHR ''b'']) (assign getDefaultSettings None))))
      (JString [CHR ''a'', CHR 0x0A, CHR ''x'', CHR 0x0A, CHR ''b'', CHR 0x0A, CHR ''y'']) (assign getDefaultSettings None))"
  by code_simp+

lemma codes_example:
  "ctx_codes (snd (projr (encode split_default new_Encoder (JString [CHR ''a'', CHR 0x0A, CHR ''b'']) (assign getDefaultSettings None)))) = [Num 1, Num 2]"
  "ctx_codes (snd (projr (encode split_default (fst (projr (encode split_default new_Encoder (JString [CHR ''a'', CHR 0x0A, CHR ''b'']) (assign getDefaultSettings None))))
      (JString [CHR ''a'', CHR 0x0A, CHR ''x'', CHR 0x0A, CHR ''b'', CHR 0x0A, CHR ''y'']) (assign getDefaultSettings None)))) = [Num 1, Num 3, Num 2, Num 4]"
  by code_simp+

lemma lcs_len_example: "lcs_len [Num 1, Num 2] [Num 1, Num 3, Num 2, Num 4] = 2"
  by code_simp

lemma spans_example:
  "spans (diff split_default (JString [CHR ''a'', CHR 0x0A, CHR ''b''])
            (JString [CHR ''a'', CHR 0x0A, CHR ''x'', CHR 0x0A, CHR ''b'', CHR 0x0A, CHR ''y'']) None)
   = Some (Inr [(1, 0, 1, 1), (1, 0, 3, 1)])"
  by code_simp

lemma spans_InrD:
  assumes "spans r = Some (Inr xs)"
  shows "\<exists>its. r = Some (Inr its) \<and> map (\<lambda>i. (lhs_at i, lhs_del i, rhs_at i, rhs_add i)) its = xs"
proof (cases r)
  case None
  with assms show ?thesis by (simp add: spans_def)
next
  case (Some v)
  with assms show ?thesis by (cases v) (simp_all add: spans_def)
qed

lemma items_example:
  "\<exists>its. diff split_default (JString [CHR ''a'', CHR 0x0A, CHR ''b''])
      (JString [CHR ''a'', CHR 0x0A, CHR ''x'', CHR 0x0A, CHR ''b'', CHR 0x0A, CHR ''y'']) None = Some (Inr its) \<and>
    map lhs_at its = [1, 1] \<and> its \<noteq> []"
proof -
  from spans_InrD [OF spans_example] obtain its where
    x: "diff split_default (JString [CHR ''a'', CHR 0x0A, CHR ''b''])
      (JString [CHR ''a'', CHR 0x0A, CHR ''x'', CHR 0x0A, CHR ''b'', CHR 0x0A, CHR ''y'']) None = Some (Inr its) \<and>
      map (\<lambda>i. (lhs_at i, lhs_del i, rhs_at i, rhs_add i)) its = [(1, 0, 1, 1), (1, 0, 3, 1)]" ..
  note d = x [THEN conjunct1] and m = x [THEN conjunct2]
  have "map lhs_at its = map fst (map (\<lambda>i. (lhs_at i, lhs_del i, rhs_at i, rhs_add i)) its)"
    by (simp add: comp_def)
  then have a: "map lhs_at its = [1, 1]" unfolding m by simp
  then have "its \<noteq> []" by auto
  with d a have "diff split_default (JString [CHR ''a'', CHR 0x0A, CHR ''b''])
      (JString [CHR ''a'', CHR 0x0A, CHR ''x'', CHR 0x0A, CHR ''b'', CHR 0x0A, CHR ''y'']) None = Some (Inr its) \<and>
    map lhs_at its = [1, 1] \<and> its \<noteq> []" by (intro conjI)
  then show ?thesis by (rule exI)
qed

theorem LCS_longest_common_subsequence_witness:
  "\<exists>st. LCS (\<lambda>_. None) [Num 1, Num 2] (int (length [Num 1, Num 2]))
             (\<lambda>_. None) [Num 1, Num 3, Num 2, Num 4] (int (length [Num 1, Num 3, Num 2, Num 4]))
          = Some (Inr st) \<and>
     unmarked_codes (lhs_modified st) [Num 1, Num 2]
       = unmarked_codes (rhs_modified st) [Num 1, Num 3, Num 2, Num 4] \<and>
     length [Num 1, Num 2] \<le> length (unmarked_codes (lhs_modified st) [Num 1, Num 2])"
proof -
  let ?E1 = "encode split_default new_Encoder (JString [CHR ''a'', CHR 0x0A, CHR ''b'']) (assign getDefaultSettings None)"
  let ?E2 = "encode split_default (fst (projr (encode split_default new_Encoder (JString [CHR ''a'', CHR 0x0A, CHR ''b'']) (assign getDefaultSettings None))))
      (JString [CHR ''a'', CHR 0x0A, CHR ''x'', CHR 0x0A, CHR ''b'', CHR 0x0A, CHR ''y'']) (assign getDefaultSettings None)"
  note e1 = Inr_projr [OF example_encodes(1)] and e2 = Inr_projr [OF example_encodes(2)]
  note m1 = encode_modified [OF e1] and m2 = encode_modified [OF e2]
  have s: "subseq [Num 1, Num 2] [Num 1, Num 2] \<and> subseq [Num 1, Num 2] [Num 1, Num 3, Num 2, Num 4]"
    by simp
  from LCS_longest_common_subsequence [OF e1 e2, unfolded m1 m2 ctx_length_def codes_example]
  obtain st where
    st: "LCS (\<lambda>_. None) [Num 1, Num 2] (int (length [Num 1, Num 2]))
             (\<lambda>_. None) [Num 1, Num 3, Num 2, Num 4] (int (length [Num 1, Num 3, Num 2, Num 4]))
          = Some (Inr st) \<and>
      unmarked_codes (lhs_modified st) [Num 1, Num 2]
        = unmarked_codes (rhs_modified st) [Num 1, Num 3, Num 2, Num 4] \<and>
      subseq (unmarked_codes (lhs_modified st) [Num 1, Num 2]) [Num 1, Num 2] \<and>
      subseq (unmarked_codes (rhs_modified st) [Num 1, Num 3, Num 2, Num 4])
        [Num 1, Num 3, Num 2, Num 4] \<and>
      (\<forall>c. subseq c [Num 1, Num 2] \<and> subseq c [Num 1, Num 3, Num 2, Num 4] \<longrightarrow>
         length c \<le> length (unmarked_codes (lhs_modified st) [Num 1, Num 2]))" ..
  note l = st [THEN conjunct1]
  note eq = st [THEN conjunct2, THEN conjunct1]
  note mx = st [THEN conjunct2, THEN conjunct2, THEN conjunct2, THEN conjunct2,
      THEN spec, of "[Num 1, Num 2]", THEN mp, OF s]
  have "LCS (\<lambda>_. None) [Num 1, Num 2] (int (length [Num 1, Num 2]))
             (\<lambda>_. None) [Num 1, Num 3, Num 2, Num 4] (int (length [Num 1, Num 3, Num 2, Num 4]))
          = Some (Inr st) \<and>
     unmarked_codes (lhs_modified st) [Num 1, Num 2]
       = unmarked_codes (rhs_modified st) [Num 1, Num 3, Num 2, Num 4] \<and>
     length [Num 1, Num 2] \<le> length (unmarked_codes (lhs_modified st) [Num 1, Num 2])"
    by (intro conjI l eq mx)
  then show ?thesis by (rule exI)
qed

text \<open>
  C2. When both inputs are given and both contexts are built, \<open>diff\<close> returns a
  list of records for which: the
  left positions that no delete span covers are as many as the right positions that
  no add span covers, namely the length of a longest common subsequence of the two
  code sequences (\<open>lcs_len\<close>, see \<open>lcs_len_witness\<close> and \<open>lcs_len_max\<close>); the left
  length less that number is the sum of the delete counts, the right length less
  that number is the sum of the add counts.
\<close>

theorem diff_conservation:
  assumes "lhs \<noteq> JUndefined" and "rhs \<noteq> JUndefined"
    and "encode split_re new_Encoder lhs (assign getDefaultSettings opts) = Inr (enc1, lc)"
    and "encode split_re enc1 rhs (assign getDefaultSettings opts) = Inr (enc2, rc)"
  shows "\<exists>items. diff split_re lhs rhs opts = Some (Inr items) \<and>
    length (lhs_uncovered items (length (ctx_codes lc))) = lcs_len (ctx_codes lc) (ctx_codes rc) \<and>
    length (rhs_uncovered items (length (ctx_codes rc))) = lcs_len (ctx_codes lc) (ctx_codes rc) \<and>
    ctx_length lc - int (length (lhs_uncovered items (length (ctx_codes lc))))
      = sum_list (map lhs_del items) \<and>
    ctx_length rc - int (length (rhs_uncovered items (length (ctx_codes rc))))
      = sum_list (map rhs_add items)"
proof -
  let ?a = "ctx_codes lc" and ?b = "ctx_codes rc"
  obtain st where
    l: "LCS (ctx_modified lc) (ctx_codes lc) (ctx_length lc)
         (ctx_modified rc) (ctx_codes rc) (ctx_length rc) = Some (Inr st)" and
    post: "lcs_post (\<lambda>_. None) (\<lambda>_. None) ?a 0 (ctx_length lc) ?b 0 (ctx_length rc)
       (lhs_modified st) (rhs_modified st)"
    and d: "diff split_re lhs rhs opts =
       Some (Inr (map (add_context (lc\<lparr>ctx_encoder := enc2, ctx_modified := lhs_modified st\<rparr>)
                                   (rc\<lparr>ctx_modified := rhs_modified st\<rparr>))
                  (compare_lcs (lhs_modified st) (ctx_length lc) (rhs_modified st) (ctx_length rc))))"
    by (rule diff_run [OF assms])
  let ?lm = "lhs_modified st" and ?rm = "rhs_modified st"
  let ?cs = "compare_lcs ?lm (int (length ?a)) ?rm (int (length ?b))"
  have post': "lcs_post (\<lambda>_. None) (\<lambda>_. None) ?a 0 (int (length ?a)) ?b 0 (int (length ?b)) ?lm ?rm"
    using post unfolding ctx_length_def .
  note w = lcs_post_whole [OF post']
  note u = uncovered_unmarked [OF w(3)]
  have n1: "length (lhs_uncovered ?cs (length ?a)) = lcs_len ?a ?b" using u(1) w(2) by simp
  have n2: "length (rhs_uncovered ?cs (length ?b)) = lcs_len ?a ?b" using u(2) w(1,2) by simp
  have k1: "unmodified ?lm 0 (int (length ?a)) = int (lcs_len ?a ?b)"
    unfolding unmodified_kept [of 0 ?lm "int (length ?a)" ?a, OF order_refl]
      unmarked_codes_kept [symmetric] w(2) ..
  have k2: "unmodified ?rm 0 (int (length ?b)) = int (lcs_len ?a ?b)"
    unfolding unmodified_kept [of 0 ?rm "int (length ?b)" ?b, OF order_refl]
      unmarked_codes_kept [symmetric] w(1) [symmetric] w(2) ..
  from compare_loop_sums [OF w(3)]
  have sm: "sum_list (map lhs_del ?cs) = int (length ?a) - int (lcs_len ?a ?b)"
    "sum_list (map rhs_add ?cs) = int (length ?b) - int (lcs_len ?a ?b)"
    unfolding compare_lcs_def k1 k2 by simp_all
  let ?items = "map (add_context (lc\<lparr>ctx_encoder := enc2, ctx_modified := lhs_modified st\<rparr>)
                                   (rc\<lparr>ctx_modified := rhs_modified st\<rparr>)) ?cs"
  have "diff split_re lhs rhs opts = Some (Inr ?items)" using d unfolding ctx_length_def .
  moreover have "length (lhs_uncovered ?items (length ?a)) = lcs_len ?a ?b"
    unfolding uncovered_add_context by (rule n1)
  moreover have "length (rhs_uncovered ?items (length ?b)) = lcs_len ?a ?b"
    unfolding uncovered_add_context by (rule n2)
  moreover have "ctx_length lc - int (length (lhs_uncovered ?items (length ?a))) = sum_list (map lhs_del ?items)"
    unfolding uncovered_add_context sums_add_context n1 sm ctx_length_def ..
  moreover have "ctx_length rc - int (length (rhs_uncovered ?items (length ?b))) = sum_list (map rhs_add ?items)"
    unfolding uncovered_add_context sums_add_context n2 sm ctx_length_def ..
  ultimately show ?thesis by blast
qed

theorem diff_conservation_witness:
  "(JString [CHR ''a'', CHR 0x0A, CHR ''b'']) \<noteq> JUndefined \<and>
   (JString [CHR ''a'', CHR 0x0A, CHR ''x'', CHR 0x0A, CHR ''b'', CHR 0x0A, CHR ''y'']) \<noteq> JUndefined \<and>
   (\<exists>items. diff split_default (JString [CHR ''a'', CHR 0x0A, CHR ''b''])
        (JString [CHR ''a'', CHR 0x0A, CHR ''x'', CHR 0x0A, CHR ''b'', CHR 0x0A, CHR ''y'']) None = Some (Inr items) \<and>
      length (lhs_uncovered items (length [Num 1, Num 2])) = 2 \<and>
      length (rhs_uncovered items (length [Num 1, Num 3, Num 2, Num 4])) = 2 \<and>
      int (length [Num 1, Num 2]) - int (length (lhs_uncovered items (length [Num 1, Num 2])))
        = sum_list (map lhs_del items) \<and>
      int (length [Num 1, Num 3, Num 2, Num 4])
        - int (length (rhs_uncovered items (length [Num 1, Num 3, Num 2, Num 4])))
        = sum_list (map rhs_add items))"
proof -
  note e1 = Inr_projr [OF example_encodes(1)] and e2 = Inr_projr [OF example_encodes(2)]
  have n1: "(JString [CHR ''a'', CHR 0x0A, CHR ''b'']) \<noteq> JUndefined"
    and n2: "(JString [CHR ''a'', CHR 0x0A, CHR ''x'', CHR 0x0A, CHR ''b'', CHR 0x0A, CHR ''y'']) \<noteq> JUndefined"
    by simp_all
  note t = diff_conservation [OF n1 n2 e1 e2,
      unfolded ctx_length_def codes_example lcs_len_example]
  show ?thesis by (intro conjI n1 n2 t)
qed




text \<open>
  C9. On ranges that lie inside the two code arrays, are not empty and are trimmed
  (the first codes differ and the last codes differ), the search of
  \<open>getShortestMiddleSnake\<close> meets within the bound of its loop and returns the point
  where it met; the throw behind the loop is not reached. The point lies in the
  ranges, is neither their lower nor their upper corner, and is a midpoint of a
  shortest edit script: the longest common subsequence of the ranges is made of
  those of the two parts, and of the edit distance \<open>dist\<close> of the ranges (the
  number of deletions and insertions, \<open>dist_def\<close>) the first part has the upper
  half and the second part the lower half. So \<open>diff\<close> always returns, and never
  with the exception of that throw.
\<close>

theorem getShortestMiddleSnake_finds_midpoint:
  "(0 \<le> ll \<and> ll < lu \<and> lu \<le> int (length a) \<and> 0 \<le> rl \<and> rl < ru \<and> ru \<le> int (length b) \<and>
    a ! nat ll \<noteq> b ! nat rl \<and> a ! nat (lu - 1) \<noteq> b ! nat (ru - 1) \<longrightarrow>
     (\<exists>x y vu' vd'.
        getShortestMiddleSnake a la ll lu b lb rl ru vu vd = Inr ((x, y), vu', vd') \<and>
        ll \<le> x \<and> x \<le> lu \<and> rl \<le> y \<and> y \<le> ru \<and> (x, y) \<noteq> (ll, rl) \<and> (x, y) \<noteq> (lu, ru) \<and>
        lcs_len (slice a ll lu) (slice b rl ru) =
          lcs_len (slice a ll x) (slice b rl y) + lcs_len (slice a x lu) (slice b y ru) \<and>
        dist (slice a ll x) (slice b rl y) = (dist (slice a ll lu) (slice b rl ru) + 1) div 2 \<and>
        dist (slice a x lu) (slice b y ru) = dist (slice a ll lu) (slice b rl ru) div 2)) \<and>
   diff split_re lhs rhs opts \<noteq> Some (Inl UnexpectedState) \<and>
   diff split_re lhs rhs opts \<noteq> None"
proof (intro conjI impI)
  assume h: "0 \<le> ll \<and> ll < lu \<and> lu \<le> int (length a) \<and> 0 \<le> rl \<and> rl < ru \<and> ru \<le> int (length b) \<and>
    a ! nat ll \<noteq> b ! nat rl \<and> a ! nat (lu - 1) \<noteq> b ! nat (ru - 1)"
  then have r: "0 \<le> ll" "ll < lu" "lu \<le> int (length a)" "0 \<le> rl" "rl < ru" "ru \<le> int (length b)"
    "a ! nat ll \<noteq> b ! nat rl" "a ! nat (lu - 1) \<noteq> b ! nat (ru - 1)"
    by simp_all
  from getShortestMiddleSnake_spec [OF r, of la lb vu vd]
  obtain x y vu' vd' where s:
    "getShortestMiddleSnake a la ll lu b lb rl ru vu vd = Inr ((x, y), vu', vd')"
    "ll \<le> x" "x \<le> lu" "rl \<le> y" "y \<le> ru" "x \<noteq> ll \<or> y \<noteq> rl" "x \<noteq> lu \<or> y \<noteq> ru"
    "lcs_len (slice a ll lu) (slice b rl ru) =
      lcs_len (slice a ll x) (slice b rl y) + lcs_len (slice a x lu) (slice b y ru)"
    "dist (slice a ll x) (slice b rl y) = (dist (slice a ll lu) (slice b rl ru) + 1) div 2"
    "dist (slice a x lu) (slice b y ru) = dist (slice a ll lu) (slice b rl ru) div 2"
    by blast
  from s(6,7) have "(x, y) \<noteq> (ll, rl)" "(x, y) \<noteq> (lu, ru)" by auto
  with s show "\<exists>x y vu' vd'.
        getShortestMiddleSnake a la ll lu b lb rl ru vu vd = Inr ((x, y), vu', vd') \<and>
        ll \<le> x \<and> x \<le> lu \<and> rl \<le> y \<and> y \<le> ru \<and> (x, y) \<noteq> (ll, rl) \<and> (x, y) \<noteq> (lu, ru) \<and>
        lcs_len (slice a ll lu) (slice b rl ru) =
          lcs_len (slice a ll x) (slice b rl y) + lcs_len (slice a x lu) (slice b y ru) \<and>
        dist (slice a ll x) (slice b rl y) = (dist (slice a ll lu) (slice b rl ru) + 1) div 2 \<and>
        dist (slice a x lu) (slice b y ru) = dist (slice a ll lu) (slice b rl ru) div 2"
    by blast
next
  show "diff split_re lhs rhs opts \<noteq> Some (Inl UnexpectedState)"
    using diff_not_unexpected by (rule conjunct1)
next
  show "diff split_re lhs rhs opts \<noteq> None"
    using diff_not_unexpected by (rule conjunct2)
qed

theorem getShortestMiddleSnake_finds_midpoint_witness:
  "(0::int) \<le> 0 \<and> (0::int) < 2 \<and> 2 \<le> int (length [1::nat, 2]) \<and>
   (0::int) \<le> 0 \<and> (0::int) < 1 \<and> 1 \<le> int (length [3::nat]) \<and>
   [1::nat, 2] ! nat 0 \<noteq> [3] ! nat 0 \<and> [1::nat, 2] ! nat (2 - 1) \<noteq> [3] ! nat (1 - 1) \<and>
   (\<exists>x y vu' vd'.
      getShortestMiddleSnake [1::nat, 2] 2 0 2 [3] 1 0 1 (\<lambda>_. None) (\<lambda>_. None)
        = Inr ((x, y), vu', vd') \<and>
      0 \<le> x \<and> x \<le> 2 \<and> 0 \<le> y \<and> y \<le> 1 \<and> (x, y) \<noteq> (0, 0) \<and> (x, y) \<noteq> (2, 1) \<and>
      lcs_len (slice [1::nat, 2] 0 2) (slice [3] 0 1) =
        lcs_len (slice [1::nat, 2] 0 x) (slice [3] 0 y)
          + lcs_len (slice [1::nat, 2] x 2) (slice [3] y 1) \<and>
      dist (slice [1::nat, 2] 0 x) (slice [3] 0 y)
        = (dist (slice [1::nat, 2] 0 2) (slice [3] 0 1) + 1) div 2 \<and>
      dist (slice [1::nat, 2] x 2) (slice [3] y 1)
        = dist (slice [1::nat, 2] 0 2) (slice [3] 0 1) div 2)"
proof -
  have h: "(0::int) \<le> 0 \<and> (0::int) < 2 \<and> 2 \<le> int (length [1::nat, 2]) \<and>
     (0::int) \<le> 0 \<and> (0::int) < 1 \<and> 1 \<le> int (length [3::nat]) \<and>
     [1::nat, 2] ! nat 0 \<noteq> [3] ! nat 0 \<and> [1::nat, 2] ! nat (2 - 1) \<noteq> [3] ! nat (1 - 1)"
    by simp
  note t = getShortestMiddleSnake_finds_midpoint [where ll = 0 and lu = 2 and a = "[1::nat, 2]"
      and rl = 0 and ru = 1 and b = "[3]" and la = 2 and lb = 1
      and vu = "\<lambda>_. None" and vd = "\<lambda>_. None", THEN conjunct1, THEN mp, OF h]
  from h t show ?thesis by (intro conjI) simp_all
qed

end
